(* ===== verification/Prelude.thy ===== *)
theory Prelude
  imports Complex_Main "HOL-Library.Sublist"
begin

text \<open>
  The prelude of the Remote-File-System development: how a run of the C code can end, the
  sequencing of runs, and the generic facts on lists that the components share.

  A C function is modelled by a function into \<open>stop + 'a\<close>: \<open>Inr x\<close> is a normal return
  of \<open>x\<close>, \<open>Inl e\<close> is an execution that does not get past this point. A caller that goes on
  after a call is written with \<open>andThen\<close>, so that a stop inside the call stops the caller too,
  as it does in C.
\<close>

section \<open>How a run ends\<close>

text \<open>
  The first five constructors are undefined behaviour of C: a write behind the end of an array
  (on the stack or from \<open>malloc\<close>), a read behind the end of an array, a use of a null pointer
  where an object is needed, a use of an indeterminate value (an uninitialised variable, or
  a conversion with no defined result) and a use of memory after \<open>free\<close>. \<open>ExitWith n\<close> is a call of \<open>exit(n)\<close>. \<open>Blocked\<close> is
  a system call that waits for something that never comes. \<open>OutOfFuel\<close> says that a loop ran
  through all the iterations that the fuel of the model allows; that a loop never returns is
  stated as \<open>OutOfFuel\<close> for every fuel, that it returns as a result for enough fuel.
\<close>

datatype stop =
    BufferOverflow
  | OutOfBoundsRead
  | NullPointer
  | Indeterminate
  | UseAfterFree
  | ExitWith int
  | Blocked
  | OutOfFuel

named_theorems run_simps "equations that evaluate runs of the code"
named_theorems fs_simps "equations of the file system operations"
named_theorems str_simps "equations of the string functions"

definition andThen :: "stop + 'a \<Rightarrow> ('a \<Rightarrow> stop + 'b) \<Rightarrow> stop + 'b" where
  "andThen m f = (case m of Inl e \<Rightarrow> Inl e | Inr x \<Rightarrow> f x)"

lemma andThen_Inl [simp, run_simps]: "andThen (Inl e) f = Inl e"
  by (simp add: andThen_def)

lemma andThen_Inr [simp, run_simps]: "andThen (Inr x) f = f x"
  by (simp add: andThen_def)

lemma andThen_eq_Inr_conv:
  "andThen m f = Inr y \<longleftrightarrow> (\<exists>x. m = Inr x \<and> f x = Inr y)"
  by (cases m) simp_all

lemma andThen_eq_Inl_conv:
  "andThen m f = Inl e \<longleftrightarrow> m = Inl e \<or> (\<exists>x. m = Inr x \<and> f x = Inl e)"
  by (cases m) simp_all

lemma andThen_InrE:
  assumes "andThen m f = Inr y"
  obtains x where "m = Inr x" and "f x = Inr y"
  using assms by (auto simp: andThen_eq_Inr_conv)

lemma andThen_assoc:
  "andThen (andThen m f) g = andThen m (\<lambda>x. andThen (f x) g)"
  by (cases m) simp_all

lemma andThen_cong [fundef_cong]:
  assumes "m = m'" and "\<And>x. m' = Inr x \<Longrightarrow> f x = f' x"
  shows "andThen m f = andThen m' f'"
  using assms by (cases m') simp_all

section \<open>Lists\<close>

lemma takeWhile_append_stop:
  "\<forall>x \<in> set xs. P x \<Longrightarrow> \<not> P y \<Longrightarrow> takeWhile P (xs @ y # ys) = xs"
  by (simp add: takeWhile_append)

lemma dropWhile_append_stop:
  "\<forall>x \<in> set xs. P x \<Longrightarrow> \<not> P y \<Longrightarrow> dropWhile P (xs @ y # ys) = y # ys"
  by (simp add: dropWhile_append)

lemma dropWhile_id:
  "(xs \<noteq> [] \<Longrightarrow> \<not> P (hd xs)) \<Longrightarrow> dropWhile P xs = xs"
  by (cases xs) simp_all

lemma takeWhile_all: "\<forall>x \<in> set xs. P x \<Longrightarrow> takeWhile P xs = xs"
  by (simp add: takeWhile_eq_all_conv)

lemma take_drop_append: "take k xs @ take (n - k) (drop k xs) = take n xs" if "k \<le> n"
  using that by (metis le_add_diff_inverse take_add)

lemma map_of_filter_key:
  "map_of (filter (\<lambda>(k', v). k' \<noteq> k) xs) k' = (if k' = k then None else map_of xs k')"
  by (induction xs) auto

lemma distinct_map_fst_filter: "distinct (map fst xs) \<Longrightarrow> distinct (map fst (filter P xs))"
  by (induction xs) auto

end
