(* ===== verification/C_Strings.thy ===== *)
theory C_Strings
  imports Prelude
begin

text \<open>
  C strings as the code uses them. A \<open>char*\<close> that points to a string is the list of its
  characters without the terminating zero byte; a \<open>char*\<close> that may be \<open>NULL\<close> is a
  \<open>string option\<close>. A \<open>char\<close> array filled by \<open>recv\<close> is a list of bytes in which the zero
  byte still has to be found. The functions of \<open>string.h\<close>, \<open>stdlib.h\<close> and \<open>stdio.h\<close>
  that the code calls are modelled by what the C standard says of them.
\<close>

section \<open>Arrays and strings\<close>

abbreviation NUL :: char where
  "NUL \<equiv> CHR 0x00"

definition cstr :: "string \<Rightarrow> bool" where
  "cstr s \<longleftrightarrow> NUL \<notin> set s"

definition cstring_in :: "char list \<Rightarrow> stop + string" where
  \<comment> \<open>reading the string at the start of an array: undefined if no zero byte ends it\<close>
  "cstring_in buf =
     (if NUL \<in> set buf then Inr (takeWhile (\<lambda>c. c \<noteq> NUL) buf) else Inl OutOfBoundsRead)"

definition store_string :: "nat \<Rightarrow> string \<Rightarrow> stop + string" where
  \<comment> \<open>\<open>strcpy\<close>, \<open>strcat\<close> or \<open>sprintf\<close> leaving string \<open>s\<close> in an array of \<open>n\<close> bytes\<close>
  "store_string n s = (if length s + 1 \<le> n then Inr s else Inl BufferOverflow)"

lemma cstring_in_padded:
  "cstr s \<Longrightarrow> 0 < n \<Longrightarrow> cstring_in (s @ replicate n NUL) = Inr s"
  by (cases n) (auto simp: cstring_in_def cstr_def takeWhile_append)

lemma cstring_in_full: "cstr s \<Longrightarrow> cstring_in s = Inl OutOfBoundsRead"
  by (simp add: cstring_in_def cstr_def)

lemma store_string_fits [simp]: "length s < n \<Longrightarrow> store_string n s = Inr s"
  by (simp add: store_string_def)

lemma store_string_overflow [simp]: "n \<le> length s \<Longrightarrow> store_string n s = Inl BufferOverflow"
  by (simp add: store_string_def)

lemma store_string_eq_Inr [simp]: "store_string n s = Inr t \<longleftrightarrow> t = s \<and> length s < n"
  by (auto simp: store_string_def)

section \<open>Comparing strings\<close>

fun strcmp :: "string \<Rightarrow> string \<Rightarrow> int" where
  \<comment> \<open>only the sign of the result is specified\<close>
  "strcmp [] [] = 0"
| "strcmp [] (_ # _) = - 1"
| "strcmp (_ # _) [] = 1"
| "strcmp (a # as) (b # bs) =
     (if a = b then strcmp as bs
      else if (of_char a :: nat) < of_char b then - 1 else 1)"

definition strncmp :: "string \<Rightarrow> string \<Rightarrow> nat \<Rightarrow> int" where
  "strncmp a b n = strcmp (take n a) (take n b)"

lemma strcmp_eq_0 [simp]: "strcmp a b = 0 \<longleftrightarrow> a = b"
  by (induction a b rule: strcmp.induct) auto

lemma strncmp_eq_0_prefix: "strncmp a b (length b) = 0 \<longleftrightarrow> prefix b a"
  by (auto simp: strncmp_def prefix_def) (metis append_take_drop_id)

definition equals :: "string option \<Rightarrow> string option \<Rightarrow> bool" where
  "equals a b =
     (case (a, b) of
        (None, None) \<Rightarrow> True
      | (None, Some _) \<Rightarrow> False
      | (Some _, None) \<Rightarrow> False
      | (Some s, Some t) \<Rightarrow> strcmp s t = 0)"

lemma equals_iff [simp]: "equals a b \<longleftrightarrow> a = b"
  by (auto simp: equals_def split: option.splits)

section \<open>Searching: strrchr\<close>

fun strrchr :: "string \<Rightarrow> char \<Rightarrow> nat option" where
  "strrchr [] c = None"
| "strrchr (x # xs) c =
     (case strrchr xs c of
        Some i \<Rightarrow> Some (Suc i)
      | None \<Rightarrow> if x = c then Some 0 else None)"

lemma strrchr_None: "strrchr s c = None \<longleftrightarrow> c \<notin> set s"
  by (induction s) (auto split: option.splits)

lemma strrchr_absent [simp]: "c \<notin> set s \<Longrightarrow> strrchr s c = None"
  by (simp add: strrchr_None)

lemma strrchr_last [simp]: "c \<notin> set t \<Longrightarrow> strrchr (s @ c # t) c = Some (length s)"
  by (induction s) (auto split: option.splits)

lemma strrchr_Some_decomp:
  "strrchr s c = Some i \<Longrightarrow> s = take i s @ c # drop (Suc i) s \<and> c \<notin> set (drop (Suc i) s) \<and> i < length s"
  by (induction s arbitrary: i) (auto simp: strrchr_None split: option.splits if_splits)

section \<open>Tokens: strtok with one delimiter\<close>

text \<open>
  \<open>strtok\<close> keeps the rest of the string between calls. The model returns it: the result is
  the token and what the next call \<open>strtok(NULL, \<dots>)\<close> goes on with, or \<open>None\<close> for
  \<open>NULL\<close>. Leading delimiters are skipped, so there is never an empty token.
\<close>

definition strtok :: "char \<Rightarrow> string \<Rightarrow> (string \<times> string) option" where
  "strtok d s =
     (let s' = dropWhile (\<lambda>c. c = d) s
      in if s' = [] then None
         else Some (takeWhile (\<lambda>c. c \<noteq> d) s', drop 1 (dropWhile (\<lambda>c. c \<noteq> d) s')))"

lemma strtok_Nil [simp]: "strtok d [] = None"
  by (simp add: strtok_def)

lemma length_drop1_dropWhile_less:
  "xs \<noteq> [] \<Longrightarrow> length (drop 1 (dropWhile P xs)) < length xs"
proof -
  assume "xs \<noteq> []"
  then obtain y ys where "xs = y # ys" by (cases xs) auto
  moreover have "length (dropWhile P ys) \<le> length ys"
    by (rule length_dropWhile_le)
  ultimately show ?thesis by auto
qed

lemma strtok_shorter: "strtok d s = Some (t, r) \<Longrightarrow> length r < length s"
proof -
  assume a: "strtok d s = Some (t, r)"
  let ?s = "dropWhile (\<lambda>c. c = d) s"
  from a have ne: "?s \<noteq> []" and r: "r = drop 1 (dropWhile (\<lambda>c. c \<noteq> d) ?s)"
    by (auto simp: strtok_def Let_def split: if_splits)
  have "length r < length ?s"
    unfolding r using ne by (rule length_drop1_dropWhile_less)
  also have "\<dots> \<le> length s"
    by (rule length_dropWhile_le)
  finally show ?thesis .
qed

lemma strtok_append [simp]:
  assumes "t \<noteq> []" and "d \<notin> set t"
  shows "strtok d (t @ d # r) = Some (t, r)"
proof -
  from assms have hd: "hd (t @ d # r) \<noteq> d" by (cases t) auto
  have "dropWhile (\<lambda>c. c = d) (t @ d # r) = t @ d # r"
    using hd by (intro dropWhile_id) simp
  moreover have "takeWhile (\<lambda>c. c \<noteq> d) (t @ d # r) = t"
    using assms(2) by (intro takeWhile_append_stop) auto
  moreover have "dropWhile (\<lambda>c. c \<noteq> d) (t @ d # r) = d # r"
    using assms(2) by (intro dropWhile_append_stop) auto
  ultimately show ?thesis by (simp add: strtok_def)
qed

lemma strtok_last [simp]:
  assumes "t \<noteq> []" and "d \<notin> set t"
  shows "strtok d t = Some (t, [])"
proof -
  from assms have hd: "hd t \<noteq> d" by (cases t) auto
  have lead: "dropWhile (\<lambda>c. c = d) t = t"
    using hd by (intro dropWhile_id) simp
  have tok: "takeWhile (\<lambda>c. c \<noteq> d) t = t"
    using assms(2) by (intro takeWhile_all) auto
  have rest: "drop 1 (dropWhile (\<lambda>c. c \<noteq> d) t) = []"
    using assms(2) by (metis (mono_tags) dropWhile_eq_Nil_conv drop_Nil)
  show ?thesis
    unfolding strtok_def Let_def lead tok rest using assms(1) by simp
qed

section \<open>Printing integers: %d and %ld\<close>

fun show_nat :: "nat \<Rightarrow> string" where
  "show_nat n =
     (if n < 10 then [char_of (48 + n)] else show_nat (n div 10) @ [char_of (48 + n mod 10)])"

declare show_nat.simps [simp del]

definition show_int :: "int \<Rightarrow> string" where
  "show_int i = (if i < 0 then CHR ''-'' # show_nat (nat (- i)) else show_nat (nat i))"

definition isdigit :: "char \<Rightarrow> bool" where
  "isdigit c \<longleftrightarrow> 48 \<le> (of_char c :: nat) \<and> (of_char c :: nat) \<le> 57"

definition isspace :: "char \<Rightarrow> bool" where
  "isspace c \<longleftrightarrow> (of_char c :: nat) = 32 \<or> 9 \<le> (of_char c :: nat) \<and> (of_char c :: nat) \<le> 13"

lemma isdigit_digit [simp]: "d < 10 \<Longrightarrow> isdigit (char_of (48 + d :: nat))"
  by (simp add: isdigit_def)

lemma show_nat_isdigit: "c \<in> set (show_nat n) \<Longrightarrow> isdigit c"
proof (induction n rule: show_nat.induct)
  case (1 n)
  then show ?case
    by (subst (asm) show_nat.simps) (auto split: if_splits)
qed

lemma show_nat_nonempty [simp]: "show_nat n \<noteq> []"
  by (subst show_nat.simps) simp

lemma isdigit_not_special [simp]:
  "isdigit c \<Longrightarrow> c \<noteq> CHR '',''"
  "isdigit c \<Longrightarrow> c \<noteq> CHR ''-''"
  "isdigit c \<Longrightarrow> c \<noteq> CHR ''+''"
  "isdigit c \<Longrightarrow> c \<noteq> CHR ''/''"
  "isdigit c \<Longrightarrow> c \<noteq> CHR ''.''"
  "isdigit c \<Longrightarrow> c \<noteq> NUL"
  "isdigit c \<Longrightarrow> \<not> isspace c"
  by (auto simp: isdigit_def isspace_def)

lemma show_nat_plain [simp]:
  "CHR '','' \<notin> set (show_nat n)" "CHR ''-'' \<notin> set (show_nat n)"
  "CHR ''/'' \<notin> set (show_nat n)" "NUL \<notin> set (show_nat n)"
  using show_nat_isdigit isdigit_not_special by blast+

lemma show_int_nonempty [simp]: "show_int i \<noteq> []"
  by (simp add: show_int_def)

lemma show_int_plain [simp]:
  "CHR '','' \<notin> set (show_int i)" "CHR ''/'' \<notin> set (show_int i)" "NUL \<notin> set (show_int i)"
  by (simp_all add: show_int_def)

section \<open>Reading integers: strtol in base ten\<close>

definition LONG_MAX :: int where "LONG_MAX = 9223372036854775807"
definition LONG_MIN :: int where "LONG_MIN = - 9223372036854775808"

definition digits_value :: "string \<Rightarrow> nat" where
  "digits_value ds = foldl (\<lambda>a c. 10 * a + (of_char c - 48)) 0 ds"

definition strtol :: "string \<Rightarrow> int" where
  \<comment> \<open>white space, a sign, digits; no digits give 0, out of range gives the nearest bound\<close>
  "strtol s =
     (let s1 = dropWhile isspace s;
          neg = (s1 \<noteq> [] \<and> hd s1 = CHR ''-'');
          s2 = (if s1 \<noteq> [] \<and> (hd s1 = CHR ''-'' \<or> hd s1 = CHR ''+'') then tl s1 else s1);
          v = int (digits_value (takeWhile isdigit s2));
          i = (if neg then - v else v)
      in max LONG_MIN (min LONG_MAX i))"

lemma digits_value_snoc:
  "digits_value (ds @ [c]) = 10 * digits_value ds + (of_char c - 48)"
  by (simp add: digits_value_def)

lemma digits_value_show_nat [simp]: "digits_value (show_nat n) = n"
proof (induction n rule: show_nat.induct)
  case (1 n)
  show ?case
  proof (cases "n < 10")
    case True
    then show ?thesis
      by (subst show_nat.simps) (simp add: digits_value_def)
  next
    case False
    with 1 show ?thesis
      by (subst show_nat.simps) (simp add: digits_value_snoc)
  qed
qed

lemma takeWhile_isdigit_show_nat [simp]: "takeWhile isdigit (show_nat n) = show_nat n"
  by (simp add: takeWhile_all show_nat_isdigit)

lemma hd_show_nat_isdigit [simp]: "isdigit (hd (show_nat n))"
  by (rule show_nat_isdigit [OF hd_in_set]) simp

lemma dropWhile_isspace_show_nat [simp]: "dropWhile isspace (show_nat n) = show_nat n"
  by (rule dropWhile_id) (simp add: isdigit_not_special(7))

lemma hd_show_nat_not_sign [simp]:
  "hd (show_nat n) \<noteq> CHR ''-''" "hd (show_nat n) \<noteq> CHR ''+''"
  using isdigit_not_special hd_show_nat_isdigit by blast+

text \<open>What \<open>%ld\<close> prints, \<open>strtol\<close> reads back, for every value of type \<open>long\<close>.\<close>

lemma strtol_show_int [simp]:
  assumes "LONG_MIN \<le> i" and "i \<le> LONG_MAX"
  shows "strtol (show_int i) = i"
proof (cases "i < 0")
  case True
  have "\<not> isspace (CHR ''-'')" by (simp add: isspace_def)
  with True assms show ?thesis
    by (simp add: strtol_def show_int_def Let_def)
next
  case False
  with assms show ?thesis
    by (simp add: strtol_def show_int_def Let_def)
qed

lemma strtol_bounds: "LONG_MIN \<le> strtol s \<and> strtol s \<le> LONG_MAX"
  by (auto simp: strtol_def Let_def LONG_MIN_def LONG_MAX_def)

section \<open>Counting digits: ceil and log10\<close>

text \<open>
  \<open>ceil(log10(n))\<close> of \<open>math.h\<close>, for \<open>n > 0\<close>, as the least \<open>k\<close> with
  \<open>n \<le> 10 ^ k\<close>. The rounding of \<open>log10\<close> in type \<open>double\<close> is not modelled; below
  \<open>10 ^ 15\<close> it does not change the result.
\<close>

fun ceil_log10 :: "nat \<Rightarrow> nat" where
  "ceil_log10 n = (if n \<le> 1 then 0 else Suc (ceil_log10 ((n + 9) div 10)))"

declare ceil_log10.simps [simp del]

lemma ceil_log10_1 [simp]: "ceil_log10 (Suc 0) = 0"
  by (simp add: ceil_log10.simps)

definition power_of_ten :: "nat \<Rightarrow> bool" where
  "power_of_ten n \<longleftrightarrow> n = 10 ^ ceil_log10 n"

lemma ceil_log10_le_iff: "0 < n \<Longrightarrow> ceil_log10 n \<le> k \<longleftrightarrow> n \<le> 10 ^ k"
proof (induction n arbitrary: k rule: ceil_log10.induct)
  case (1 n)
  show ?case
  proof (cases "n \<le> 1")
    case True
    then show ?thesis
      using 1 by (simp add: ceil_log10.simps [of n]) (metis One_nat_def le_trans one_le_numeral one_le_power)
  next
    case False
    show ?thesis
    proof (cases k)
      case 0
      with False show ?thesis by (simp add: ceil_log10.simps [of n])
    next
      case (Suc j)
      have "(n + 9) div 10 \<le> 10 ^ j \<longleftrightarrow> n \<le> 10 * 10 ^ j" by linarith
      with False 1 Suc show ?thesis by (simp add: ceil_log10.simps [of n])
    qed
  qed
qed

lemma ceil_log10_upper: "0 < n \<Longrightarrow> n \<le> 10 ^ ceil_log10 n"
  using ceil_log10_le_iff [of n "ceil_log10 n"] by simp

lemma ceil_log10_lower: "1 < n \<Longrightarrow> 10 ^ (ceil_log10 n - 1) < n"
  using ceil_log10_le_iff [of n "ceil_log10 n - 1"]
  by (simp add: ceil_log10.simps [of n])

lemma ceil_log10_real:
  assumes "0 < n"
  shows "int (ceil_log10 n) = \<lceil>log 10 (real n)\<rceil>"
proof (cases "n = 1")
  case True
  then show ?thesis by simp
next
  case False
  with assms have n: "1 < n" by simp
  let ?k = "ceil_log10 n - 1"
  have k: "ceil_log10 n = Suc ?k" using n by (simp add: ceil_log10.simps [of n])
  have "10 ^ ?k < n" using n by (rule ceil_log10_lower)
  moreover have "n \<le> 10 ^ (?k + 1)" using ceil_log10_upper [OF assms] k by simp
  ultimately have "\<lceil>log (real 10) (real n)\<rceil> = int ?k + 1"
    by (intro ceiling_log_nat_eq_if) simp_all
  with k show ?thesis by simp
qed

lemma power_of_ten_iff: "0 < n \<Longrightarrow> power_of_ten n \<longleftrightarrow> (\<exists>k. n = 10 ^ k)"
proof
  assume "0 < n" and "\<exists>k. n = 10 ^ k"
  then obtain k where k: "n = 10 ^ k" by blast
  have "ceil_log10 n \<le> k" using \<open>0 < n\<close> k by (simp add: ceil_log10_le_iff)
  moreover have "(10::nat) ^ k \<le> 10 ^ ceil_log10 n" using ceil_log10_upper [OF \<open>0 < n\<close>] k by simp
  then have "k \<le> ceil_log10 n" by simp
  ultimately show "power_of_ten n" using k by (simp add: power_of_ten_def)
qed (auto simp: power_of_ten_def)

text \<open>
  The number of digits that \<open>%ld\<close> prints is one more than \<open>ceil(log10(n))\<close> exactly
  when \<open>n\<close> is a power of ten.
\<close>

lemma show_nat_length_bounds:
  "0 < n \<Longrightarrow> 10 ^ (length (show_nat n) - 1) \<le> n \<and> n < 10 ^ length (show_nat n)"
proof (induction n rule: show_nat.induct)
  case (1 n)
  show ?case
  proof (cases "n < 10")
    case True
    with "1.prems" show ?thesis by (subst (1 2) show_nat.simps) simp
  next
    case False
    let ?L = "length (show_nat (n div 10))"
    have "length (show_nat n) = Suc ?L"
      using False by (subst show_nat.simps) simp
    moreover have "10 ^ (?L - 1) \<le> n div 10" and "n div 10 < 10 ^ ?L"
      using False "1.IH" by auto
    moreover have "(10::nat) ^ ?L = 10 * 10 ^ (?L - 1)"
      by (metis Suc_diff_1 length_greater_0_conv power_Suc show_nat_nonempty)
    ultimately show ?thesis by simp linarith
  qed
qed

lemma length_show_nat:
  assumes "0 < n"
  shows "length (show_nat n) = (if power_of_ten n then Suc (ceil_log10 n) else ceil_log10 n)"
proof -
  obtain m where L: "length (show_nat n) = Suc m"
    by (metis Suc_diff_1 length_greater_0_conv show_nat_nonempty)
  with show_nat_length_bounds [OF assms] have lo: "10 ^ m \<le> n" and hi: "n < 10 ^ Suc m"
    by auto
  have "ceil_log10 n \<le> Suc m" using hi assms by (simp add: ceil_log10_le_iff)
  moreover have "m \<le> ceil_log10 n"
  proof -
    have "(10::nat) ^ m \<le> 10 ^ ceil_log10 n"
      using lo ceil_log10_upper [OF assms] by (rule order.trans)
    then show ?thesis by simp
  qed
  moreover have "ceil_log10 n \<le> m \<longleftrightarrow> n = 10 ^ m"
    using lo assms by (auto simp: ceil_log10_le_iff)
  ultimately consider "ceil_log10 n = m" "n = 10 ^ m" | "ceil_log10 n = Suc m" by linarith
  then show ?thesis
    using L hi by cases (auto simp: power_of_ten_def)
qed

end
