(* ===== verification/Command.thy ===== *)
theory Command
  imports C_Strings
begin

text \<open>
  \<open>command.h\<close> and \<open>command.c\<close>: the kinds of command, how they are read from a string, the
  prefix that puts every path of a command line into \<open>data/\<close>, and the struct that a parsed
  command line becomes. \<open>malloc\<close> and \<open>strdup\<close> are taken to succeed, as everywhere in the
  development; \<open>free\<close> has no effect on the values of the model and is left out.
\<close>

section \<open>Command types\<close>

datatype command_type = WRITE | GET | RM | LS | UNKNOWN

fun enum_val :: "command_type \<Rightarrow> nat" where
  \<comment> \<open>the integer that C gives the enumerator\<close>
  "enum_val WRITE = 0"
| "enum_val GET = 1"
| "enum_val RM = 2"
| "enum_val LS = 3"
| "enum_val UNKNOWN = 4"

fun enum_of :: "nat \<Rightarrow> command_type" where
  \<comment> \<open>the integer 0 to 3 that the code returns as a \<open>command_type\<close>\<close>
  "enum_of i = (if i = 0 then WRITE else if i = 1 then GET else if i = 2 then RM
                else if i = 3 then LS else UNKNOWN)"

lemma enum_of_enum_val [simp]: "enum_of (enum_val t) = t"
  by (cases t) simp_all

lemma enum_val_inject [simp]: "enum_val s = enum_val t \<longleftrightarrow> s = t"
  by (metis enum_of_enum_val)

text \<open>Enumerators compare as their integers do.\<close>

instantiation command_type :: linorder
begin

definition less_eq_command_type :: "command_type \<Rightarrow> command_type \<Rightarrow> bool" where
  "s \<le> t \<longleftrightarrow> enum_val s \<le> enum_val t"

definition less_command_type :: "command_type \<Rightarrow> command_type \<Rightarrow> bool" where
  "s < t \<longleftrightarrow> enum_val s < enum_val t"

instance
  by standard (auto simp: less_eq_command_type_def less_command_type_def)

end

lemma less_UNKNOWN_iff: "t < UNKNOWN \<longleftrightarrow> t \<noteq> UNKNOWN"
  by (cases t) (simp_all add: less_command_type_def)

definition COMMAND_STRINGS :: "string list" where
  "COMMAND_STRINGS = [''WRITE'', ''GET'', ''RM'', ''LS'']"

definition NUM_COMMANDS :: nat where
  "NUM_COMMANDS = 4"

fun search_commands :: "string list \<Rightarrow> nat \<Rightarrow> string option \<Rightarrow> nat option" where
  \<comment> \<open>the loop over the command strings, \<open>i\<close> being the index of the first of them\<close>
  "search_commands [] i str = None"
| "search_commands (c # cs) i str =
     (if equals (Some c) str then Some i else search_commands cs (Suc i) str)"

definition strToCommandType :: "string option \<Rightarrow> command_type" where
  "strToCommandType str =
     (case search_commands (take NUM_COMMANDS COMMAND_STRINGS) 0 str of
        Some i \<Rightarrow> enum_of i
      | None \<Rightarrow>
          if equals str (Some ''0'') then enum_of 0
          else if equals str (Some ''1'') then enum_of 1
          else if equals str (Some ''2'') then enum_of 2
          else if equals str (Some ''3'') then enum_of 3
          else UNKNOWN)"

definition command_string :: "command_type \<Rightarrow> stop + string" where
  \<comment> \<open>\<open>COMMAND_STRINGS[t]\<close>: the array has no entry for \<open>UNKNOWN\<close>\<close>
  "command_string t =
     (if enum_val t < length COMMAND_STRINGS then Inr (COMMAND_STRINGS ! enum_val t)
      else Inl OutOfBoundsRead)"

lemma command_string_simps [simp, str_simps]:
  "command_string WRITE = Inr ''WRITE''"
  "command_string GET = Inr ''GET''"
  "command_string RM = Inr ''RM''"
  "command_string LS = Inr ''LS''"
  "command_string UNKNOWN = Inl OutOfBoundsRead"
  by (simp_all add: command_string_def COMMAND_STRINGS_def numeral_2_eq_2 numeral_3_eq_3)

lemma strToCommandType_eq:
  "strToCommandType str =
     (if str = Some ''WRITE'' \<or> str = Some ''0'' then WRITE
      else if str = Some ''GET'' \<or> str = Some ''1'' then GET
      else if str = Some ''RM'' \<or> str = Some ''2'' then RM
      else if str = Some ''LS'' \<or> str = Some ''3'' then LS
      else UNKNOWN)"
  by (auto simp: strToCommandType_def COMMAND_STRINGS_def NUM_COMMANDS_def)

lemma strToCommandType_command_string:
  "command_string t = Inr s \<Longrightarrow> strToCommandType (Some s) = t"
  by (cases t) (auto simp: strToCommandType_eq)

lemma command_string_plain:
  "command_string t = Inr s \<Longrightarrow> s \<noteq> [] \<and> CHR '','' \<notin> set s \<and> NUL \<notin> set s \<and> length s \<le> 5"
  by (cases t) auto

lemma command_string_defined: "t \<noteq> UNKNOWN \<longleftrightarrow> (\<exists>s. command_string t = Inr s)"
  by (cases t) auto

section \<open>Paths and the command struct\<close>

definition PATH_FORMAT :: string where
  "PATH_FORMAT = ''data/%s''"

definition formatPath :: "string option \<Rightarrow> stop + string" where
  \<comment> \<open>the buffer has \<open>strlen(PATH_FORMAT) + strlen(str)\<close> bytes\<close>
  "formatPath str =
     (case str of
        None \<Rightarrow> Inl NullPointer
      | Some s \<Rightarrow> store_string (length PATH_FORMAT + length s) (''data/'' @ s))"

lemma formatPath_Some [simp]: "formatPath (Some s) = Inr (''data/'' @ s)"
  by (simp add: formatPath_def PATH_FORMAT_def)

lemma formatPath_None [simp]: "formatPath None = Inl NullPointer"
  by (simp add: formatPath_def)

record command_t =
  c_type :: command_type
  server_ip :: string
  local_path :: string
  cmd_remote_path :: string

definition createCommandStruct ::
  "command_type \<Rightarrow> string option \<Rightarrow> string option \<Rightarrow> string option \<Rightarrow> stop + command_t option" where
  "createCommandStruct type ip_address loc remote =
     (case ip_address of
        None \<Rightarrow> Inr None
      | Some ip \<Rightarrow>
          andThen (formatPath loc) (\<lambda>local_path'.
          andThen (formatPath remote) (\<lambda>remote_path'.
            Inr (Some \<lparr>c_type = type, server_ip = ip, local_path = local_path',
                       cmd_remote_path = remote_path'\<rparr>))))"

lemma createCommandStruct_Some [simp]:
  "createCommandStruct t (Some ip) (Some l) (Some r) =
     Inr (Some \<lparr>c_type = t, server_ip = ip, local_path = ''data/'' @ l,
                cmd_remote_path = ''data/'' @ r\<rparr>)"
  by (simp add: createCommandStruct_def)

lemma show_nat_digits [simp]:
  "show_nat 0 = ''0''" "show_nat (Suc 0) = ''1''" "show_nat 2 = ''2''" "show_nat 3 = ''3''"
  by code_simp+

text \<open>
  The names of the commands: a string is read as the known command type \<open>t\<close> exactly if
  it is the name that \<open>COMMAND_STRINGS\<close> has for \<open>t\<close> or the decimal digit of the
  enumerator. Every other string, and \<open>NULL\<close>, is read as \<open>UNKNOWN\<close>.
\<close>

theorem strToCommandType_correct:
  "strToCommandType str = t \<and> t \<noteq> UNKNOWN \<longleftrightarrow>
   t \<noteq> UNKNOWN \<and>
   str \<in> {Some (COMMAND_STRINGS ! enum_val t), Some (show_nat (enum_val t))}"
  by (cases t)
    (auto simp: strToCommandType_eq COMMAND_STRINGS_def numeral_2_eq_2 [symmetric]
      numeral_3_eq_3 [symmetric])

end
