(* ===== verification/Arg_Parser.thy ===== *)
theory Arg_Parser
  imports Command
begin

text \<open>
  \<open>client/arg_parser.c\<close>: the command line of the client. \<open>argv\<close> is the list of the argument
  strings (\<open>argc\<close> is its length); \<open>exit(1)\<close> is \<open>Inl (ExitWith 1)\<close>. The help text and
  the error messages that are printed before \<open>exit\<close> are added in theory \<open>Console\<close>.
\<close>

section \<open>The code\<close>

definition REMOTE_FLAG :: string where "REMOTE_FLAG = ''--remote''"
definition LOCAL_FLAG :: string where "LOCAL_FLAG = ''--local''"
definition SERVER_FLAG :: string where "SERVER_FLAG = ''--server''"
definition DEFAULT_IP :: string where "DEFAULT_IP = ''127.0.0.1''"

lemmas flag_defs = REMOTE_FLAG_def LOCAL_FLAG_def SERVER_FLAG_def

definition getCommandType :: "string list \<Rightarrow> command_type" where
  "getCommandType argv =
     (if length argv < 2 then UNKNOWN else strToCommandType (Some (argv ! 1)))"

definition is_flag :: "string \<Rightarrow> bool" where
  \<comment> \<open>\<open>path[0] == '-'\<close>\<close>
  "is_flag path \<longleftrightarrow> path \<noteq> [] \<and> hd path = CHR ''-''"

fun scan_args :: "string \<Rightarrow> string list \<Rightarrow> stop + string option" where
  \<comment> \<open>the loop over the arguments, from the current one on\<close>
  "scan_args flag [] = Inr None"
| "scan_args flag (curr_arg # rest) =
     (if equals (Some curr_arg) (Some flag) then
        (case rest of
           [] \<Rightarrow> Inl (ExitWith 1)
         | path # _ \<Rightarrow> if is_flag path then Inl (ExitWith 1) else Inr (Some path))
      else scan_args flag rest)"

definition getPathArg :: "string list \<Rightarrow> string \<Rightarrow> stop + string option" where
  "getPathArg argv flag = scan_args flag (drop 1 argv)"

definition argParser :: "string list \<Rightarrow> stop + command_t option" where
  "argParser argv =
     (let commandType = getCommandType argv in
      if commandType = UNKNOWN then Inl (ExitWith 1)
      else
        andThen (getPathArg argv SERVER_FLAG) (\<lambda>ip_arg.
        andThen (getPathArg argv LOCAL_FLAG) (\<lambda>local_arg.
        andThen (getPathArg argv REMOTE_FLAG) (\<lambda>remote_arg.
        let ip_address = (if ip_arg = None then Some DEFAULT_IP else ip_arg) in
        if commandType = WRITE then
          (if local_arg = None then Inl (ExitWith 1)
           else createCommandStruct commandType ip_address local_arg
                  (if remote_arg = None then local_arg else remote_arg))
        else if remote_arg = None then Inl (ExitWith 1)
        else if commandType = GET then
          createCommandStruct commandType ip_address
            (if local_arg = None then remote_arg else local_arg) remote_arg
        else createCommandStruct commandType ip_address (Some '''') remote_arg))))"

section \<open>Finding a flag\<close>

lemma scan_args_skip: "flag \<notin> set pre \<Longrightarrow> scan_args flag (pre @ rest) = scan_args flag rest"
  by (induction pre) auto

lemma scan_args_None [simp]: "flag \<notin> set args \<Longrightarrow> scan_args flag args = Inr None"
  using scan_args_skip [of flag args "[]"] by simp

lemma scan_args_cases:
  obtains (absent) "flag \<notin> set args" "scan_args flag args = Inr None"
  | (last_arg) pre where "args = pre @ [flag]" "flag \<notin> set pre" "scan_args flag args = Inl (ExitWith 1)"
  | (bad) pre p post where "args = pre @ flag # p # post" "flag \<notin> set pre" "is_flag p"
      "scan_args flag args = Inl (ExitWith 1)"
  | (found) pre p post where "args = pre @ flag # p # post" "flag \<notin> set pre" "\<not> is_flag p"
      "scan_args flag args = Inr (Some p)"
proof (cases "flag \<in> set args")
  case False
  then show ?thesis by (intro absent) simp_all
next
  case True
  then obtain pre rest where args: "args = pre @ flag # rest" and pre: "flag \<notin> set pre"
    by (auto dest: split_list_first)
  show ?thesis
  proof (cases rest)
    case Nil
    with args pre show ?thesis by (intro last_arg) (simp_all add: scan_args_skip)
  next
    case (Cons p post)
    with args pre show ?thesis
      by (cases "is_flag p") (auto intro: bad found simp: scan_args_skip)
  qed
qed

lemma split_first_unique:
  "pre @ x # rest = pre' @ x # rest' \<Longrightarrow> x \<notin> set pre \<Longrightarrow> x \<notin> set pre' \<Longrightarrow> pre = pre' \<and> rest = rest'"
  by (induction pre arbitrary: pre') (auto simp: Cons_eq_append_conv append_eq_Cons_conv)

text \<open>
  What the argument after a flag is: \<open>getPathArg\<close> returns a path exactly if the first
  occurrence of the flag behind the program name is followed by an argument that does not
  start with a dash, and the path is that argument.
\<close>

theorem getPathArg_found:
  "getPathArg argv flag = Inr (Some p) \<longleftrightarrow>
   (\<exists>pre post. drop 1 argv = pre @ flag # p # post \<and> flag \<notin> set pre \<and> \<not> is_flag p)"
proof -
  have "scan_args flag args = Inr (Some p) \<longleftrightarrow>
      (\<exists>pre post. args = pre @ flag # p # post \<and> flag \<notin> set pre \<and> \<not> is_flag p)" for args
  proof (rule scan_args_cases [of flag args])
  qed (auto dest: split_first_unique)
  then show ?thesis by (simp add: getPathArg_def)
qed

lemma getPathArg_Inl: "getPathArg argv flag = Inl e \<Longrightarrow> e = ExitWith 1"
  unfolding getPathArg_def by (rule scan_args_cases [of flag "drop 1 argv"]) auto

section \<open>Parsing a command line\<close>

text \<open>
  The usage table of the README as a function: which paths a command gets from the values of
  \<open>--local\<close> and \<open>--remote\<close>, and when a required one is missing (\<open>None\<close>).
\<close>

fun usage_paths :: "command_type \<Rightarrow> string option \<Rightarrow> string option \<Rightarrow> (string \<times> string) option" where
  "usage_paths WRITE (Some l) None = Some (l, l)"
| "usage_paths WRITE (Some l) (Some r) = Some (l, r)"
| "usage_paths GET None (Some r) = Some (r, r)"
| "usage_paths GET (Some l) (Some r) = Some (l, r)"
| "usage_paths RM _ (Some r) = Some ('''', r)"
| "usage_paths LS _ (Some r) = Some ('''', r)"
| "usage_paths _ _ _ = None"

lemma usage_paths_UNKNOWN [simp]: "usage_paths UNKNOWN l m = None"
  by (cases l; cases m) simp_all

lemma argParser_scanned:
  assumes "getPathArg argv SERVER_FLAG = Inr ip" and "getPathArg argv LOCAL_FLAG = Inr l"
    and "getPathArg argv REMOTE_FLAG = Inr m"
  shows "argParser argv =
    (case usage_paths (getCommandType argv) l m of
       None \<Rightarrow> Inl (ExitWith 1)
     | Some (lp, rp) \<Rightarrow>
         createCommandStruct (getCommandType argv) (Some (case ip of None \<Rightarrow> DEFAULT_IP | Some a \<Rightarrow> a))
           (Some lp) (Some rp))"
proof -
  have addr: "(if ip = None then Some DEFAULT_IP else ip) =
      Some (case ip of None \<Rightarrow> DEFAULT_IP | Some a \<Rightarrow> a)"
    by (cases ip) simp_all
  show ?thesis
    unfolding argParser_def Let_def assms andThen_Inr addr
    by (cases "getCommandType argv"; cases l; cases m) simp_all
qed

lemma argParser_flag_error:
  assumes "getPathArg argv f = Inl e" and "f \<in> {SERVER_FLAG, LOCAL_FLAG, REMOTE_FLAG}"
  shows "argParser argv = Inl (ExitWith 1)"
proof -
  have stop: "e' = ExitWith 1" if "getPathArg argv f' = Inl e'" for f' e'
    using that by (rule getPathArg_Inl)
  show ?thesis
    unfolding argParser_def Let_def using assms
    by (cases "getPathArg argv SERVER_FLAG"; cases "getPathArg argv LOCAL_FLAG";
        cases "getPathArg argv REMOTE_FLAG") (auto dest: stop)
qed

lemma argParser_Inr_iff:
  "argParser argv = Inr r \<longleftrightarrow>
   (\<exists>ip l m lp rp.
      getPathArg argv SERVER_FLAG = Inr ip \<and> getPathArg argv LOCAL_FLAG = Inr l \<and>
      getPathArg argv REMOTE_FLAG = Inr m \<and>
      usage_paths (getCommandType argv) l m = Some (lp, rp) \<and>
      r = Some \<lparr>c_type = getCommandType argv,
                server_ip = (case ip of None \<Rightarrow> DEFAULT_IP | Some a \<Rightarrow> a),
                local_path = ''data/'' @ lp, cmd_remote_path = ''data/'' @ rp\<rparr>)"
proof (cases "getPathArg argv SERVER_FLAG"; cases "getPathArg argv LOCAL_FLAG";
    cases "getPathArg argv REMOTE_FLAG")
  fix ip l m
  assume "getPathArg argv SERVER_FLAG = Inr ip" "getPathArg argv LOCAL_FLAG = Inr l"
    "getPathArg argv REMOTE_FLAG = Inr m"
  then show ?thesis
    by (auto simp: argParser_scanned split: option.splits)
qed (auto simp: argParser_flag_error)

lemma argParser_stops: "argParser argv = Inl e \<Longrightarrow> e = ExitWith 1"
  by (auto simp: argParser_def Let_def andThen_eq_Inl_conv createCommandStruct_def
      split: if_splits option.splits dest: getPathArg_Inl)

text \<open>
  C29. The whole parser against the usage table: it returns a command exactly if no flag is
  malformed and the table has paths for the command; the paths get the prefix \<open>data/\<close> and a
  missing address is the default one. It never returns \<open>NULL\<close>.
\<close>

theorem argParser_returns:
  "argParser argv = Inr r \<longleftrightarrow>
   (\<exists>ip l m lp rp.
      getPathArg argv SERVER_FLAG = Inr ip \<and> getPathArg argv LOCAL_FLAG = Inr l \<and>
      getPathArg argv REMOTE_FLAG = Inr m \<and>
      usage_paths (getCommandType argv) l m = Some (lp, rp) \<and>
      r = Some \<lparr>c_type = getCommandType argv,
                server_ip = (case ip of None \<Rightarrow> DEFAULT_IP | Some a \<Rightarrow> a),
                local_path = ''data/'' @ lp, cmd_remote_path = ''data/'' @ rp\<rparr>)"
  by (rule argParser_Inr_iff)

text \<open>
  The parser is total and safe: on every command line it either leaves the program with
  \<open>exit(1)\<close> or returns a command of a known type whose two paths lie behind \<open>data/\<close>; it
  never returns \<open>NULL\<close> and never stops on undefined behaviour.
\<close>

theorem argParser_total:
  "argParser argv \<in>
     {Inl (ExitWith 1)} \<union>
     {Inr (Some cmd) | cmd. c_type cmd \<noteq> UNKNOWN \<and> prefix ''data/'' (local_path cmd) \<and>
                             prefix ''data/'' (cmd_remote_path cmd)}"
proof (cases "argParser argv")
  case (Inl e)
  then show ?thesis by (auto dest: argParser_stops)
next
  case (Inr r)
  then obtain l m lp rp ip where
      u: "usage_paths (getCommandType argv) l m = Some (lp, rp)" and
      r: "r = Some \<lparr>c_type = getCommandType argv, server_ip = ip,
                    local_path = ''data/'' @ lp, cmd_remote_path = ''data/'' @ rp\<rparr>"
    unfolding argParser_Inr_iff by blast
  from u have "getCommandType argv \<noteq> UNKNOWN" by auto
  with Inr r show ?thesis by (auto simp: prefix_def)
qed

end
