(* ===== verification/File_System.thy ===== *)
theory File_System
  imports C_Strings "HOL-Library.AList"
begin

text \<open>
  The part of POSIX that the code uses on files: \<open>fopen\<close>, \<open>fread\<close>, \<open>fwrite\<close>,
  \<open>fseek\<close>/\<open>ftell\<close>, \<open>mkdir\<close>, \<open>opendir\<close>/\<open>readdir\<close> and \<open>remove\<close>, over a
  tree of directories and regular files. The tree is a finite table from absolute paths (lists of
  names) to nodes; links, devices and hard links are left out, as are limits on the length of
  names. \<open>readonly\<close> holds the entries that the process may not create, write or remove,
  \<open>space\<close> the number of bytes that it may still write before the disk or its quota is full,
  \<open>dir_end\<close> the position that \<open>ftell\<close> reports at the end of a directory (POSIX leaves it
  open).
\<close>

section \<open>Paths\<close>

type_synonym bytes = "char list"
type_synonym key = "string list"

fun split_slash :: "string \<Rightarrow> string list" where
  "split_slash [] = [[]]"
| "split_slash (c # cs) =
     (if c = CHR ''/'' then [] # split_slash cs
      else (case split_slash cs of [] \<Rightarrow> [[c]] | w # ws \<Rightarrow> (c # w) # ws))"

fun join :: "string list \<Rightarrow> string" where
  "join [] = []"
| "join [c] = c"
| "join (c # d # ds) = c @ CHR ''/'' # join (d # ds)"

definition plain :: "string \<Rightarrow> bool" where
  \<comment> \<open>a file name that names an entry of a directory\<close>
  "plain c \<longleftrightarrow> c \<noteq> [] \<and> CHR ''/'' \<notin> set c \<and> NUL \<notin> set c \<and> c \<noteq> ''.'' \<and> c \<noteq> ''..''"

lemma plainD:
  assumes "plain c"
  shows "c \<noteq> []" "CHR ''/'' \<notin> set c" "NUL \<notin> set c" "c \<noteq> ''.''" "c \<noteq> ''..''"
  using assms by (simp_all add: plain_def)

lemma split_slash_nonempty [simp]: "split_slash s \<noteq> []"
  by (induction s) (auto split: list.splits)

lemma split_slash_word: "CHR ''/'' \<notin> set w \<Longrightarrow> split_slash w = [w]"
  by (induction w) auto

lemma split_slash_append:
  "CHR ''/'' \<notin> set w \<Longrightarrow> split_slash (w @ CHR ''/'' # s) = w # split_slash s"
  by (induction w) auto

lemma split_slash_join:
  "\<forall>c \<in> set cs. CHR ''/'' \<notin> set c \<Longrightarrow> cs \<noteq> [] \<Longrightarrow> split_slash (join cs) = cs"
  by (induction cs rule: join.induct) (simp_all add: split_slash_word split_slash_append)

lemma join_snoc: "cs \<noteq> [] \<Longrightarrow> join (cs @ [c]) = join cs @ CHR ''/'' # c"
  by (induction cs rule: join.induct) simp_all

lemma join_append:
  "cs \<noteq> [] \<Longrightarrow> ds \<noteq> [] \<Longrightarrow> join (cs @ ds) = join cs @ CHR ''/'' # join ds"
proof (induction cs rule: join.induct)
  case (2 c)
  then show ?case by (cases ds) simp_all
qed simp_all

lemma join_eq_Nil: "cs \<noteq> [] \<Longrightarrow> \<forall>c \<in> set cs. c \<noteq> [] \<Longrightarrow> join cs \<noteq> []"
  by (cases cs rule: join.cases) simp_all

lemma hd_join:
  "cs \<noteq> [] \<Longrightarrow> \<forall>c \<in> set cs. plain c \<Longrightarrow> hd (join cs) \<noteq> CHR ''/''"
proof -
  assume "cs \<noteq> []" and pl: "\<forall>c \<in> set cs. plain c"
  then obtain c ds where cs: "cs = c # ds" by (cases cs) auto
  with pl have c: "c \<noteq> []" "CHR ''/'' \<notin> set c" by (simp_all add: plain_def)
  then have "hd (join cs) = hd c" by (cases ds) (simp_all add: cs)
  with c show ?thesis by (metis hd_in_set)
qed

lemma cstr_join: "\<forall>c \<in> set cs. plain c \<Longrightarrow> cstr (join cs)"
  by (induction cs rule: join.induct) (auto simp: cstr_def plain_def)

section \<open>The state\<close>

datatype node = File bytes | Dir

record filesys =
  nodes :: "(key \<times> node) list"
  cwd :: key
  readonly :: "key list"
  space :: nat
  dir_end :: int

definition node_at :: "filesys \<Rightarrow> key \<Rightarrow> node option" where
  "node_at fs k = map_of (nodes fs) k"

definition put_node :: "key \<Rightarrow> node \<Rightarrow> filesys \<Rightarrow> filesys" where
  "put_node k n fs = fs\<lparr>nodes := AList.update k n (nodes fs)\<rparr>"

definition drop_node :: "key \<Rightarrow> filesys \<Rightarrow> filesys" where
  "drop_node k fs = fs\<lparr>nodes := AList.delete k (nodes fs)\<rparr>"

lemma node_at_put [simp, fs_simps]:
  "node_at (put_node k n fs) k' = (if k' = k then Some n else node_at fs k')"
  by (simp add: node_at_def put_node_def update_conv)

lemma node_at_drop [simp, fs_simps]:
  "node_at (drop_node k fs) k' = (if k' = k then None else node_at fs k')"
  by (simp add: node_at_def drop_node_def delete_conv)

lemma put_drop_fields [simp, fs_simps]:
  "cwd (put_node k n fs) = cwd fs" "readonly (put_node k n fs) = readonly fs"
  "space (put_node k n fs) = space fs" "dir_end (put_node k n fs) = dir_end fs"
  "cwd (drop_node k fs) = cwd fs" "readonly (drop_node k fs) = readonly fs"
  "space (drop_node k fs) = space fs" "dir_end (drop_node k fs) = dir_end fs"
  by (simp_all add: put_node_def drop_node_def)

lemma node_at_updates [simp, fs_simps]:
  "node_at (fs\<lparr>space := q\<rparr>) k = node_at fs k"
  by (simp add: node_at_def)

fun walk :: "filesys \<Rightarrow> key \<Rightarrow> string list \<Rightarrow> key option" where
  \<comment> \<open>path resolution: every name but the last is looked up in an existing directory\<close>
  "walk fs cur [] = Some cur"
| "walk fs cur (c # cs) =
     (if node_at fs cur \<noteq> Some Dir then None
      else if c = '''' \<or> c = ''.'' then walk fs cur cs
      else if c = ''..'' then walk fs (butlast cur) cs
      else walk fs (cur @ [c]) cs)"

definition resolve :: "filesys \<Rightarrow> string \<Rightarrow> key option" where
  "resolve fs path =
     (if path = '''' then None
      else walk fs (if hd path = CHR ''/'' then [] else cwd fs) (split_slash path))"

definition children :: "filesys \<Rightarrow> key \<Rightarrow> (string \<times> node) list" where
  "children fs d =
     map (\<lambda>(k, n). (last k, n)) (filter (\<lambda>(k, n). k \<noteq> [] \<and> butlast k = d) (nodes fs))"

section \<open>Streams for reading\<close>

text \<open>
  A \<open>FILE*\<close> opened with mode \<open>rb\<close>. \<open>fopen\<close> opens a directory as well; reading from it
  fails without reaching the end of file.
\<close>

record rstream =
  rs_data :: "bytes option"
  rs_pos :: nat
  rs_eof :: bool

definition fopen_rb :: "filesys \<Rightarrow> string \<Rightarrow> rstream option" where
  "fopen_rb fs path =
     (case resolve fs path of
        None \<Rightarrow> None
      | Some k \<Rightarrow>
          (case node_at fs k of
             None \<Rightarrow> None
           | Some (File c) \<Rightarrow> Some \<lparr>rs_data = Some c, rs_pos = 0, rs_eof = False\<rparr>
           | Some Dir \<Rightarrow> Some \<lparr>rs_data = None, rs_pos = 0, rs_eof = False\<rparr>))"

definition fread :: "nat \<Rightarrow> rstream \<Rightarrow> bytes \<times> rstream" where
  "fread n s =
     (case rs_data s of
        None \<Rightarrow> ([], s)
      | Some c \<Rightarrow>
          (let chunk = take n (drop (rs_pos s) c)
           in (chunk, s\<lparr>rs_pos := rs_pos s + length chunk,
                        rs_eof := (rs_eof s \<or> length chunk < n)\<rparr>)))"

definition seek_end_tell :: "filesys \<Rightarrow> rstream \<Rightarrow> int" where
  \<comment> \<open>\<open>fseek(f, 0, SEEK_END)\<close>, then \<open>ftell(f)\<close>\<close>
  "seek_end_tell fs s = (case rs_data s of None \<Rightarrow> dir_end fs | Some c \<Rightarrow> int (length c))"

section \<open>Changing the tree\<close>

datatype errno = ENOENT | EEXIST | EACCES | ENOTEMPTY

definition fopen_wb :: "filesys \<Rightarrow> string \<Rightarrow> (key \<times> filesys) option" where
  "fopen_wb fs path =
     (case resolve fs path of
        None \<Rightarrow> None
      | Some k \<Rightarrow>
          if k = [] \<or> k \<in> set (readonly fs) \<or> node_at fs k = Some Dir
             \<or> node_at fs (butlast k) \<noteq> Some Dir then None
          else Some (k, put_node k (File []) fs))"

definition fwrite :: "key \<Rightarrow> bytes \<Rightarrow> filesys \<Rightarrow> nat \<times> filesys" where
  \<comment> \<open>appends at the end of the file, as far as there is space\<close>
  "fwrite k bs fs =
     (case node_at fs k of
        Some (File c) \<Rightarrow>
          (let n = min (length bs) (space fs)
           in (n, (put_node k (File (c @ take n bs)) fs)\<lparr>space := space fs - n\<rparr>))
      | _ \<Rightarrow> (0, fs))"

definition mkdir :: "string \<Rightarrow> filesys \<Rightarrow> errno + filesys" where
  "mkdir path fs =
     (case resolve fs path of
        None \<Rightarrow> Inl ENOENT
      | Some k \<Rightarrow>
          if node_at fs k \<noteq> None then Inl EEXIST
          else if k = [] \<or> node_at fs (butlast k) \<noteq> Some Dir then Inl ENOENT
          else if k \<in> set (readonly fs) then Inl EACCES
          else Inr (put_node k Dir fs))"

definition opendir :: "filesys \<Rightarrow> string \<Rightarrow> key option" where
  "opendir fs path =
     (case resolve fs path of
        None \<Rightarrow> None
      | Some k \<Rightarrow> if node_at fs k = Some Dir then Some k else None)"

definition dir_entries :: "filesys \<Rightarrow> key \<Rightarrow> (string \<times> node) list" where
  \<comment> \<open>what the calls of \<open>readdir\<close> return, one after the other\<close>
  "dir_entries fs d = (''.'', Dir) # (''..'', Dir) # children fs d"

definition remove :: "string \<Rightarrow> filesys \<Rightarrow> errno + filesys" where
  \<comment> \<open>\<open>unlink\<close> for a file, \<open>rmdir\<close> for a directory\<close>
  "remove path fs =
     (case resolve fs path of
        None \<Rightarrow> Inl ENOENT
      | Some k \<Rightarrow>
          (case node_at fs k of
             None \<Rightarrow> Inl ENOENT
           | Some n \<Rightarrow>
               if k = [] \<or> k = cwd fs \<or> k \<in> set (readonly fs) then Inl EACCES
               else if n = Dir \<and> children fs k \<noteq> [] then Inl ENOTEMPTY
               else Inr (drop_node k fs)))"

section \<open>Well-formed trees\<close>

definition wf_fs :: "filesys \<Rightarrow> bool" where
  "wf_fs fs \<longleftrightarrow>
     distinct (map fst (nodes fs)) \<and> node_at fs [] = Some Dir \<and> node_at fs (cwd fs) = Some Dir \<and>
     (\<forall>k \<in> fst ` set (nodes fs). k \<noteq> [] \<longrightarrow> node_at fs (butlast k) = Some Dir \<and> plain (last k))"

lemma node_at_in_nodes: "node_at fs k = Some n \<Longrightarrow> k \<in> fst ` set (nodes fs)"
  unfolding node_at_def by (force dest: map_of_SomeD)

lemma in_nodes_node_at: "k \<in> fst ` set (nodes fs) \<Longrightarrow> node_at fs k \<noteq> None"
  by (simp add: node_at_def map_of_eq_None_iff)

lemma wf_fs_parent:
  assumes "wf_fs fs" and "node_at fs k = Some n" and "k \<noteq> []"
  shows "node_at fs (butlast k) = Some Dir" and "plain (last k)"
  using assms by (auto simp: wf_fs_def dest: node_at_in_nodes)

lemma wf_fs_distinct: "wf_fs fs \<Longrightarrow> distinct (map fst (nodes fs))"
  by (simp only: wf_fs_def)

lemma wf_fsI:
  assumes "distinct (map fst (nodes fs))" and "node_at fs [] = Some Dir"
    and "node_at fs (cwd fs) = Some Dir"
    and "\<And>k. k \<in> fst ` set (nodes fs) \<Longrightarrow> k \<noteq> [] \<Longrightarrow>
           node_at fs (butlast k) = Some Dir \<and> plain (last k)"
  shows "wf_fs fs"
  unfolding wf_fs_def using assms by blast

lemma wf_fs_root [simp]: "wf_fs fs \<Longrightarrow> node_at fs [] = Some Dir"
  and wf_fs_cwd [simp]: "wf_fs fs \<Longrightarrow> node_at fs (cwd fs) = Some Dir"
  by (simp_all add: wf_fs_def)

lemma wf_fs_prefix_dir:
  assumes wf: "wf_fs fs" and k: "node_at fs (k @ ds) = Some n" and ne: "ds \<noteq> []"
  shows "node_at fs k = Some Dir"
  using k ne
proof (induction ds arbitrary: n rule: rev_induct)
  case Nil
  then show ?case by simp
next
  case (snoc d ds)
  then have "node_at fs (k @ ds) = Some Dir"
    using wf_fs_parent(1) [OF wf snoc.prems(1)] by (simp add: butlast_append)
  with snoc.IH show ?case by (cases "ds = []") auto
qed

lemma fst_set_update: "fst ` set (AList.update k v al) = insert k (fst ` set al)"
  by (induction al) auto

lemma nodes_put: "fst ` set (nodes (put_node k n fs)) = insert k (fst ` set (nodes fs))"
  by (simp add: put_node_def fst_set_update)

lemma wf_fs_put:
  assumes wf: "wf_fs fs" and par: "k \<noteq> []" "node_at fs (butlast k) = Some Dir" "plain (last k)"
    and keep: "node_at fs k = Some Dir \<Longrightarrow> n = Dir"
  shows "wf_fs (put_node k n fs)"
proof -
  have dir: "node_at (put_node k n fs) d = Some Dir" if "node_at fs d = Some Dir" for d
    using that keep by (cases "d = k") simp_all
  have "distinct (map fst (nodes (put_node k n fs)))"
    using wf_fs_distinct [OF wf] by (simp add: put_node_def distinct_update)
  moreover have "node_at (put_node k n fs) (butlast k') = Some Dir \<and> plain (last k')"
    if "k' \<in> fst ` set (nodes (put_node k n fs))" "k' \<noteq> []" for k'
  proof -
    from that(1) have "k' = k \<or> k' \<in> fst ` set (nodes fs)" unfolding nodes_put by blast
    then have "node_at fs (butlast k') = Some Dir \<and> plain (last k')"
      using wf par that(2) unfolding wf_fs_def by blast
    then show ?thesis using dir by blast
  qed
  moreover have "node_at (put_node k n fs) [] = Some Dir"
    using wf by (intro dir) simp
  moreover have "node_at (put_node k n fs) (cwd fs) = Some Dir"
    using wf by (intro dir) simp
  ultimately show ?thesis
    by (intro wf_fsI) (simp_all only: put_drop_fields)
qed

lemma children_empty_no_child:
  "children fs d = [] \<longleftrightarrow> (\<forall>k \<in> fst ` set (nodes fs). k \<noteq> [] \<longrightarrow> butlast k \<noteq> d)"
  by (auto simp: children_def filter_empty_conv)

lemma wf_fs_drop:
  assumes wf: "wf_fs fs" and "k \<noteq> []" "k \<noteq> cwd fs"
    and leaf: "node_at fs k \<noteq> Some Dir \<or> children fs k = []"
  shows "wf_fs (drop_node k fs)"
proof -
  have nodes: "fst ` set (nodes (drop_node k fs)) \<subseteq> fst ` set (nodes fs) - {k}"
    using dom_delete_subset [of k "nodes fs"] delete_notin_dom [of k "nodes fs"]
    by (auto simp: drop_node_def)
  have "node_at (drop_node k fs) (butlast k') = Some Dir \<and> plain (last k')"
    if k': "k' \<in> fst ` set (nodes (drop_node k fs))" "k' \<noteq> []" for k'
  proof -
    from k' nodes have in_fs: "k' \<in> fst ` set (nodes fs)" by auto
    with wf k'(2) have p: "node_at fs (butlast k') = Some Dir" "plain (last k')"
      unfolding wf_fs_def by blast+
    have "butlast k' \<noteq> k"
      using leaf p in_fs k'(2) by (auto simp: children_empty_no_child)
    with p show ?thesis by simp
  qed
  moreover have "distinct (map fst (nodes (drop_node k fs)))"
    using wf_fs_distinct [OF wf] by (simp add: drop_node_def distinct_delete)
  moreover have "node_at (drop_node k fs) [] = Some Dir"
    using assms by simp
  moreover have "node_at (drop_node k fs) (cwd fs) = Some Dir"
    using assms by simp
  ultimately show ?thesis
    by (intro wf_fsI) (simp_all only: put_drop_fields)
qed

lemma set_children:
  assumes "wf_fs fs"
  shows "(e, n) \<in> set (children fs d) \<longleftrightarrow> node_at fs (d @ [e]) = Some n"
proof -
  note dist = wf_fs_distinct [OF assms]
  have "(e, n) \<in> set (children fs d) \<longleftrightarrow> (\<exists>k. (k, n) \<in> set (nodes fs) \<and> k \<noteq> [] \<and> butlast k = d \<and> last k = e)"
    by (force simp: children_def)
  also have "\<dots> \<longleftrightarrow> (d @ [e], n) \<in> set (nodes fs)"
  proof
    assume "\<exists>k. (k, n) \<in> set (nodes fs) \<and> k \<noteq> [] \<and> butlast k = d \<and> last k = e"
    then obtain k where k: "(k, n) \<in> set (nodes fs)" "k \<noteq> []" "butlast k = d" "last k = e"
      by blast
    then have "k = d @ [e]" using append_butlast_last_id [of k] by simp
    with k(1) show "(d @ [e], n) \<in> set (nodes fs)" by simp
  next
    assume "(d @ [e], n) \<in> set (nodes fs)"
    then show "\<exists>k. (k, n) \<in> set (nodes fs) \<and> k \<noteq> [] \<and> butlast k = d \<and> last k = e"
      by (intro exI [of _ "d @ [e]"]) simp
  qed
  also have "\<dots> \<longleftrightarrow> node_at fs (d @ [e]) = Some n"
    using dist by (simp add: node_at_def)
  finally show ?thesis .
qed

section \<open>The tree as a keyed store\<close>

text \<open>
  What the users of the tree rely on when they create or remove several entries in a row.
\<close>

locale keyed_store =
  fixes get :: "'s \<Rightarrow> 'k \<Rightarrow> 'v option"
    and put :: "'k \<Rightarrow> 'v \<Rightarrow> 's \<Rightarrow> 's"
    and del :: "'k \<Rightarrow> 's \<Rightarrow> 's"
  assumes get_put: "get (put k v s) k' = (if k' = k then Some v else get s k')"
    and get_del: "get (del k s) k' = (if k' = k then None else get s k')"
begin

lemma get_fold_put:
  "get (fold (\<lambda>k. put k v) ks s) k' = (if k' \<in> set ks then Some v else get s k')"
  by (induction ks arbitrary: s) (auto simp: get_put)

lemma get_fold_del:
  "get (fold del ks s) k' = (if k' \<in> set ks then None else get s k')"
  by (induction ks arbitrary: s) (auto simp: get_del)

lemma get_put_put: "get (put k v (put k w s)) k' = get (put k v s) k'"
  by (simp add: get_put)

lemma get_put_commute: "k \<noteq> l \<Longrightarrow> get (put k v (put l w s)) k' = get (put l w (put k v s)) k'"
  by (simp add: get_put)

lemma get_del_put: "get (del k (put k v s)) k' = get (del k s) k'"
  by (simp add: get_put get_del)

end

interpretation tree: keyed_store node_at put_node drop_node
  by unfold_locales simp_all

lemma fold_put_fields [simp, fs_simps]:
  "cwd (fold (\<lambda>k. put_node k n) ks fs) = cwd fs"
  "readonly (fold (\<lambda>k. put_node k n) ks fs) = readonly fs"
  "space (fold (\<lambda>k. put_node k n) ks fs) = space fs"
  "dir_end (fold (\<lambda>k. put_node k n) ks fs) = dir_end fs"
  by (induction ks arbitrary: fs) simp_all

lemma fold_drop_fields [simp, fs_simps]:
  "cwd (fold drop_node ks fs) = cwd fs"
  "readonly (fold drop_node ks fs) = readonly fs"
  "space (fold drop_node ks fs) = space fs"
  "dir_end (fold drop_node ks fs) = dir_end fs"
  by (induction ks arbitrary: fs) simp_all

section \<open>Resolving relative paths\<close>

text \<open>
  A relative path of proper names resolves to the entry below the working directory if all
  its directories exist; in a well-formed tree that is to say that the last of them exists.
\<close>

lemma walk_plain:
  assumes "\<forall>c \<in> set cs. plain c"
  shows "walk fs cur cs =
    (if \<forall>i < length cs. node_at fs (cur @ take i cs) = Some Dir then Some (cur @ cs) else None)"
  using assms
proof (induction cs arbitrary: cur)
  case Nil
  then show ?case by simp
next
  case (Cons c cs)
  have all: "(\<forall>i < length (c # cs). node_at fs (cur @ take i (c # cs)) = Some Dir) \<longleftrightarrow>
      node_at fs cur = Some Dir \<and> (\<forall>i < length cs. node_at fs ((cur @ [c]) @ take i cs) = Some Dir)"
    by (auto simp: less_Suc_eq_0_disj)
  from Cons.prems have "c \<noteq> []" "c \<noteq> ''.''" "c \<noteq> ''..''" by (simp_all add: plain_def)
  with Cons show ?case unfolding all by simp
qed

lemma walk_append:
  "walk fs cur (cs @ ds) = (case walk fs cur cs of None \<Rightarrow> None | Some k \<Rightarrow> walk fs k ds)"
  by (induction fs cur cs rule: walk.induct) simp_all

lemma dirs_above:
  assumes "wf_fs fs" and "cs \<noteq> []"
  shows "(\<forall>i < length cs. node_at fs (cur @ take i cs) = Some Dir) \<longleftrightarrow>
         node_at fs (cur @ butlast cs) = Some Dir"
proof
  assume "\<forall>i < length cs. node_at fs (cur @ take i cs) = Some Dir"
  then have "node_at fs (cur @ take (length cs - 1) cs) = Some Dir"
    using assms(2) by (cases cs) simp_all
  then show "node_at fs (cur @ butlast cs) = Some Dir"
    by (simp add: butlast_conv_take)
next
  assume dir: "node_at fs (cur @ butlast cs) = Some Dir"
  show "\<forall>i < length cs. node_at fs (cur @ take i cs) = Some Dir"
  proof (intro allI impI)
    fix i assume "i < length cs"
    then have split: "butlast cs = take i cs @ drop i (butlast cs)"
      by (metis append_take_drop_id take_butlast)
    show "node_at fs (cur @ take i cs) = Some Dir"
    proof (cases "drop i (butlast cs) = []")
      case True
      then have "butlast cs = take i cs" using split by simp
      then show ?thesis using dir by simp
    next
      case False
      moreover have "node_at fs ((cur @ take i cs) @ drop i (butlast cs)) = Some Dir"
        using dir split by (metis append.assoc)
      ultimately show ?thesis
        by (rule wf_fs_prefix_dir [OF assms(1), rotated])
    qed
  qed
qed

definition rel_path :: "string list \<Rightarrow> bool" where
  \<comment> \<open>the names of a relative path that stays below the working directory\<close>
  "rel_path cs \<longleftrightarrow> cs \<noteq> [] \<and> (\<forall>c \<in> set cs. plain c)"

lemma rel_pathD: "rel_path cs \<Longrightarrow> cs \<noteq> []" "rel_path cs \<Longrightarrow> c \<in> set cs \<Longrightarrow> plain c"
  by (simp_all add: rel_path_def)

lemma rel_path_join_nonempty: "rel_path cs \<Longrightarrow> join cs \<noteq> []"
  unfolding rel_path_def by (intro join_eq_Nil) (auto simp: plain_def)

lemma resolve_join:
  assumes "wf_fs fs" and "rel_path cs"
  shows "resolve fs (join cs) =
    (if node_at fs (cwd fs @ butlast cs) = Some Dir then Some (cwd fs @ cs) else None)"
proof -
  from assms(2) have ne: "cs \<noteq> []" and pl: "\<forall>c \<in> set cs. plain c"
    by (simp_all add: rel_path_def)
  have "split_slash (join cs) = cs"
    using pl ne by (intro split_slash_join) (auto simp: plain_def)
  moreover have "hd (join cs) \<noteq> CHR ''/''"
    using ne pl by (rule hd_join)
  ultimately show ?thesis
    using rel_path_join_nonempty [OF assms(2)]
    by (simp add: resolve_def walk_plain [OF pl] dirs_above [OF assms(1) ne])
qed

section \<open>The operations on relative paths\<close>

lemma rel_key_parent:
  "rel_path cs \<Longrightarrow> butlast (cwd fs @ cs) = cwd fs @ butlast cs \<and> cwd fs @ cs \<noteq> []
     \<and> last (cwd fs @ cs) = last cs \<and> plain (last cs)"
  by (simp add: rel_path_def butlast_append)

lemma rel_node_parent:
  assumes "wf_fs fs" and "rel_path cs" and "node_at fs (cwd fs @ cs) = Some n"
  shows "node_at fs (cwd fs @ butlast cs) = Some Dir"
  using wf_fs_parent(1) [OF assms(1,3)] rel_key_parent [OF assms(2), of fs] by simp

lemma fopen_rb_join:
  assumes "wf_fs fs" and "rel_path cs"
  shows "fopen_rb fs (join cs) =
    (case node_at fs (cwd fs @ cs) of
       None \<Rightarrow> None
     | Some (File c) \<Rightarrow> Some \<lparr>rs_data = Some c, rs_pos = 0, rs_eof = False\<rparr>
     | Some Dir \<Rightarrow> Some \<lparr>rs_data = None, rs_pos = 0, rs_eof = False\<rparr>)"
  using rel_node_parent [OF assms]
  by (auto simp: fopen_rb_def resolve_join [OF assms] split: option.splits node.splits)

lemma opendir_join:
  assumes "wf_fs fs" and "rel_path cs"
  shows "opendir fs (join cs) =
    (if node_at fs (cwd fs @ cs) = Some Dir then Some (cwd fs @ cs) else None)"
  using rel_node_parent [OF assms] by (auto simp: opendir_def resolve_join [OF assms])

lemma fopen_wb_join:
  assumes "wf_fs fs" and "rel_path cs"
  shows "fopen_wb fs (join cs) =
    (if cwd fs @ cs \<in> set (readonly fs) \<or> node_at fs (cwd fs @ cs) = Some Dir
        \<or> node_at fs (cwd fs @ butlast cs) \<noteq> Some Dir then None
     else Some (cwd fs @ cs, put_node (cwd fs @ cs) (File []) fs))"
  using rel_key_parent [OF assms(2), of fs]
  by (auto simp: fopen_wb_def resolve_join [OF assms])

lemma mkdir_join:
  assumes "wf_fs fs" and "rel_path cs"
  shows "mkdir (join cs) fs =
    (if node_at fs (cwd fs @ butlast cs) \<noteq> Some Dir then Inl ENOENT
     else if node_at fs (cwd fs @ cs) \<noteq> None then Inl EEXIST
     else if cwd fs @ cs \<in> set (readonly fs) then Inl EACCES
     else Inr (put_node (cwd fs @ cs) Dir fs))"
  using rel_key_parent [OF assms(2), of fs]
  by (auto simp: mkdir_def resolve_join [OF assms])

lemma remove_join:
  assumes "wf_fs fs" and "rel_path cs"
  shows "remove (join cs) fs =
    (case node_at fs (cwd fs @ cs) of
       None \<Rightarrow> Inl ENOENT
     | Some n \<Rightarrow>
         if cwd fs @ cs \<in> set (readonly fs) then Inl EACCES
         else if n = Dir \<and> children fs (cwd fs @ cs) \<noteq> [] then Inl ENOTEMPTY
         else Inr (drop_node (cwd fs @ cs) fs))"
  using rel_key_parent [OF assms(2), of fs] rel_node_parent [OF assms] assms(2)
  by (auto simp: remove_def resolve_join [OF assms] rel_path_def split: option.splits)

section \<open>The operations keep the tree well-formed\<close>

lemma walk_dir_or_plain:
  "walk fs cur cs = Some k \<Longrightarrow> (cur = [] \<or> plain (last cur)) \<Longrightarrow> \<forall>c \<in> set cs. CHR ''/'' \<notin> set c \<Longrightarrow>
   \<forall>c \<in> set cs. NUL \<notin> set c \<Longrightarrow> wf_fs fs \<Longrightarrow> k = [] \<or> plain (last k)"
proof (induction fs cur cs rule: walk.induct)
  case (1 fs cur)
  then show ?case by simp
next
  case (2 fs cur c cs)
  from "2.prems"(1) have dir: "node_at fs cur = Some Dir" by (auto split: if_splits)
  have up: "butlast cur = [] \<or> plain (last (butlast cur))"
  proof (cases "cur = [] \<or> butlast cur = []")
    case False
    with dir wf_fs_parent [OF \<open>wf_fs fs\<close>] show ?thesis by blast
  qed auto
  consider "c = '''' \<or> c = ''.''" | "c = ''..''" | "plain c"
    using "2.prems"(3,4) by (auto simp: plain_def)
  then show ?case
  proof cases
    case 3
    with "2.IH"(3) "2.prems" dir show ?thesis
      by (auto simp: plain_def split: if_splits)
  qed (use "2.IH" "2.prems" dir up in \<open>auto split: if_splits\<close>)
qed

lemma split_slash_chars: "c \<in> set (split_slash s) \<Longrightarrow> CHR ''/'' \<notin> set c \<and> set c \<subseteq> set s"
proof (induction s arbitrary: c)
  case (Cons x s)
  obtain w ws where w: "split_slash s = w # ws" by (cases "split_slash s") auto
  with Cons.IH [of w] have "CHR ''/'' \<notin> set w \<and> set w \<subseteq> set s" by simp
  moreover from Cons.IH w have "c \<in> set ws \<Longrightarrow> CHR ''/'' \<notin> set c \<and> set c \<subseteq> set s" by simp
  ultimately show ?case using Cons.prems w by (auto split: if_splits)
qed simp

lemma resolve_plain:
  assumes "resolve fs path = Some k" and "cstr path" and "wf_fs fs"
  shows "k = [] \<or> plain (last k)"
proof -
  let ?cur = "if hd path = CHR ''/'' then [] else cwd fs"
  from assms(1) have "walk fs ?cur (split_slash path) = Some k"
    by (simp add: resolve_def split: if_splits)
  moreover have "?cur = [] \<or> plain (last ?cur)"
    using wf_fs_parent(2) [OF assms(3) wf_fs_cwd [OF assms(3)]] by auto
  moreover have "\<forall>c \<in> set (split_slash path). CHR ''/'' \<notin> set c"
    by (auto dest: split_slash_chars)
  moreover have "\<forall>c \<in> set (split_slash path). NUL \<notin> set c"
    using assms(2) by (auto simp: cstr_def dest: split_slash_chars)
  ultimately show ?thesis using assms(3) by (rule walk_dir_or_plain)
qed

lemma wf_fs_cong: "nodes fs' = nodes fs \<Longrightarrow> cwd fs' = cwd fs \<Longrightarrow> wf_fs fs' = wf_fs fs"
  unfolding wf_fs_def node_at_def by (simp only:)

lemma wf_fs_space [simp]: "wf_fs (fs\<lparr>space := q\<rparr>) = wf_fs fs"
  by (rule wf_fs_cong) simp_all

lemma wf_fopen_wb:
  assumes "fopen_wb fs path = Some (k, fs')" and "cstr path" and wf: "wf_fs fs"
  shows "wf_fs fs'"
proof -
  from assms(1) have r: "resolve fs path = Some k" and fs': "fs' = put_node k (File []) fs"
    and k: "k \<noteq> []" "node_at fs k \<noteq> Some Dir" "node_at fs (butlast k) = Some Dir"
    by (auto simp: fopen_wb_def split: option.splits if_splits)
  have "plain (last k)" using resolve_plain [OF r assms(2) wf] k(1) by simp
  with k show ?thesis unfolding fs' by (intro wf_fs_put [OF wf]) simp_all
qed

lemma wf_fwrite: "fwrite k bs fs = (n, fs') \<Longrightarrow> wf_fs fs \<Longrightarrow> wf_fs fs'"
proof -
  assume w: "fwrite k bs fs = (n, fs')" and wf: "wf_fs fs"
  show "wf_fs fs'"
  proof (cases "node_at fs k")
    case None
    with w wf show ?thesis by (simp add: fwrite_def)
  next
    case (Some x)
    show ?thesis
    proof (cases x)
      case (File c)
      with Some have c: "node_at fs k = Some (File c)" by simp
      with wf have "k \<noteq> []" by (metis node.distinct(1) option.inject wf_fs_root)
      with wf_fs_parent [OF wf c] c have "wf_fs (put_node k (File d) fs)" for d
        by (intro wf_fs_put [OF wf]) simp_all
      with w c show ?thesis by (auto simp: fwrite_def Let_def)
    next
      case Dir
      with Some w wf show ?thesis by (simp add: fwrite_def)
    qed
  qed
qed

lemma wf_mkdir:
  assumes "mkdir path fs = Inr fs'" and "cstr path" and wf: "wf_fs fs"
  shows "wf_fs fs'"
proof -
  from assms(1) obtain k where r: "resolve fs path = Some k" and fs': "fs' = put_node k Dir fs"
    and k: "k \<noteq> []" "node_at fs (butlast k) = Some Dir"
    by (auto simp: mkdir_def split: option.splits if_splits)
  have "plain (last k)" using resolve_plain [OF r assms(2) wf] k(1) by simp
  with k show ?thesis unfolding fs' by (intro wf_fs_put [OF wf]) simp_all
qed

lemma wf_remove: "remove path fs = Inr fs' \<Longrightarrow> wf_fs fs \<Longrightarrow> wf_fs fs'"
  by (auto simp: remove_def split: option.splits if_splits intro!: wf_fs_drop)

end
