(* ===== verification/Sockets.thy ===== *)
theory Sockets
  imports File_System
begin

text \<open>
  The part of the socket interface that the code uses on a connected TCP socket: blocking
  \<open>recv\<close>, blocking \<open>send\<close> and \<open>close\<close>. What the network does is part of the state.
  \<open>inbox\<close> is what arrives, in order: pieces of the byte stream as TCP hands them over (a
  \<open>recv\<close> never returns more than the current piece), the end of the stream when the peer
  closes, or an error. An exhausted \<open>inbox\<close> means that nothing arrives any more while the
  connection stays open. \<open>send_plan\<close> says for the coming calls of \<open>send\<close> how much the
  kernel takes (at least one byte, as a blocking \<open>send\<close> does) or that the call fails; when it
  is exhausted every \<open>send\<close> takes everything. \<open>outbox\<close> is all that was sent. The signal
  \<open>SIGPIPE\<close> is not modelled.
\<close>

datatype net_in = Arrive bytes | PeerClosed | RecvFails
datatype net_out = Accept nat | SendFails

record socket =
  inbox :: "net_in list"
  send_plan :: "net_out list"
  outbox :: bytes
  is_closed :: bool

fun recv_events :: "nat \<Rightarrow> net_in list \<Rightarrow> stop + (int \<times> bytes \<times> net_in list)" where
  "recv_events n [] = Inl Blocked"
| "recv_events n (Arrive b # evs) =
     (if b = [] then recv_events n evs
      else Inr (int (length (take n b)), take n b,
                if drop n b = [] then evs else Arrive (drop n b) # evs))"
| "recv_events n (PeerClosed # evs) = Inr (0, [], PeerClosed # evs)"
| "recv_events n (RecvFails # evs) = Inr (- 1, [], evs)"

definition recv :: "nat \<Rightarrow> socket \<Rightarrow> stop + (int \<times> bytes \<times> socket)" where
  "recv n s =
     andThen (recv_events n (inbox s)) (\<lambda>(r, bs, evs). Inr (r, bs, s\<lparr>inbox := evs\<rparr>))"

definition send :: "bytes \<Rightarrow> socket \<Rightarrow> int \<times> socket" where
  "send d s =
     (case send_plan s of
        [] \<Rightarrow> (int (length d), s\<lparr>outbox := outbox s @ d\<rparr>)
      | Accept k # ps \<Rightarrow>
          (let m = min (max 1 k) (length d)
           in (int m, s\<lparr>outbox := outbox s @ take m d, send_plan := ps\<rparr>))
      | SendFails # ps \<Rightarrow> (- 1, s\<lparr>send_plan := ps\<rparr>))"

definition close_socket :: "socket \<Rightarrow> socket" where
  "close_socket s = s\<lparr>is_closed := True\<rparr>"

section \<open>What send and recv do\<close>

lemma send_outcome:
  assumes "send d s = (n, s')"
  shows "n < 0 \<and> outbox s' = outbox s \<or>
         0 \<le> n \<and> n \<le> int (length d) \<and> (d \<noteq> [] \<longrightarrow> 0 < n) \<and> outbox s' = outbox s @ take (nat n) d"
  using assms
  by (auto simp: send_def Let_def split: list.splits net_out.splits)

lemma send_inbox: "send d s = (n, s') \<Longrightarrow> inbox s' = inbox s \<and> is_closed s' = is_closed s"
  by (auto simp: send_def Let_def split: list.splits net_out.splits)

lemma send_progress: "send d s = (n, s') \<Longrightarrow> d \<noteq> [] \<Longrightarrow> 0 \<le> n \<Longrightarrow> 0 < nat n"
  using send_outcome by fastforce

definition sends_ok :: "socket \<Rightarrow> bool" where
  \<comment> \<open>no call of \<open>send\<close> is going to fail\<close>
  "sends_ok s \<longleftrightarrow> SendFails \<notin> set (send_plan s)"

lemma send_ok: "sends_ok s \<Longrightarrow> send d s = (n, s') \<Longrightarrow> 0 \<le> n \<and> sends_ok s'"
  by (auto simp: send_def sends_ok_def Let_def split: list.splits net_out.splits)

definition sends_whole :: "socket \<Rightarrow> bool" where
  \<comment> \<open>the kernel takes every \<open>send\<close> completely, so far as the plan goes\<close>
  "sends_whole s \<longleftrightarrow> send_plan s = []"

lemma sends_whole_ok: "sends_whole s \<Longrightarrow> sends_ok s"
  by (simp add: sends_whole_def sends_ok_def)

lemma send_whole:
  "sends_whole s \<Longrightarrow> send d s = (int (length d), s\<lparr>outbox := outbox s @ d\<rparr>)"
  by (simp add: send_def sends_whole_def)

lemma sends_whole_updates [simp]:
  "sends_whole (s\<lparr>outbox := b\<rparr>) = sends_whole s" "sends_whole (s\<lparr>inbox := i\<rparr>) = sends_whole s"
  "sends_whole (s\<lparr>is_closed := c\<rparr>) = sends_whole s"
  by (simp_all add: sends_whole_def)

text \<open>The bytes of a list of pieces, as they arrive.\<close>

lemma recv_events_Arrive:
  "b \<noteq> [] \<Longrightarrow> recv_events n (Arrive b # evs) =
    Inr (int (min n (length b)), take n b, if length b \<le> n then evs else Arrive (drop n b) # evs)"
  by (simp add: min.commute)

lemma recv_events_PeerClosed [simp]: "recv_events n (PeerClosed # evs) = Inr (0, [], PeerClosed # evs)"
  by simp

text \<open>
  \<open>next_recv evs\<close> describes the next \<open>recv\<close> on pieces of a stream: it skips empty pieces,
  returns a non-empty prefix of the stream and leaves pieces of the rest.
\<close>

lemma recv_pieces:
  assumes "concat cs \<noteq> []" and "0 < n"
  obtains b cs' where "recv_events n (map Arrive cs @ evs) = Inr (int (length b), b, map Arrive cs' @ evs)"
    and "b \<noteq> []" and "length b \<le> n" and "concat cs = b @ concat cs'"
proof -
  have "\<exists>b cs'. recv_events n (map Arrive cs @ evs) = Inr (int (length b), b, map Arrive cs' @ evs)
      \<and> b \<noteq> [] \<and> length b \<le> n \<and> concat cs = b @ concat cs'"
    using assms
  proof (induction cs)
    case (Cons c cs)
    show ?case
    proof (cases "c = []")
      case True
      with Cons show ?thesis by simp
    next
      case False
      show ?thesis
      proof (cases "length c \<le> n")
        case True
        with False show ?thesis by (intro exI [of _ c] exI [of _ cs]) simp
      next
        case len: False
        with False \<open>0 < n\<close> show ?thesis
          by (intro exI [of _ "take n c"] exI [of _ "drop n c # cs"]) auto
      qed
    qed
  qed simp
  with that show thesis by blast
qed

end
