(* ===== verification/Utils.thy ===== *)
theory Utils
  imports Sockets
begin

text \<open>
  \<open>utils.c\<close>: splitting paths, creating the directories above a file, copying files, and moving
  the contents of files over a socket. The state of a function is the file system and the
  socket that it works on. A loop whose end depends on the files or the network takes a number
  of iterations (fuel) as its first argument. \<open>equals\<close> is in theory \<open>C_Strings\<close>.
\<close>

definition MAX_BUFF_SIZE :: nat where "MAX_BUFF_SIZE = 2000"
definition MAX_PATH_LEN :: nat where "MAX_PATH_LEN = 260"
definition VERSION_SUBFOLDER :: string where "VERSION_SUBFOLDER = ''/.versions''"

record world =
  files :: filesys
  conn :: socket
  clock :: "int \<times> int"

section \<open>Splitting a path\<close>

text \<open>
  The second argument is the size of the array that the result is copied to, \<open>None\<close> for a
  null pointer. The result is \<open>None\<close> for \<open>false\<close> and otherwise what the array holds.
\<close>

definition extractDirectory :: "string option \<Rightarrow> nat option \<Rightarrow> stop + string option" where
  "extractDirectory path buffer =
     (case path of
        None \<Rightarrow> Inr None
      | Some p \<Rightarrow>
          if length p = 0 then Inr None
          else (case buffer of
             None \<Rightarrow> Inr None
           | Some cap \<Rightarrow>
               andThen (store_string cap p) (\<lambda>buf.
                 (case strrchr buf (CHR ''/'') of
                    Some lastSlash \<Rightarrow> Inr (Some (take lastSlash buf))
                  | None \<Rightarrow> Inr (Some '''')))))"

definition extractBasename :: "string option \<Rightarrow> nat option \<Rightarrow> stop + string option" where
  "extractBasename path buffer =
     (case path of
        None \<Rightarrow> Inr None
      | Some p \<Rightarrow>
          if length p = 0 then Inr None
          else (case buffer of
             None \<Rightarrow> Inr None
           | Some cap \<Rightarrow>
               (case strrchr p (CHR ''/'') of
                  Some lastSlash \<Rightarrow> andThen (store_string cap (drop (lastSlash + 1) p)) (\<lambda>b. Inr (Some b))
                | None \<Rightarrow> andThen (store_string cap p) (\<lambda>b. Inr (Some b)))))"

section \<open>Files\<close>

definition getFileSize :: "filesys \<Rightarrow> string \<Rightarrow> int" where
  "getFileSize fs file_path =
     (case fopen_rb fs file_path of None \<Rightarrow> - 1 | Some f \<Rightarrow> seek_end_tell fs f)"

fun copy_loop :: "nat \<Rightarrow> rstream \<Rightarrow> key \<Rightarrow> filesys \<Rightarrow> stop + filesys" where
  "copy_loop 0 source destination fs = Inl OutOfFuel"
| "copy_loop (Suc n) source destination fs =
     (let (buffer, source') = fread MAX_BUFF_SIZE source;
          (_, fs') = fwrite destination buffer fs
      in if rs_eof source' then Inr fs' else copy_loop n source' destination fs')"

definition copyFile ::
  "nat \<Rightarrow> rstream option \<Rightarrow> key option \<Rightarrow> filesys \<Rightarrow> stop + bool \<times> filesys" where
  "copyFile n source destination fs =
     (case (source, destination) of
        (Some s, Some d) \<Rightarrow> andThen (copy_loop n s d fs) (\<lambda>fs'. Inr (True, fs'))
      | _ \<Rightarrow> Inr (False, fs))"

function mkdirs_loop :: "(string \<times> string) option \<Rightarrow> string \<Rightarrow> filesys \<Rightarrow> stop + bool \<times> filesys" where
  "mkdirs_loop None curr_directory fs = Inr (True, fs)"
| "mkdirs_loop (Some (token, rest)) curr_directory fs =
     andThen (store_string MAX_PATH_LEN
               (if length curr_directory = 0 then token else curr_directory @ ''/'' @ token))
       (\<lambda>curr'.
          (case mkdir curr' fs of
             Inr fs' \<Rightarrow> mkdirs_loop (strtok (CHR ''/'') rest) curr' fs'
           | Inl errno \<Rightarrow>
               if errno \<noteq> EEXIST then Inr (False, fs)
               else mkdirs_loop (strtok (CHR ''/'') rest) curr' fs))"
  by pat_completeness auto
termination
proof (relation "measure (\<lambda>(t, c, fs). case t of None \<Rightarrow> 0 | Some (_, r) \<Rightarrow> Suc (length r))")
qed (auto split: option.splits dest: strtok_shorter)

definition createNestedDirectories :: "string \<Rightarrow> filesys \<Rightarrow> stop + bool \<times> filesys" where
  "createNestedDirectories full_path fs =
     andThen (extractDirectory (Some full_path) (Some MAX_PATH_LEN)) (\<lambda>dir.
       (case dir of
          None \<Rightarrow> Inr (False, fs)
        | Some directory_only \<Rightarrow>
            if opendir fs directory_only \<noteq> None then Inr (True, fs)
            else mkdirs_loop (strtok (CHR ''/'') directory_only) '''' fs))"

section \<open>Sockets\<close>

text \<open>\<open>data\<close> is the first \<open>num_bytes\<close> bytes of the array that the caller passes.\<close>

function sendALL_loop :: "bytes \<Rightarrow> nat \<Rightarrow> socket \<Rightarrow> bool \<times> socket" where
  "sendALL_loop data total_sent s =
     (if total_sent < length data then
        (let (num_sent, s') = send (drop total_sent data) s
         in if num_sent < 0 then (False, s') else sendALL_loop data (total_sent + nat num_sent) s')
      else (True, s))"
  by pat_completeness auto
termination
proof (relation "measure (\<lambda>(d, t, s). length d - t)")
qed (auto dest!: send_progress [OF sym])

declare sendALL_loop.simps [simp del]

definition sendALL :: "bytes \<Rightarrow> socket \<Rightarrow> bool \<times> socket" where
  "sendALL data s = sendALL_loop data 0 s"

fun sendFile_loop :: "nat \<Rightarrow> rstream \<Rightarrow> socket \<Rightarrow> stop + bool \<times> socket" where
  "sendFile_loop 0 file s = Inl OutOfFuel"
| "sendFile_loop (Suc n) file s =
     (let (buffer, file') = fread MAX_BUFF_SIZE file;
          (sent, s') = sendALL buffer s;
          status = (if sent then 1 else 0 :: int)
      in if status < 0 then Inr (False, s')
         else if rs_eof file' then Inr (True, s')
         else sendFile_loop n file' s')"

definition sendFileContents :: "nat \<Rightarrow> string \<Rightarrow> int \<Rightarrow> world \<Rightarrow> stop + bool \<times> world" where
  "sendFileContents n source_file file_size w =
     (case fopen_rb (files w) source_file of
        None \<Rightarrow> Inr (False, w)
      | Some file \<Rightarrow>
          andThen (sendFile_loop n file (conn w)) (\<lambda>(r, s'). Inr (r, w\<lparr>conn := s'\<rparr>)))"

fun receive_loop ::
  "nat \<Rightarrow> int \<Rightarrow> bool \<Rightarrow> key \<Rightarrow> filesys \<Rightarrow> socket \<Rightarrow> stop + bool \<times> filesys \<times> socket" where
  "receive_loop n remaining success file fs s =
     (if 0 < remaining then
        (case n of
           0 \<Rightarrow> Inl OutOfFuel
         | Suc m \<Rightarrow>
             andThen (recv MAX_BUFF_SIZE s) (\<lambda>(bytes_received, buffer, s').
               if bytes_received < 0 then Inr (success, fs, s')
               else
                 (let (bytes_written, fs') = fwrite file buffer fs
                  in receive_loop m (remaining - bytes_received)
                       (success \<and> int bytes_written = bytes_received) file fs' s')))
      else Inr (success, fs, s))"

declare receive_loop.simps [simp del]

definition receiveFileContents :: "nat \<Rightarrow> string \<Rightarrow> int \<Rightarrow> world \<Rightarrow> stop + bool \<times> world" where
  "receiveFileContents n destination_path file_size w =
     (case fopen_wb (files w) destination_path of
        None \<Rightarrow> Inr (False, w)
      | Some (file, fs1) \<Rightarrow>
          andThen (receive_loop n file_size True file fs1 (conn w)) (\<lambda>(success, fs2, s').
            Inr (success, w\<lparr>files := fs2, conn := s'\<rparr>)))"

definition receiveALL :: "socket \<Rightarrow> string \<Rightarrow> int \<Rightarrow> bool" where
  \<comment> \<open>not written yet in the code, and not called\<close>
  "receiveALL s buffer expected_bytes = False"

section \<open>Splitting: what the two functions compute\<close>

lemma extractDirectory_eq:
  assumes "p \<noteq> []" and "length p < cap"
  shows "extractDirectory (Some p) (Some cap) =
    Inr (Some (case strrchr p (CHR ''/'') of Some i \<Rightarrow> take i p | None \<Rightarrow> ''''))"
  using assms by (simp add: extractDirectory_def split: option.splits)

lemma extractDirectory_overflow:
  "cap \<le> length p \<Longrightarrow> p \<noteq> [] \<Longrightarrow> extractDirectory (Some p) (Some cap) = Inl BufferOverflow"
  by (simp add: extractDirectory_def)

lemma extractBasename_eq:
  assumes "p \<noteq> []" and "length p < cap"
  shows "extractBasename (Some p) (Some cap) =
    Inr (Some (case strrchr p (CHR ''/'') of Some i \<Rightarrow> drop (i + 1) p | None \<Rightarrow> p))"
  using assms by (auto simp: extractBasename_def split: option.splits)

lemma extract_decomposition:
  assumes "p \<noteq> []" and "length p < cap"
  obtains d b where "extractDirectory (Some p) (Some cap) = Inr (Some d)"
    and "extractBasename (Some p) (Some cap) = Inr (Some b)"
    and "CHR ''/'' \<notin> set b"
    and "if CHR ''/'' \<in> set p then p = d @ ''/'' @ b else d = [] \<and> b = p"
proof (cases "strrchr p (CHR ''/'')")
  case None
  then show ?thesis
    using that extractDirectory_eq [OF assms] extractBasename_eq [OF assms]
    by (simp add: strrchr_None)
next
  case (Some i)
  from strrchr_Some_decomp [OF Some]
  have dec: "p = take i p @ ''/'' @ drop (Suc i) p" and b: "CHR ''/'' \<notin> set (drop (Suc i) p)"
    by simp_all
  from dec have slash: "CHR ''/'' \<in> set p" by (metis append_Cons in_set_conv_decomp)
  show ?thesis
  proof (rule that)
    show "extractDirectory (Some p) (Some cap) = Inr (Some (take i p))"
      using Some extractDirectory_eq [OF assms] by simp
    show "extractBasename (Some p) (Some cap) = Inr (Some (drop (Suc i) p))"
      using Some extractBasename_eq [OF assms] by simp
    show "if CHR ''/'' \<in> set p then p = take i p @ ''/'' @ drop (Suc i) p
        else take i p = [] \<and> drop (Suc i) p = p"
      using slash dec by (simp only: if_True)
  qed (rule b)
qed

lemma strrchr_join:
  assumes "ds \<noteq> []" and "CHR ''/'' \<notin> set f"
  shows "strrchr (join (ds @ [f])) (CHR ''/'') = Some (length (join ds))"
  using assms by (simp add: join_snoc)

lemma extractDirectory_join:
  assumes "CHR ''/'' \<notin> set f" and "f \<noteq> []" and "length (join (ds @ [f])) < cap"
  shows "extractDirectory (Some (join (ds @ [f]))) (Some cap) = Inr (Some (join ds))"
proof (cases "ds = []")
  case True
  with assms show ?thesis by (simp add: extractDirectory_eq)
next
  case False
  with assms have "join (ds @ [f]) \<noteq> []" by (simp add: join_snoc)
  with assms False show ?thesis
    by (simp add: extractDirectory_eq strrchr_join del: join.simps) (simp add: join_snoc)
qed

lemma extractBasename_join:
  assumes "CHR ''/'' \<notin> set f" and "f \<noteq> []" and "length (join (ds @ [f])) < cap"
  shows "extractBasename (Some (join (ds @ [f]))) (Some cap) = Inr (Some f)"
proof (cases "ds = []")
  case True
  with assms show ?thesis by (simp add: extractBasename_eq)
next
  case False
  with assms have "join (ds @ [f]) \<noteq> []" by (simp add: join_snoc)
  with assms False show ?thesis
    by (simp add: extractBasename_eq strrchr_join del: join.simps) (simp add: join_snoc)
qed

section \<open>Copying: every byte, as far as the disk has space\<close>

lemma fwrite_fwrite:
  assumes "node_at fs k = Some (File d)"
  shows "snd (fwrite k b (snd (fwrite k a fs))) = snd (fwrite k (a @ b) fs)"
proof -
  have "take (min (length a) q) a @ take (min (length b) (q - min (length a) q)) b =
      take (min (length a + length b) q) (a @ b)"
    and "q - min (length a) q - min (length b) (q - min (length a) q) = q - min (length a + length b) q"
    for q
    by (auto simp: min_def)
  with assms show ?thesis
    by (simp add: fwrite_def Let_def put_node_def update_last node_at_def update_conv')
qed

lemma fwrite_node:
  assumes "node_at fs k = Some (File d)"
  shows "node_at (snd (fwrite k b fs)) k' =
     (if k' = k then Some (File (d @ take (space fs) b)) else node_at fs k')"
  using assms by (auto simp: fwrite_def Let_def min_def)

lemma fwrite_fields [simp, fs_simps]:
  "cwd (snd (fwrite k b fs)) = cwd fs" "readonly (snd (fwrite k b fs)) = readonly fs"
  "dir_end (snd (fwrite k b fs)) = dir_end fs"
  by (simp_all add: fwrite_def Let_def split: option.splits node.splits)

lemma fwrite_count:
  "node_at fs k = Some (File d) \<Longrightarrow> fst (fwrite k b fs) = min (length b) (space fs)"
  by (simp add: fwrite_def Let_def)

lemma fwrite_space:
  "node_at fs k = Some (File d) \<Longrightarrow> space (snd (fwrite k b fs)) = space fs - length b"
  by (simp add: fwrite_def Let_def)

lemma fread_eof:
  assumes "rs_data f = Some c" and "fread n f = (b, f')" and "rs_eof f'" and "\<not> rs_eof f"
  shows "b = drop (rs_pos f) c" and "length b < n"
  using assms by (auto simp: fread_def Let_def)

lemma fread_more:
  assumes "rs_data f = Some c" and "fread n f = (b, f')" and "\<not> rs_eof f'"
  shows "drop (rs_pos f) c = b @ drop (rs_pos f') c" and "rs_data f' = Some c"
    and "length b = n" and "rs_pos f' = rs_pos f + n"
    and "n \<le> length c - rs_pos f" and "\<not> rs_eof f"
proof -
  let ?b = "take n (drop (rs_pos f) c)"
  from assms have b: "b = ?b" and f': "rs_pos f' = rs_pos f + length ?b"
    and len: "length ?b = n" and "rs_data f' = Some c" "\<not> rs_eof f"
    by (auto simp: fread_def Let_def)
  then show "rs_data f' = Some c" "length b = n" "rs_pos f' = rs_pos f + n" "\<not> rs_eof f" by simp_all
  show "n \<le> length c - rs_pos f" using len by simp
  show "drop (rs_pos f) c = b @ drop (rs_pos f') c"
    unfolding b f' len by (metis add.commute append_take_drop_id drop_drop)
qed

lemma copy_loop_eq:
  assumes "rs_data f = Some c" and "\<not> rs_eof f" and "node_at fs k = Some (File d)"
    and "length c - rs_pos f < n * MAX_BUFF_SIZE"
  shows "copy_loop n f k fs = Inr (snd (fwrite k (drop (rs_pos f) c) fs))"
  using assms
proof (induction n arbitrary: f fs d)
  case 0
  then show ?case by simp
next
  case (Suc n)
  obtain b f' where r: "fread MAX_BUFF_SIZE f = (b, f')" by fastforce
  obtain m fs' where w: "fwrite k b fs = (m, fs')" by fastforce
  show ?case
  proof (cases "rs_eof f'")
    case True
    with fread_eof [OF Suc.prems(1) r] Suc.prems(2) r w show ?thesis by simp
  next
    case False
    note more = fread_more [OF Suc.prems(1) r False]
    have fs': "fs' = snd (fwrite k b fs)" using w by simp
    have "copy_loop n f' k fs' = Inr (snd (fwrite k (drop (rs_pos f') c) fs'))"
      using more False Suc.prems fs'
      by (intro Suc.IH [where d = "d @ take (space fs) b"]) (simp_all add: fwrite_node)
    also have "\<dots> = Inr (snd (fwrite k (drop (rs_pos f) c) fs))"
      unfolding fs' more(1) by (simp add: fwrite_fwrite [OF Suc.prems(3)])
    finally show ?thesis using r w False by simp
  qed
qed

lemma copy_loop_directory:
  "rs_data f = None \<Longrightarrow> \<not> rs_eof f \<Longrightarrow> copy_loop n f k fs = Inl OutOfFuel"
  by (induction n arbitrary: fs) (auto simp: fread_def split: prod.splits)

section \<open>Sending: all of the data, or a proper prefix and a failure\<close>

lemma sendALL_loop_outcome:
  assumes "sendALL_loop data t s = (r, s')" and "t \<le> length data"
  shows "\<exists>k. t \<le> k \<and> k \<le> length data \<and> (r \<longleftrightarrow> k = length data) \<and> (t = length data \<longrightarrow> r)
     \<and> outbox s' = outbox s @ take (k - t) (drop t data) \<and> inbox s' = inbox s \<and> is_closed s' = is_closed s"
  using assms
proof (induction data t s arbitrary: r s' rule: sendALL_loop.induct)
  case (1 data t s)
  show ?case
  proof (cases "t < length data")
    case False
    with "1.prems" have "r" "s' = s" "t = length data"
      by (subst (asm) sendALL_loop.simps, simp)+
    then show ?thesis by (intro exI [of _ t]) simp
  next
    case True
    obtain n s1 where send: "send (drop t data) s = (n, s1)" by fastforce
    note out = send_outcome [OF send] and inb = send_inbox [OF send]
    show ?thesis
    proof (cases "n < 0")
      case neg: True
      with "1.prems" True send have "\<not> r" "s' = s1"
        by (subst (asm) sendALL_loop.simps, simp)+
      with out inb neg True show ?thesis by (intro exI [of _ t]) auto
    next
      case pos: False
      let ?n = "nat n"
      have step: "sendALL_loop data (t + ?n) s1 = (r, s')"
        using "1.prems"(1) True send pos by (subst (asm) sendALL_loop.simps) simp
      have n: "0 < ?n" "t + ?n \<le> length data"
        using out pos True by auto
      from "1.IH" [OF True send [symmetric] refl pos step n(2)] obtain k where
        k: "t + ?n \<le> k" "k \<le> length data" "r \<longleftrightarrow> k = length data"
          "outbox s' = outbox s1 @ take (k - (t + ?n)) (drop (t + ?n) data)"
          "inbox s' = inbox s1" "is_closed s' = is_closed s1"
        by blast
      have "take ?n (drop t data) @ take (k - (t + ?n)) (drop (t + ?n) data) =
          take (k - t) (drop t data)"
        using take_drop_append [of ?n "k - t" "drop t data"] k(1)
        by (simp add: add.commute diff_diff_left)
      with k n out pos inb True show ?thesis by (intro exI [of _ k]) auto
    qed
  qed
qed

lemma sendALL_outcome:
  assumes "sendALL data s = (r, s')"
  obtains p where "prefix p data" and "outbox s' = outbox s @ p" and "r \<longleftrightarrow> p = data"
    and "inbox s' = inbox s" and "is_closed s' = is_closed s"
proof -
  from sendALL_loop_outcome [of data 0 s r s'] assms obtain k where
    "k \<le> length data" "r \<longleftrightarrow> k = length data" "outbox s' = outbox s @ take k data"
    "inbox s' = inbox s" "is_closed s' = is_closed s"
    by (auto simp: sendALL_def)
  then show ?thesis by (intro that [of "take k data"]) (auto simp: take_is_prefix)
qed

lemma sendALL_loop_ok:
  "sends_ok s \<Longrightarrow> sendALL_loop data t s = (r, s') \<Longrightarrow> r \<and> sends_ok s'"
proof (induction data t s arbitrary: r s' rule: sendALL_loop.induct)
  case (1 data t s)
  show ?case
  proof (cases "t < length data")
    case False
    with "1.prems" show ?thesis by (subst (asm) sendALL_loop.simps) simp
  next
    case True
    obtain n s1 where send: "send (drop t data) s = (n, s1)" by fastforce
    with send_ok "1.prems"(1) have n: "\<not> n < 0" "sends_ok s1" by fastforce+
    with "1.prems"(2) True send have "sendALL_loop data (t + nat n) s1 = (r, s')"
      by (subst (asm) sendALL_loop.simps) simp
    then show ?thesis by (rule "1.IH" [OF True send [symmetric] refl n])
  qed
qed

lemma sendALL_ok:
  assumes "sends_ok s" and "sendALL data s = (r, s')"
  shows "r" and "sends_ok s'" and "outbox s' = outbox s @ data"
    and "inbox s' = inbox s" and "is_closed s' = is_closed s"
proof -
  from sendALL_loop_ok [OF assms(1)] assms(2) have "r \<and> sends_ok s'"
    unfolding sendALL_def by blast
  then show "r" and "sends_ok s'" by simp_all
  with sendALL_outcome [OF assms(2)] show "outbox s' = outbox s @ data"
    and "inbox s' = inbox s" and "is_closed s' = is_closed s" by auto
qed

lemma sendFile_loop_ok:
  assumes "rs_data f = Some c" and "\<not> rs_eof f" and "sends_ok s"
    and "length c - rs_pos f < n * MAX_BUFF_SIZE"
  shows "\<exists>s'. sendFile_loop n f s = Inr (True, s') \<and> outbox s' = outbox s @ drop (rs_pos f) c
     \<and> sends_ok s' \<and> inbox s' = inbox s \<and> is_closed s' = is_closed s"
  using assms
proof (induction n arbitrary: f s)
  case 0
  then show ?case by simp
next
  case (Suc n)
  obtain b f' where r: "fread MAX_BUFF_SIZE f = (b, f')" by fastforce
  obtain ok s1 where snd_b: "sendALL b s = (ok, s1)" by fastforce
  note ok = sendALL_ok [OF Suc.prems(3) snd_b]
  show ?case
  proof (cases "rs_eof f'")
    case True
    with fread_eof [OF Suc.prems(1) r] Suc.prems(2) r snd_b ok show ?thesis by simp
  next
    case False
    note more = fread_more [OF Suc.prems(1) r False]
    have "\<exists>s'. sendFile_loop n f' s1 = Inr (True, s') \<and> outbox s' = outbox s1 @ drop (rs_pos f') c
        \<and> sends_ok s' \<and> inbox s' = inbox s1 \<and> is_closed s' = is_closed s1"
      using more False Suc.prems ok by (intro Suc.IH) simp_all
    with False r snd_b ok more(1) show ?thesis by auto
  qed
qed

lemma sendFile_loop_directory:
  "rs_data f = None \<Longrightarrow> \<not> rs_eof f \<Longrightarrow> sendFile_loop n f s = Inl OutOfFuel"
  by (induction n arbitrary: s) (auto simp: fread_def split: prod.splits)

section \<open>Receiving: the whole stream, whatever its pieces\<close>

lemma update_same: "map_of al k = Some v \<Longrightarrow> AList.update k v al = al"
  by (induction al) auto

lemma fwrite_Nil: "node_at fs k = Some (File d) \<Longrightarrow> snd (fwrite k [] fs) = fs"
  by (simp add: fwrite_def put_node_def node_at_def update_same)

lemma receive_loop_done [simp]:
  "rem \<le> 0 \<Longrightarrow> receive_loop n rem ok k fs s = Inr (ok, fs, s)"
  by (subst receive_loop.simps) simp

lemma receive_loop_no_fuel [simp]:
  "0 < rem \<Longrightarrow> receive_loop 0 rem ok k fs s = Inl OutOfFuel"
  by (subst receive_loop.simps) simp

lemma receive_loop_step:
  assumes "0 < rem" and "recv_events MAX_BUFF_SIZE (inbox s) = Inr (int (length b), b, evs)"
    and "node_at fs k = Some (File d)"
  shows "receive_loop (Suc n) rem ok k fs s =
    receive_loop n (rem - int (length b)) (ok \<and> length b \<le> space fs) k
      (snd (fwrite k b fs)) (s\<lparr>inbox := evs\<rparr>)"
proof -
  obtain m fs' where w: "fwrite k b fs = (m, fs')" by fastforce
  with fwrite_count [OF assms(3), of b] have "int m = int (length b) \<longleftrightarrow> length b \<le> space fs"
    by (auto simp: min_def)
  with assms w show ?thesis
    by (subst receive_loop.simps) (simp add: recv_def)
qed

text \<open>
  The loop on pieces of a stream that is not longer than what is expected: it writes the
  stream and goes on behind it, after at most as many iterations as the stream has bytes.
\<close>

lemma receive_loop_pieces:
  assumes "inbox s = map Arrive cs @ evs" and "int (length (concat cs)) \<le> rem"
    and "node_at fs k = Some (File d)"
  shows "\<exists>j cs'. j \<le> length (concat cs) \<and> concat cs' = [] \<and>
    (\<forall>n. receive_loop (n + j) rem ok k fs s =
       receive_loop n (rem - int (length (concat cs))) (ok \<and> length (concat cs) \<le> space fs) k
         (snd (fwrite k (concat cs) fs)) (s\<lparr>inbox := map Arrive cs' @ evs\<rparr>)) \<and>
    (\<forall>n < j. receive_loop n rem ok k fs s = Inl OutOfFuel)"
  using assms
proof (induction "length (concat cs)" arbitrary: cs rem ok fs s d rule: less_induct)
  case less
  show ?case
  proof (cases "concat cs = []")
    case True
    have "s\<lparr>inbox := map Arrive cs @ evs\<rparr> = s"
      using less.prems(1) by simp
    then show ?thesis
      by (intro exI [of _ 0] exI [of _ cs]) (simp add: True fwrite_Nil [OF less.prems(3)])
  next
    case False
    have "0 < MAX_BUFF_SIZE" by (simp add: MAX_BUFF_SIZE_def)
    from False this obtain b cs1 where
      r: "recv_events MAX_BUFF_SIZE (map Arrive cs @ evs) = Inr (int (length b), b, map Arrive cs1 @ evs)"
      and b: "b \<noteq> []" and dec: "concat cs = b @ concat cs1"
      by (rule recv_pieces [where evs = evs])
    let ?s = "s\<lparr>inbox := map Arrive cs1 @ evs\<rparr>"
    let ?fs = "snd (fwrite k b fs)"
    let ?rem = "rem - int (length b)"
    have pos: "0 < rem" using less.prems(2) dec b by (cases b) auto
    have step: "receive_loop (Suc n) rem ok k fs s =
        receive_loop n ?rem (ok \<and> length b \<le> space fs) k ?fs ?s" for n
      using receive_loop_step [OF pos, of s b "map Arrive cs1 @ evs" fs k d] r less.prems by simp
    have "length (concat cs1) < length (concat cs)" using dec b by (cases b) auto
    moreover have "int (length (concat cs1)) \<le> ?rem" using dec less.prems(2) by simp
    moreover have "node_at ?fs k = Some (File (d @ take (space fs) b))"
      using fwrite_node [OF less.prems(3)] by simp
    ultimately obtain j cs' where IH: "j \<le> length (concat cs1)" "concat cs' = []"
      "\<And>n. receive_loop (n + j) ?rem (ok \<and> length b \<le> space fs) k ?fs ?s =
         receive_loop n (?rem - int (length (concat cs1)))
           ((ok \<and> length b \<le> space fs) \<and> length (concat cs1) \<le> space ?fs) k
           (snd (fwrite k (concat cs1) ?fs)) (?s\<lparr>inbox := map Arrive cs' @ evs\<rparr>)"
      "\<And>n. n < j \<Longrightarrow> receive_loop n ?rem (ok \<and> length b \<le> space fs) k ?fs ?s = Inl OutOfFuel"
      using less.hyps [of cs1 ?s ?rem ?fs "d @ take (space fs) b" "ok \<and> length b \<le> space fs"]
      by auto
    have ok: "(ok \<and> length b \<le> space fs) \<and> length (concat cs1) \<le> space ?fs \<longleftrightarrow>
        ok \<and> length (concat cs) \<le> space fs"
      using fwrite_space [OF less.prems(3), of b] dec by auto
    have fs: "snd (fwrite k (concat cs1) ?fs) = snd (fwrite k (concat cs) fs)"
      unfolding dec by (rule fwrite_fwrite [OF less.prems(3)])
    have rem: "?rem - int (length (concat cs1)) = rem - int (length (concat cs))"
      using dec by simp
    have "receive_loop (n + Suc j) rem ok k fs s =
       receive_loop n (rem - int (length (concat cs))) (ok \<and> length (concat cs) \<le> space fs) k
         (snd (fwrite k (concat cs) fs)) (s\<lparr>inbox := map Arrive cs' @ evs\<rparr>)" for n
      using step [of "n + j"] IH(3) [of n] unfolding ok fs rem by simp
    moreover have "receive_loop n rem ok k fs s = Inl OutOfFuel" if "n < Suc j" for n
      using that step IH(4) pos by (cases n) auto
    moreover have "Suc j \<le> length (concat cs)" using IH(1) dec b by (cases b) auto
    ultimately show ?thesis using IH(2)
      by (intro exI [of _ "Suc j"] exI [of _ cs']) blast
  qed
qed

lemma receive_loop_complete:
  assumes "inbox s = map Arrive cs @ evs" and "rem = int (length (concat cs))"
    and "node_at fs k = Some (File d)" and "length (concat cs) \<le> n"
  shows "\<exists>cs'. concat cs' = [] \<and> receive_loop n rem ok k fs s =
    Inr (ok \<and> length (concat cs) \<le> space fs, snd (fwrite k (concat cs) fs),
         s\<lparr>inbox := map Arrive cs' @ evs\<rparr>)"
proof -
  from receive_loop_pieces [OF assms(1) _ assms(3), of rem ok] assms(2) obtain j cs' where
    "j \<le> length (concat cs)" "concat cs' = []" and
    "\<And>n. receive_loop (n + j) rem ok k fs s =
       receive_loop n (rem - int (length (concat cs))) (ok \<and> length (concat cs) \<le> space fs) k
         (snd (fwrite k (concat cs) fs)) (s\<lparr>inbox := map Arrive cs' @ evs\<rparr>)"
    by auto
  from this(1,2) this(3) [of "n - j"] assms(2,4) show ?thesis by auto
qed

lemma receive_loop_PeerClosed:
  assumes "inbox s = PeerClosed # evs" and "0 < rem" and "node_at fs k = Some (File d)"
  shows "receive_loop n rem ok k fs s = Inl OutOfFuel"
  using assms
proof (induction n arbitrary: ok)
  case (Suc n)
  have "receive_loop (Suc n) rem ok k fs s = receive_loop n rem ok k fs s"
    using receive_loop_step [OF Suc.prems(2), of s "[]" "PeerClosed # evs" fs k d n ok] Suc.prems
      fwrite_Nil [OF Suc.prems(3)]
    by (simp del: receive_loop.simps)
      (metis (full_types) Suc.prems(1) socket.surjective socket.update_convs(1))
  with Suc show ?case by simp
qed simp

lemma receive_loop_skip_empty:
  assumes "concat cs = []" and "node_at fs k = Some (File d)" and "0 < rem"
  shows "receive_loop n rem ok k fs (s\<lparr>inbox := map Arrive cs @ evs\<rparr>) =
         receive_loop n rem ok k fs (s\<lparr>inbox := evs\<rparr>)"
proof -
  have "recv_events m (map Arrive cs @ evs) = recv_events m evs" for m
    using assms(1) by (induction cs) auto
  then show ?thesis
    using assms(3) by (subst (1 2) receive_loop.simps) (simp add: recv_def cong: nat.case_cong)
qed

text \<open>The connection ends, or fails, after a part of the announced bytes.\<close>

lemma receive_loop_closes:
  assumes "inbox s = map Arrive cs @ PeerClosed # evs" and "int (length (concat cs)) < rem"
    and "node_at fs k = Some (File d)"
  shows "receive_loop n rem ok k fs s = Inl OutOfFuel"
proof -
  from receive_loop_pieces [OF assms(1) _ assms(3), of rem ok] assms(2) obtain j cs' where
    j: "concat cs' = []" "\<And>n. receive_loop (n + j) rem ok k fs s =
       receive_loop n (rem - int (length (concat cs))) (ok \<and> length (concat cs) \<le> space fs) k
         (snd (fwrite k (concat cs) fs)) (s\<lparr>inbox := map Arrive cs' @ PeerClosed # evs\<rparr>)"
    "\<And>n. n < j \<Longrightarrow> receive_loop n rem ok k fs s = Inl OutOfFuel"
    by auto
  have node: "node_at (snd (fwrite k (concat cs) fs)) k = Some (File (d @ take (space fs) (concat cs)))"
    using fwrite_node [OF assms(3)] by simp
  have "receive_loop n (rem - int (length (concat cs))) ok' k (snd (fwrite k (concat cs) fs))
      (s\<lparr>inbox := map Arrive cs' @ PeerClosed # evs\<rparr>) = Inl OutOfFuel" for n ok'
    unfolding receive_loop_skip_empty [OF j(1) node, of "rem - int (length (concat cs))", simplified, OF assms(2)]
    by (rule receive_loop_PeerClosed) (use assms(2) node in simp_all)
  with j(2) [of "n - j"] j(3) [of n] show ?thesis by (cases "n < j") simp_all
qed

lemma receive_loop_fails:
  assumes "inbox s = map Arrive cs @ RecvFails # evs" and "int (length (concat cs)) < rem"
    and "node_at fs k = Some (File d)" and "length (concat cs) < n"
  shows "receive_loop n rem ok k fs s =
    Inr (ok \<and> length (concat cs) \<le> space fs, snd (fwrite k (concat cs) fs), s\<lparr>inbox := evs\<rparr>)"
proof -
  from receive_loop_pieces [OF assms(1) _ assms(3), of rem ok] assms(2) obtain j cs' where
    j: "j \<le> length (concat cs)" "concat cs' = []" "\<And>n. receive_loop (n + j) rem ok k fs s =
       receive_loop n (rem - int (length (concat cs))) (ok \<and> length (concat cs) \<le> space fs) k
         (snd (fwrite k (concat cs) fs)) (s\<lparr>inbox := map Arrive cs' @ RecvFails # evs\<rparr>)"
    by auto
  have node: "node_at (snd (fwrite k (concat cs) fs)) k = Some (File (d @ take (space fs) (concat cs)))"
    using fwrite_node [OF assms(3)] by simp
  obtain m where n: "n = Suc m + j"
    using j(1) assms(4) by (metis add.commute le_less_trans less_imp_Suc_add add_Suc_right)
  have "receive_loop (Suc m) (rem - int (length (concat cs))) ok' k (snd (fwrite k (concat cs) fs))
      (s\<lparr>inbox := map Arrive cs' @ RecvFails # evs\<rparr>) =
      Inr (ok', snd (fwrite k (concat cs) fs), s\<lparr>inbox := evs\<rparr>)" for ok'
    unfolding receive_loop_skip_empty [OF j(2) node, of "rem - int (length (concat cs))", simplified, OF assms(2)]
    using assms(2) by (subst receive_loop.simps) (simp add: recv_def)
  with j(3) [of "Suc m"] show ?thesis unfolding n by simp
qed

section \<open>Creating directories\<close>

text \<open>
  The directories on the way from \<open>base\<close> down the names \<open>ds\<close>, and a tree in which those of
  a list of directories that are missing have been created.
\<close>

fun dir_keys :: "key \<Rightarrow> string list \<Rightarrow> key list" where
  "dir_keys base [] = []"
| "dir_keys base (d # ds) = (base @ [d]) # dir_keys (base @ [d]) ds"

definition make_dirs :: "key list \<Rightarrow> filesys \<Rightarrow> filesys" where
  "make_dirs ks fs = fold (\<lambda>k. put_node k Dir) (filter (\<lambda>k. node_at fs k = None) ks) fs"

definition can_make_dirs :: "key list \<Rightarrow> filesys \<Rightarrow> bool" where
  \<comment> \<open>no file is in the way and the process may create what is missing\<close>
  "can_make_dirs ks fs \<longleftrightarrow>
     (\<forall>k \<in> set ks. node_at fs k = Some Dir \<or> node_at fs k = None \<and> k \<notin> set (readonly fs))"

lemma set_dir_keys: "k \<in> set (dir_keys base ds) \<longleftrightarrow> (\<exists>i. 0 < i \<and> i \<le> length ds \<and> k = base @ take i ds)"
proof (induction ds arbitrary: base)
  case (Cons d ds)
  have "(\<exists>i. 0 < i \<and> i \<le> length (d # ds) \<and> k = base @ take i (d # ds)) \<longleftrightarrow>
      k = base @ [d] \<or> (\<exists>i. 0 < i \<and> i \<le> length ds \<and> k = (base @ [d]) @ take i ds)"
  proof
    assume "\<exists>i. 0 < i \<and> i \<le> length (d # ds) \<and> k = base @ take i (d # ds)"
    then obtain j where "j \<le> length ds" "k = base @ d # take j ds"
      by (metis Suc_le_mono gr0_implies_Suc length_Cons take_Suc_Cons)
    then show "k = base @ [d] \<or> (\<exists>i. 0 < i \<and> i \<le> length ds \<and> k = (base @ [d]) @ take i ds)"
      by (cases "j = 0") auto
  next
    assume "k = base @ [d] \<or> (\<exists>i. 0 < i \<and> i \<le> length ds \<and> k = (base @ [d]) @ take i ds)"
    then show "\<exists>i. 0 < i \<and> i \<le> length (d # ds) \<and> k = base @ take i (d # ds)"
    proof
      assume "k = base @ [d]"
      then show ?thesis by (intro exI [of _ 1]) simp
    next
      assume "\<exists>i. 0 < i \<and> i \<le> length ds \<and> k = (base @ [d]) @ take i ds"
      then obtain i where "i \<le> length ds" "k = (base @ [d]) @ take i ds" by blast
      then show ?thesis by (intro exI [of _ "Suc i"]) simp
    qed
  qed
  with Cons.IH [of "base @ [d]"] show ?case by simp
qed simp

lemma last_dir_key: "ds \<noteq> [] \<Longrightarrow> base @ ds \<in> set (dir_keys base ds)"
  unfolding set_dir_keys by (intro exI [of _ "length ds"]) simp

lemma dir_keys_longer: "k \<in> set (dir_keys base ds) \<Longrightarrow> length base < length k"
  by (auto simp: set_dir_keys)

lemma make_dirs_node:
  "node_at (make_dirs ks fs) k =
     (if k \<in> set ks \<and> node_at fs k = None then Some Dir else node_at fs k)"
  by (simp add: make_dirs_def tree.get_fold_put)

lemma make_dirs_fields [simp, fs_simps]:
  "cwd (make_dirs ks fs) = cwd fs" "readonly (make_dirs ks fs) = readonly fs"
  "space (make_dirs ks fs) = space fs" "dir_end (make_dirs ks fs) = dir_end fs"
  by (simp_all add: make_dirs_def)

lemma make_dirs_existing: "\<forall>k \<in> set ks. node_at fs k = Some Dir \<Longrightarrow> make_dirs ks fs = fs"
  by (simp add: make_dirs_def cong: filter_cong)

lemma make_dirs_Cons_new:
  assumes "node_at fs k = None" and "k \<notin> set ks"
  shows "make_dirs (k # ks) fs = make_dirs ks (put_node k Dir fs)"
proof -
  have "filter (\<lambda>k'. node_at (put_node k Dir fs) k' = None) ks = filter (\<lambda>k'. node_at fs k' = None) ks"
    using assms(2) by (intro filter_cong) auto
  with assms show ?thesis by (simp add: make_dirs_def)
qed

lemma make_dirs_Cons_old: "node_at fs k \<noteq> None \<Longrightarrow> make_dirs (k # ks) fs = make_dirs ks fs"
  by (auto simp: make_dirs_def)

lemma strtok_join:
  assumes "\<forall>c \<in> set (d # ds). plain c"
  shows "strtok (CHR ''/'') (join (d # ds)) = Some (d, join ds)"
  using assms by (cases ds) (simp_all add: plain_def)

lemma length_join_take: "length (join (take i ds)) \<le> length (join ds)"
proof (cases "take i ds = [] \<or> drop i ds = []")
  case True
  then show ?thesis by auto
next
  case False
  then have "join ds = join (take i ds) @ CHR ''/'' # join (drop i ds)"
    by (metis append_take_drop_id join_append)
  then show ?thesis by simp
qed

lemma mkdirs_loop_join:
  assumes "wf_fs fs" and "\<forall>c \<in> set (done @ ds). plain c" and "node_at fs (cwd fs @ done) = Some Dir"
    and "length (join (done @ ds)) < MAX_PATH_LEN" and "can_make_dirs (dir_keys (cwd fs @ done) ds) fs"
  shows "mkdirs_loop (strtok (CHR ''/'') (join ds)) (join done) fs =
           Inr (True, make_dirs (dir_keys (cwd fs @ done) ds) fs) \<and>
         wf_fs (make_dirs (dir_keys (cwd fs @ done) ds) fs)"
  using assms
proof (induction ds arbitrary: "done" fs)
  case Nil
  then show ?case by (simp add: make_dirs_def)
next
  case (Cons d ds)
  let ?k = "cwd fs @ done @ [d]"
  let ?keys = "dir_keys ?k ds"
  have rel: "rel_path (done @ [d])" using Cons.prems(2) by (simp add: rel_path_def)
  have pl: "plain d" using Cons.prems(2) by simp
  have tok: "strtok (CHR ''/'') (join (d # ds)) = Some (d, join ds)"
    using Cons.prems(2) by (intro strtok_join) simp
  have done_ne: "length (join done) = 0 \<longleftrightarrow> done = []"
    using Cons.prems(2) by (cases "done" rule: join.cases) (auto simp: plain_def)
  have cur: "(if length (join done) = 0 then d else join done @ ''/'' @ d) = join (done @ [d])"
    unfolding done_ne by (simp add: join_snoc)
  have "length (join (done @ [d])) < MAX_PATH_LEN"
    using length_join_take [of "Suc (length done)" "done @ d # ds"] Cons.prems(4) by simp
  then have store: "store_string MAX_PATH_LEN (join (done @ [d])) = Inr (join (done @ [d]))"
    by simp
  have notin: "?k \<notin> set ?keys" using dir_keys_longer by fastforce
  have mk: "mkdir (join (done @ [d])) fs =
      (if node_at fs ?k \<noteq> None then Inl EEXIST else Inr (put_node ?k Dir fs))"
    using mkdir_join [OF Cons.prems(1) rel] Cons.prems(3,5) by (auto simp: can_make_dirs_def)
  show ?case
  proof (cases "node_at fs ?k = None")
    case True
    let ?fs = "put_node ?k Dir fs"
    have "wf_fs ?fs"
      using Cons.prems(3) pl True by (intro wf_fs_put [OF Cons.prems(1)]) (simp_all add: butlast_append)
    moreover have "can_make_dirs ?keys ?fs"
      using Cons.prems(5) by (auto simp: can_make_dirs_def)
    ultimately have "mkdirs_loop (strtok (CHR ''/'') (join ds)) (join (done @ [d])) ?fs =
        Inr (True, make_dirs ?keys ?fs) \<and> wf_fs (make_dirs ?keys ?fs)"
      using Cons.IH [of ?fs "done @ [d]"] Cons.prems(2,4) by simp
    with True mk store make_dirs_Cons_new [OF True notin] show ?thesis
      unfolding tok mkdirs_loop.simps cur by simp
  next
    case False
    with Cons.prems(5) have dir: "node_at fs ?k = Some Dir" by (auto simp: can_make_dirs_def)
    have "can_make_dirs ?keys fs" using Cons.prems(5) by (simp add: can_make_dirs_def)
    then have "mkdirs_loop (strtok (CHR ''/'') (join ds)) (join (done @ [d])) fs =
        Inr (True, make_dirs ?keys fs) \<and> wf_fs (make_dirs ?keys fs)"
      using Cons.IH [of fs "done @ [d]"] Cons.prems dir by simp
    with False mk store make_dirs_Cons_old [OF False] show ?thesis
      unfolding tok mkdirs_loop.simps cur by simp
  qed
qed

lemma createNestedDirectories_join:
  assumes wf: "wf_fs fs" and pl: "\<forall>c \<in> set (ds @ [f]). plain c"
    and len: "length (join (ds @ [f])) < MAX_PATH_LEN"
    and can: "can_make_dirs (dir_keys (cwd fs) ds) fs"
  shows "createNestedDirectories (join (ds @ [f])) fs =
           Inr (True, make_dirs (dir_keys (cwd fs) ds) fs) \<and>
         wf_fs (make_dirs (dir_keys (cwd fs) ds) fs)"
proof -
  have f: "CHR ''/'' \<notin> set f" "f \<noteq> []" using pl by (simp_all add: plain_def)
  note dir = extractDirectory_join [OF f len]
  have len_ds: "length (join ds) < MAX_PATH_LEN"
    using length_join_take [of "length ds" "ds @ [f]"] len by simp
  have loop: "mkdirs_loop (strtok (CHR ''/'') (join ds)) '''' fs =
           Inr (True, make_dirs (dir_keys (cwd fs) ds) fs) \<and>
         wf_fs (make_dirs (dir_keys (cwd fs) ds) fs)"
    using mkdirs_loop_join [OF wf, of "[]" ds] pl len_ds can wf by simp
  show ?thesis
  proof (cases "opendir fs (join ds) = None")
    case True
    with dir loop show ?thesis by (simp add: createNestedDirectories_def)
  next
    case False
    then have "ds \<noteq> []" by (auto simp: opendir_def resolve_def)
    with pl have rel: "rel_path ds" by (simp add: rel_path_def)
    from False opendir_join [OF wf rel] have "node_at fs (cwd fs @ ds) = Some Dir"
      by (simp split: if_splits)
    moreover have "node_at fs (cwd fs @ take i ds) = Some Dir" if "i < length ds" for i
      using calculation wf_fs_prefix_dir [OF wf, of "cwd fs @ take i ds" "drop i ds"] that by simp
    ultimately have "\<forall>k \<in> set (dir_keys (cwd fs) ds). node_at fs k = Some Dir"
      by (auto simp: set_dir_keys le_less)
    then have "make_dirs (dir_keys (cwd fs) ds) fs = fs" by (rule make_dirs_existing)
    with False dir loop show ?thesis by (simp add: createNestedDirectories_def)
  qed
qed

lemma createNestedDirectories_overflow:
  "p \<noteq> [] \<Longrightarrow> MAX_PATH_LEN \<le> length p \<Longrightarrow> createNestedDirectories p fs = Inl BufferOverflow"
  by (simp add: createNestedDirectories_def extractDirectory_overflow)

section \<open>Sizes and contents of regular files\<close>

lemma getFileSize_join:
  assumes "wf_fs fs" and "rel_path cs"
  shows "getFileSize fs (join cs) =
    (case node_at fs (cwd fs @ cs) of
       None \<Rightarrow> - 1 | Some (File c) \<Rightarrow> int (length c) | Some Dir \<Rightarrow> dir_end fs)"
  by (auto simp: getFileSize_def fopen_rb_join [OF assms] seek_end_tell_def
      split: option.splits node.splits)

lemma sendFileContents_file:
  assumes "wf_fs (files w)" and "rel_path cs" and "node_at (files w) (cwd (files w) @ cs) = Some (File c)"
    and "sends_ok (conn w)" and "length c < n * MAX_BUFF_SIZE"
  shows "\<exists>s'. sendFileContents n (join cs) l w = Inr (True, w\<lparr>conn := s'\<rparr>) \<and>
    outbox s' = outbox (conn w) @ c \<and> sends_ok s' \<and> inbox s' = inbox (conn w) \<and>
    is_closed s' = is_closed (conn w)"
proof -
  let ?f = "\<lparr>rs_data = Some c, rs_pos = 0, rs_eof = False\<rparr>"
  have "fopen_rb (files w) (join cs) = Some ?f"
    using fopen_rb_join [OF assms(1,2)] assms(3) by simp
  with sendFile_loop_ok [of ?f c "conn w" n] assms(4,5) show ?thesis
    by (auto simp: sendFileContents_def)
qed

lemma receiveFileContents_file:
  assumes wf: "wf_fs (files w)" and rel: "rel_path cs"
    and dir: "node_at (files w) (cwd (files w) @ butlast cs) = Some Dir"
    and nodir: "node_at (files w) (cwd (files w) @ cs) \<noteq> Some Dir"
    and rw: "cwd (files w) @ cs \<notin> set (readonly (files w))"
    and inb: "inbox (conn w) = map Arrive ps @ evs" and len: "l = int (length (concat ps))"
    and fuel: "length (concat ps) \<le> n"
  shows "\<exists>fs' ps'. receiveFileContents n (join cs) l w =
      Inr (length (concat ps) \<le> space (files w),
           w\<lparr>files := fs', conn := (conn w)\<lparr>inbox := map Arrive ps' @ evs\<rparr>\<rparr>) \<and>
    concat ps' = [] \<and> wf_fs fs' \<and>
    node_at fs' = (node_at (files w))(cwd (files w) @ cs \<mapsto> File (take (space (files w)) (concat ps))) \<and>
    cwd fs' = cwd (files w) \<and> readonly fs' = readonly (files w) \<and> dir_end fs' = dir_end (files w) \<and>
    space fs' = space (files w) - length (concat ps)"
proof -
  let ?k = "cwd (files w) @ cs"
  let ?fs = "put_node ?k (File []) (files w)"
  let ?fs' = "snd (fwrite ?k (concat ps) ?fs)"
  have op: "fopen_wb (files w) (join cs) = Some (?k, ?fs)"
    using fopen_wb_join [OF wf rel] rw nodir dir by simp
  have wf1: "wf_fs ?fs"
    using rel_key_parent [OF rel, of "files w"] dir nodir
    by (intro wf_fs_put [OF wf]) simp_all
  have node: "node_at ?fs ?k = Some (File [])" by simp
  obtain m fs2 where w: "fwrite ?k (concat ps) ?fs = (m, fs2)" by fastforce
  from receive_loop_complete [OF inb len node fuel, of True] obtain ps' where
    "concat ps' = []" "receive_loop n l True ?k ?fs (conn w) =
      Inr (length (concat ps) \<le> space (files w), ?fs', (conn w)\<lparr>inbox := map Arrive ps' @ evs\<rparr>)"
    by auto
  moreover have "node_at ?fs' = (node_at (files w))(?k \<mapsto> File (take (space (files w)) (concat ps)))"
    using fwrite_node [OF node, of "concat ps"] by (auto simp: fun_eq_iff)
  moreover have "wf_fs ?fs'" using wf_fwrite [OF w wf1] w by simp
  moreover have "space ?fs' = space (files w) - length (concat ps)"
    using fwrite_space [OF node] by simp
  ultimately show ?thesis
    by (intro exI [of _ ?fs'] exI [of _ ps']) (simp add: receiveFileContents_def op)
qed

end
