(* ===== verification/Protocol.thy ===== *)
theory Protocol
  imports Command Utils
begin

text \<open>
  \<open>protocol.h\<close> and \<open>protocol.c\<close>: requests and responses, their text form on the wire
  (\<open>command,data_len,remote_path\<close> and \<open>status,data_len,message\<close>), and sending a response.
  A pointer argument that may be \<open>NULL\<close> is an option, and so is a result that may be
  \<open>NULL\<close>. \<open>long\<close> values are integers; what is read from a string is in the range of
  \<open>long\<close> by \<open>strtol\<close>.
\<close>

section \<open>Requests\<close>

record request_t =
  command :: command_type
  remote_path :: string
  data_len :: int

definition createRequest :: "command_t option \<Rightarrow> filesys \<Rightarrow> request_t option" where
  "createRequest cmd fs =
     (case cmd of
        None \<Rightarrow> None
      | Some c \<Rightarrow>
          if c_type c = UNKNOWN \<or> NUM_COMMANDS < enum_val (c_type c) then None
          else if c_type c = WRITE then
            (let len = getFileSize fs (local_path c)
             in if len < 0 then None
                else Some \<lparr>command = c_type c, remote_path = cmd_remote_path c, data_len = len\<rparr>)
          else Some \<lparr>command = c_type c, remote_path = cmd_remote_path c, data_len = 0\<rparr>)"

definition createRequestFromParts :: "command_type \<Rightarrow> string option \<Rightarrow> int \<Rightarrow> request_t option" where
  "createRequestFromParts type path data_length =
     (if type = UNKNOWN \<or> NUM_COMMANDS < enum_val type then None
      else (case path of
         None \<Rightarrow> None
       | Some p \<Rightarrow>
           if length p = 0 then None
           else if data_length < 0 then None
           else Some \<lparr>command = type, remote_path = p, data_len = data_length\<rparr>))"

definition num_digits :: "int \<Rightarrow> stop + nat" where
  \<comment> \<open>\<open>ceil(log10(data_len))\<close>; the logarithm of a negative number has no integer value\<close>
  "num_digits len =
     (if len = 0 then Inr 1
      else if len < 0 then Inl Indeterminate
      else Inr (ceil_log10 (nat len)))"

definition serializeRequest :: "request_t option \<Rightarrow> stop + string option" where
  "serializeRequest req =
     (case req of
        None \<Rightarrow> Inr None
      | Some r \<Rightarrow>
          andThen (command_string (command r)) (\<lambda>command_type.
          andThen (num_digits (data_len r)) (\<lambda>digits.
          let len = length command_type + length (remote_path r) + digits + 3 in
          andThen (store_string len
                    (command_type @ '','' @ show_int (data_len r) @ '','' @ remote_path r))
            (\<lambda>reqString. Inr (Some reqString)))))"

text \<open>
  The loop of \<open>deSerializeRequest\<close>: the current token, its number and the three variables,
  which are \<open>None\<close> until they are assigned.
\<close>

function request_loop ::
  "(string \<times> string) option \<Rightarrow> nat \<Rightarrow> command_type option \<Rightarrow> int option \<Rightarrow> string option \<Rightarrow>
   nat \<times> command_type option \<times> int option \<times> string option" where
  "request_loop None i type len path = (i, type, len, path)"
| "request_loop (Some (token, rest)) i type len path =
     (if i = 0 then
        request_loop (strtok (CHR '','') rest) (i + 1) (Some (strToCommandType (Some token))) len path
      else if i = 1 then
        request_loop (strtok (CHR '','') rest) (i + 1) type (Some (strtol token)) path
      else if i = 2 then
        request_loop (strtok (CHR '','') rest) (i + 1) type len (Some token)
      else (i, type, len, path))"
  by pat_completeness auto
termination
proof (relation "measure (\<lambda>(t, i, ty, l, p). case t of None \<Rightarrow> 0 | Some (_, r) \<Rightarrow> Suc (length r))")
qed (auto split: option.splits dest: strtok_shorter)

definition deSerializeRequest :: "string option \<Rightarrow> stop + request_t option" where
  "deSerializeRequest buffer =
     (case buffer of
        None \<Rightarrow> Inr None
      | Some b \<Rightarrow>
          (case request_loop (strtok (CHR '','') b) 0 None None None of
             (i, type, len, path) \<Rightarrow>
               if 3 \<le> i then
                 (case (path, type, len) of
                    (Some p, Some t, Some l) \<Rightarrow> Inr (createRequestFromParts t (Some p) l)
                  | _ \<Rightarrow> Inl Indeterminate)
               else Inr None))"

section \<open>Responses\<close>

record response_t =
  status :: bool
  message :: string
  res_data_len :: int

definition createResponse :: "bool \<Rightarrow> string option \<Rightarrow> int \<Rightarrow> response_t option" where
  "createResponse success msg len =
     (let m = (case msg of None \<Rightarrow> ''NULL'' | Some t \<Rightarrow> if length t = 0 then ''NULL'' else t)
      in if len < 0 then None
         else Some \<lparr>status = success, message = m, res_data_len = len\<rparr>)"

definition serializeResponse :: "response_t option \<Rightarrow> stop + string option" where
  "serializeResponse res =
     (case res of
        None \<Rightarrow> Inr None
      | Some r \<Rightarrow>
          andThen (num_digits (res_data_len r)) (\<lambda>digits.
          let len = length (message r) + digits + 4 in
          andThen (store_string len
                    (show_int (if status r then 1 else 0) @ '','' @ show_int (res_data_len r) @ '',''
                     @ message r))
            (\<lambda>resString. Inr (Some resString))))"

text \<open>The loop of \<open>deSerializeResponse\<close>; \<open>None\<close> is the early return of \<open>NULL\<close>.\<close>

function response_loop ::
  "(string \<times> string) option \<Rightarrow> nat \<Rightarrow> bool option \<Rightarrow> int option \<Rightarrow> string option \<Rightarrow>
   (nat \<times> bool option \<times> int option \<times> string option) option" where
  "response_loop None i success len msg = Some (i, success, len, msg)"
| "response_loop (Some (token, rest)) i success len msg =
     (if i = 0 then
        (if equals (Some token) (Some ''0'') then
           response_loop (strtok (CHR '','') rest) (i + 1) (Some False) len msg
         else if equals (Some token) (Some ''1'') then
           response_loop (strtok (CHR '','') rest) (i + 1) (Some True) len msg
         else None)
      else if i = 1 then
        response_loop (strtok (CHR '','') rest) (i + 1) success (Some (strtol token)) msg
      else if i = 2 then
        response_loop (strtok (CHR '','') rest) (i + 1) success len (Some token)
      else response_loop (strtok (CHR '','') rest) (i + 1) success len msg)"
  by pat_completeness auto
termination
proof (relation "measure (\<lambda>(t, i, su, l, m). case t of None \<Rightarrow> 0 | Some (_, r) \<Rightarrow> Suc (length r))")
qed (auto split: option.splits dest: strtok_shorter)

definition deSerializeResponse :: "string option \<Rightarrow> stop + response_t option" where
  "deSerializeResponse buffer =
     (case buffer of
        None \<Rightarrow> Inr None
      | Some b \<Rightarrow>
          (case response_loop (strtok (CHR '','') b) 0 None None None of
             None \<Rightarrow> Inr None
           | Some (i, success, len, msg) \<Rightarrow>
               if i < 3 then Inr None
               else (case (success, msg, len) of
                       (Some s, Some m, Some l) \<Rightarrow> Inr (createResponse s (Some m) l)
                     | _ \<Rightarrow> Inl Indeterminate)))"

section \<open>Sending a response\<close>

definition sendResponse :: "response_t option \<Rightarrow> socket \<Rightarrow> stop + bool \<times> socket" where
  \<comment> \<open>the plain error messages are sent with their terminating zero byte\<close>
  "sendResponse res s =
     (case res of
        None \<Rightarrow> Inr (False, snd (send (''ERROR: tried to send NULL response'' @ [NUL]) s))
      | Some r \<Rightarrow>
          andThen (serializeResponse (Some r)) (\<lambda>str.
            (case str of
               None \<Rightarrow> Inr (False, snd (send (''ERROR: unable to serialize response object'' @ [NUL]) s))
             | Some response_str \<Rightarrow>
                 (let (sendStatus, s') = send response_str s in
                  if sendStatus < 0 then
                    Inr (False, snd (send (''ERROR: unable to send serialized response to the client'' @ [NUL]) s'))
                  else Inr (True, s')))))"

definition buildAndSendResponse :: "bool \<Rightarrow> int \<Rightarrow> string option \<Rightarrow> socket \<Rightarrow> stop + bool \<times> socket" where
  "buildAndSendResponse response_status response_len response_message s =
     sendResponse (createResponse response_status response_message response_len) s"

section \<open>The decoders as functions of the first three tokens\<close>

lemma deSerializeRequest_tokens:
  "deSerializeRequest (Some b) =
     (case strtok (CHR '','') b of
        None \<Rightarrow> Inr None
      | Some (t1, r1) \<Rightarrow>
          (case strtok (CHR '','') r1 of
             None \<Rightarrow> Inr None
           | Some (t2, r2) \<Rightarrow>
               (case strtok (CHR '','') r2 of
                  None \<Rightarrow> Inr None
                | Some (t3, r3) \<Rightarrow>
                    Inr (createRequestFromParts (strToCommandType (Some t1)) (Some t3) (strtol t2)))))"
proof -
  have stop: "request_loop t 3 ty l p = (3, ty, l, p)" for t ty l p
    by (cases t) auto
  show ?thesis
    by (auto simp: deSerializeRequest_def stop numeral_3_eq_3 [symmetric] split: option.splits)
qed

lemma response_loop_rest:
  "3 \<le> i \<Longrightarrow> \<exists>j \<ge> 3. response_loop t i su l m = Some (j, su, l, m)"
  by (induction t i su l m rule: response_loop.induct) auto

lemma deSerializeResponse_tokens:
  "deSerializeResponse (Some b) =
     (case strtok (CHR '','') b of
        None \<Rightarrow> Inr None
      | Some (t1, r1) \<Rightarrow>
          if t1 \<noteq> ''0'' \<and> t1 \<noteq> ''1'' then Inr None
          else (case strtok (CHR '','') r1 of
             None \<Rightarrow> Inr None
           | Some (t2, r2) \<Rightarrow>
               (case strtok (CHR '','') r2 of
                  None \<Rightarrow> Inr None
                | Some (t3, r3) \<Rightarrow> Inr (createResponse (t1 = ''1'') (Some t3) (strtol t2)))))"
proof -
  have "\<exists>j. \<forall>t su l m. 3 \<le> j t su l m \<and> response_loop t 3 su l m = Some (j t su l m, su, l, m)"
    using response_loop_rest [of 3] by (metis order_refl)
  then obtain j where j: "response_loop t 3 su l m = Some (j t su l m, su, l, m)"
    and ge: "\<not> j t su l m < 3" for t su l m
    by (auto simp: not_less)
  show ?thesis
    by (simp add: deSerializeResponse_def j ge numeral_3_eq_3 [symmetric] split: option.split)
qed

section \<open>The encoders: what fits into the buffer\<close>

lemma not_power_of_ten_0 [simp]: "\<not> power_of_ten 0"
  by (simp add: power_of_ten_def)

lemma num_digits_enough:
  assumes "0 \<le> d"
  shows "num_digits d = Inr (length (show_int d) - (if power_of_ten (nat d) then 1 else 0))"
  using assms length_show_nat [of "nat d"] by (auto simp: num_digits_def show_int_def)

lemma serializeRequest_eq:
  assumes "command_string (command r) = Inr ct" and "0 \<le> data_len r"
  shows "serializeRequest (Some r) =
    (if power_of_ten (nat (data_len r)) then Inl BufferOverflow
     else Inr (Some (ct @ '','' @ show_int (data_len r) @ '','' @ remote_path r)))"
proof -
  obtain m where "length (show_int (data_len r)) = Suc m"
    by (metis gr0_conv_Suc length_greater_0_conv show_int_nonempty)
  with assms show ?thesis
    by (simp add: serializeRequest_def num_digits_enough Let_def store_string_def)
qed

lemma show_int_bit [simp]: "show_int 0 = ''0''" "show_int 1 = ''1''"
  by (simp_all add: show_int_def)

definition response_text :: "response_t \<Rightarrow> string" where
  "response_text r =
     (if status r then ''1'' else ''0'') @ '','' @ show_int (res_data_len r) @ '','' @ message r"

lemma serializeResponse_eq:
  assumes "0 \<le> res_data_len r"
  shows "serializeResponse (Some r) =
    (if power_of_ten (nat (res_data_len r)) then Inl BufferOverflow else Inr (Some (response_text r)))"
proof -
  obtain m where "length (show_int (res_data_len r)) = Suc m"
    by (metis gr0_conv_Suc length_greater_0_conv show_int_nonempty)
  with assms show ?thesis
    by (simp add: serializeResponse_def num_digits_enough Let_def store_string_def response_text_def)
qed

section \<open>Encoding and decoding as one interface\<close>

text \<open>
  What both ends of the connection rely on: a valid value can be encoded, and the text decodes
  to the value again.
\<close>

locale codec =
  fixes encode :: "'a \<Rightarrow> stop + string option"
    and decode :: "string \<Rightarrow> stop + 'a option"
    and valid :: "'a \<Rightarrow> bool"
  assumes encode_valid: "valid x \<Longrightarrow> \<exists>s. encode x = Inr (Some s)"
    and decode_encode: "valid x \<Longrightarrow> encode x = Inr (Some s) \<Longrightarrow> decode s = Inr (Some x)"
begin

lemma roundtrip: "valid x \<Longrightarrow> \<exists>s. encode x = Inr (Some s) \<and> decode s = Inr (Some x)"
  using encode_valid decode_encode by blast

lemma encode_inject: "valid x \<Longrightarrow> valid y \<Longrightarrow> encode x = encode y \<Longrightarrow> x = y"
proof -
  assume "valid x" "valid y" and eq: "encode x = encode y"
  then obtain s t where s: "encode x = Inr (Some s)" "decode s = Inr (Some x)"
    and t: "encode y = Inr (Some t)" "decode t = Inr (Some y)"
    using roundtrip by meson
  with eq show "x = y" by simp
qed

lemma encode_unambiguous:
  "valid x \<Longrightarrow> valid y \<Longrightarrow> x \<noteq> y \<Longrightarrow> encode x = Inr (Some s) \<Longrightarrow> encode y \<noteq> Inr (Some s)"
  using encode_inject by auto

end

definition valid_request :: "request_t \<Rightarrow> bool" where
  "valid_request r \<longleftrightarrow>
     command r \<noteq> UNKNOWN \<and> remote_path r \<noteq> '''' \<and> CHR '','' \<notin> set (remote_path r) \<and>
     0 \<le> data_len r \<and> data_len r \<le> LONG_MAX \<and> \<not> power_of_ten (nat (data_len r))"

definition valid_response :: "response_t \<Rightarrow> bool" where
  "valid_response r \<longleftrightarrow>
     message r \<noteq> '''' \<and> CHR '','' \<notin> set (message r) \<and>
     0 \<le> res_data_len r \<and> res_data_len r \<le> LONG_MAX \<and> \<not> power_of_ten (nat (res_data_len r))"

lemma long_nonneg [simp]: "0 \<le> i \<Longrightarrow> LONG_MIN \<le> i"
  by (simp add: LONG_MIN_def)

lemma createRequestFromParts_eq:
  "createRequestFromParts t (Some p) l =
     (if t = UNKNOWN \<or> p = '''' \<or> l < 0 then None
      else Some \<lparr>command = t, remote_path = p, data_len = l\<rparr>)"
  by (cases t) (auto simp: createRequestFromParts_def NUM_COMMANDS_def)

lemma deSerializeRequest_text:
  assumes "command_string t = Inr ct" and "0 \<le> l" and "l \<le> LONG_MAX"
    and "p \<noteq> ''''" and "CHR '','' \<notin> set p" and "q = '''' \<or> hd q = CHR '',''"
  shows "deSerializeRequest (Some (ct @ '','' @ show_int l @ '','' @ p @ q)) =
    Inr (Some \<lparr>command = t, remote_path = p, data_len = l\<rparr>)"
proof -
  have ct: "ct \<noteq> ''''" "CHR '','' \<notin> set ct" "t \<noteq> UNKNOWN"
    using assms(1) command_string_plain command_string_defined by blast+
  have "\<exists>r. strtok (CHR '','') (p @ q) = Some (p, r)"
    using assms(4-6) by (cases q) auto
  with ct assms show ?thesis
    by (auto simp: deSerializeRequest_tokens createRequestFromParts_eq
        strToCommandType_command_string [OF assms(1)])
qed

interpretation request: codec "\<lambda>r. serializeRequest (Some r)" "\<lambda>s. deSerializeRequest (Some s)" valid_request
proof
  fix r
  assume "valid_request r"
  then show "\<exists>s. serializeRequest (Some r) = Inr (Some s)"
    using command_string_defined by (auto simp: valid_request_def serializeRequest_eq)
next
  fix r s
  assume v: "valid_request r" and s: "serializeRequest (Some r) = Inr (Some s)"
  then obtain ct where ct: "command_string (command r) = Inr ct"
    using command_string_defined by (auto simp: valid_request_def)
  with v s have "s = ct @ '','' @ show_int (data_len r) @ '','' @ remote_path r @ ''''"
    by (simp add: valid_request_def serializeRequest_eq)
  moreover have "deSerializeRequest (Some (ct @ '','' @ show_int (data_len r) @ '','' @ remote_path r @ '''')) =
      Inr (Some \<lparr>command = command r, remote_path = remote_path r, data_len = data_len r\<rparr>)"
    using v ct by (intro deSerializeRequest_text) (simp_all add: valid_request_def)
  ultimately show "deSerializeRequest (Some s) = Inr (Some r)" by simp
qed

interpretation response: codec "\<lambda>r. serializeResponse (Some r)" "\<lambda>s. deSerializeResponse (Some s)" valid_response
proof
  fix r
  assume "valid_response r"
  then show "\<exists>s. serializeResponse (Some r) = Inr (Some s)"
    by (simp add: valid_response_def serializeResponse_eq)
next
  fix r s
  assume v: "valid_response r" and s: "serializeResponse (Some r) = Inr (Some s)"
  then have "s = response_text r" by (simp add: valid_response_def serializeResponse_eq)
  with v show "deSerializeResponse (Some s) = Inr (Some r)"
    by (cases r) (auto simp: valid_response_def response_text_def deSerializeResponse_tokens
        createResponse_def)
qed





section \<open>Where encoding and decoding fail\<close>



text \<open>
  A path with a comma does not survive: whatever follows the first comma of the path is
  lost, so the server gets a request for another file.
\<close>

theorem request_comma_truncated:
  assumes "command r \<noteq> UNKNOWN" and "0 \<le> data_len r" and "data_len r \<le> LONG_MAX"
    and "\<not> power_of_ten (nat (data_len r))"
    and "remote_path r = p @ '','' @ q" and "p \<noteq> ''''" and "CHR '','' \<notin> set p"
  shows "\<exists>s. serializeRequest (Some r) = Inr (Some s) \<and>
             deSerializeRequest (Some s) = Inr (Some (r\<lparr>remote_path := p\<rparr>))"
proof -
  from assms(1) obtain ct where ct: "command_string (command r) = Inr ct"
    using command_string_defined by blast
  show ?thesis
    using serializeRequest_eq [OF ct assms(2)]
      deSerializeRequest_text [OF ct assms(2,3,6,7), of "'','' @ q"] assms(4,5)
    by (cases r) simp
qed

theorem request_comma_truncated_witness:
  "\<exists>s. serializeRequest (Some \<lparr>command = RM, remote_path = ''data/a,b'', data_len = 0\<rparr>) = Inr (Some s) \<and>
       deSerializeRequest (Some s) = Inr (Some \<lparr>command = RM, remote_path = ''data/a'', data_len = 0\<rparr>)"
  using request_comma_truncated [of "\<lparr>command = RM, remote_path = ''data/a,b'', data_len = 0\<rparr>" "''data/a''" "''b''"]
  by (simp add: LONG_MAX_def)

lemma deSerializeRequest_sound:
  "\<exists>req. deSerializeRequest buffer = Inr req \<and>
     (case req of None \<Rightarrow> True
      | Some r \<Rightarrow> command r \<noteq> UNKNOWN \<and> remote_path r \<noteq> '''' \<and>
          (\<exists>b. buffer = Some b \<and> set (remote_path r) \<subseteq> set b) \<and>
          0 \<le> data_len r \<and> data_len r \<le> LONG_MAX)"
proof (cases buffer)
  case None
  then show ?thesis by (simp add: deSerializeRequest_def)
next
  case (Some b)
  have sub: "set t \<subseteq> set s \<and> set r \<subseteq> set s" if "strtok d s = Some (t, r)" for d s t r
    using that by (auto simp: strtok_def Let_def split: if_splits
        dest!: set_takeWhileD in_set_dropD set_dropWhileD)
  show ?thesis
    using strtol_bounds Some
    by (auto simp: deSerializeRequest_tokens createRequestFromParts_eq
        split: option.splits dest!: sub)
qed

text \<open>
  C25. Decoding any string of the client is safe: it never uses an uninitialised variable, and
  the result is \<open>NULL\<close> or a request with a known command, a non-empty path that is a part of
  the string and a length in the range of \<open>long\<close> that is not negative.
\<close>

theorem deSerializeRequest_safe:
  "\<exists>req. deSerializeRequest buffer = Inr req \<and>
     (case req of None \<Rightarrow> True
      | Some r \<Rightarrow> command r \<noteq> UNKNOWN \<and> remote_path r \<noteq> '''' \<and>
          (\<exists>b. buffer = Some b \<and> set (remote_path r) \<subseteq> set b) \<and>
          0 \<le> data_len r \<and> data_len r \<le> LONG_MAX)"
  by (rule deSerializeRequest_sound)

section \<open>Requests on the wire\<close>

definition request_text :: "request_t \<Rightarrow> string" where
  \<comment> \<open>the request on the wire\<close>
  "request_text r =
     (case command_string (command r) of
        Inl _ \<Rightarrow> ''''
      | Inr ct \<Rightarrow> ct @ '','' @ show_int (data_len r) @ '','' @ remote_path r)"

lemma serializeRequest_text:
  assumes "command r \<noteq> UNKNOWN" and "0 \<le> data_len r" and "\<not> power_of_ten (nat (data_len r))"
  shows "serializeRequest (Some r) = Inr (Some (request_text r))"
proof -
  from assms(1) obtain ct where "command_string (command r) = Inr ct"
    using command_string_defined by blast
  with serializeRequest_eq [OF this assms(2)] assms(3) show ?thesis by (simp add: request_text_def)
qed

end
