(* ===== verification/Client.thy ===== *)
theory Client
  imports Arg_Parser Protocol
begin

text \<open>
  \<open>client/client.c\<close>: one run of the client. The results of \<open>socket\<close> and \<open>connect\<close> are
  arguments of \<open>main\<close>; its result is the exit code, the text that it shows for the response,
  and its files and its socket at the end. \<open>exit(n)\<close> in a function is \<open>Inl (ExitWith n)\<close>; \<open>main\<close>
  returning is \<open>Inr\<close>.
\<close>

section \<open>The code\<close>

definition sendRequest :: "nat \<Rightarrow> command_t \<Rightarrow> world \<Rightarrow> stop + world" where
  "sendRequest n cmd w =
     (case createRequest (Some cmd) (files w) of
        None \<Rightarrow> Inl (ExitWith (- 1))
      | Some req \<Rightarrow>
          andThen (serializeRequest (Some req)) (\<lambda>buffer.
            (case buffer of
               None \<Rightarrow> Inl (ExitWith (- 1))
             | Some text \<Rightarrow>
                 (let (status, s1) = send text (conn w) in
                  if status < 0 then Inl (ExitWith (- 1))
                  else if c_type cmd = WRITE then
                    andThen (sendFileContents n (local_path cmd) (data_len req) (w\<lparr>conn := s1\<rparr>))
                      (\<lambda>(_, w'). Inr w')
                  else Inr (w\<lparr>conn := s1\<rparr>)))))"

abbreviation newline :: string where
  "newline \<equiv> [CHR 0x0A]"

definition displayServerResponse :: "response_t \<Rightarrow> string" where
  \<comment> \<open>the text on the console\<close>
  "displayServerResponse response =
     (if status response then newline @ ''SUCCESS'' @ newline
      else if equals (Some (message response)) (Some ''NULL'') \<or> equals (Some (message response)) (Some '''')
        then newline @ ''ENCOUNTERED UNKNOWN ERROR(S)'' @ newline
      else newline @ ''ENCOUNTERED ERROR(S) - '' @ message response @ newline) @
     (if res_data_len response \<noteq> 0 then ''    BYTES SENT = '' @ show_int (res_data_len response) else '''')"

definition handleGetResponse :: "nat \<Rightarrow> string \<Rightarrow> response_t \<Rightarrow> world \<Rightarrow> stop + string \<times> world" where
  "handleGetResponse n filepath response w =
     (let source_length = res_data_len response in
      if source_length \<le> 0 then Inr (displayServerResponse response, w)
      else andThen (receiveFileContents n filepath source_length w) (\<lambda>(_, w'). Inr ('''', w')))"

definition receiveResponse :: "socket \<Rightarrow> stop + response_t option \<times> socket" where
  \<comment> \<open>receiving and decoding the response in \<open>main\<close>; no response is the early exit\<close>
  "receiveResponse s =
     andThen (recv MAX_BUFF_SIZE s) (\<lambda>(status, bytes, s').
       if status < 0 then Inr (None, s')
       else
         (let buffer = bytes @ replicate (MAX_BUFF_SIZE - length bytes) NUL in
          andThen (cstring_in buffer) (\<lambda>text.
          andThen (deSerializeResponse (Some text)) (\<lambda>res. Inr (res, s')))))"

definition close_conn :: "world \<Rightarrow> world" where
  "close_conn w = w\<lparr>conn := close_socket (conn w)\<rparr>"

definition main_client :: "nat \<Rightarrow> string list \<Rightarrow> int \<Rightarrow> int \<Rightarrow> world \<Rightarrow> stop + int \<times> string \<times> world" where
  "main_client n argv socket_descriptor connect_status w =
     andThen (argParser argv) (\<lambda>parsed.
       (case parsed of
          None \<Rightarrow> Inr (- 1, '''', w)
        | Some cmd \<Rightarrow>
            if socket_descriptor < 0 then Inr (- 1, '''', w)
            else if connect_status < 0 then Inr (- 1, '''', close_conn w)
            else
              andThen (sendRequest n cmd w) (\<lambda>w1.
              andThen (receiveResponse (conn w1)) (\<lambda>(response, s2).
                (let w2 = w1\<lparr>conn := s2\<rparr> in
                 case response of
                   None \<Rightarrow> Inr (- 1, '''', close_conn w2)
                 | Some res \<Rightarrow>
                     (case c_type cmd of
                        WRITE \<Rightarrow> Inr (0, displayServerResponse res, close_conn w2)
                      | RM \<Rightarrow> Inr (0, displayServerResponse res, close_conn w2)
                      | GET \<Rightarrow>
                          andThen (handleGetResponse n (local_path cmd) res w2) (\<lambda>(shown, w3).
                            Inr (0, shown, close_conn w3))
                      | LS \<Rightarrow> Inr (0, '''', close_conn w2)
                      | UNKNOWN \<Rightarrow> Inr (0, '''', close_conn w2)))))))"

section \<open>Sending the request\<close>

definition request_of :: "command_t \<Rightarrow> int \<Rightarrow> request_t" where
  "request_of cmd l = \<lparr>command = c_type cmd, remote_path = cmd_remote_path cmd, data_len = l\<rparr>"

lemma createRequest_write:
  assumes "c_type cmd = WRITE" and "wf_fs fs" and "rel_path cs" and "local_path cmd = join cs"
    and "node_at fs (cwd fs @ cs) = Some (File c)"
  shows "createRequest (Some cmd) fs = Some (request_of cmd (int (length c)))"
  using getFileSize_join [OF assms(2,3)] assms(1,4,5)
  by (simp add: createRequest_def NUM_COMMANDS_def Let_def request_of_def)

lemma createRequest_other:
  assumes "c_type cmd \<noteq> WRITE" and "c_type cmd \<noteq> UNKNOWN"
  shows "createRequest (Some cmd) fs = Some (request_of cmd 0)"
  using assms by (cases "c_type cmd") (simp_all add: createRequest_def NUM_COMMANDS_def request_of_def)

lemma sendRequest_write:
  assumes "c_type cmd = WRITE" and "wf_fs (files w)" and "rel_path cs" and "local_path cmd = join cs"
    and "node_at (files w) (cwd (files w) @ cs) = Some (File c)"
    and "sends_whole (conn w)" and "\<not> power_of_ten (length c)" and "length c < n * MAX_BUFF_SIZE"
  shows "\<exists>s'. sendRequest n cmd w = Inr (w\<lparr>conn := s'\<rparr>) \<and> inbox s' = inbox (conn w) \<and>
    outbox s' = outbox (conn w) @ request_text (request_of cmd (int (length c))) @ c"
proof -
  let ?r = "request_of cmd (int (length c))"
  let ?s1 = "(conn w)\<lparr>outbox := outbox (conn w) @ request_text ?r\<rparr>"
  have ser: "serializeRequest (Some ?r) = Inr (Some (request_text ?r))"
    using assms(1,7) by (intro serializeRequest_text) (simp_all add: request_of_def)
  have "sends_ok ?s1" using assms(6) by (simp add: sends_whole_ok)
  then obtain s' where "sendFileContents n (join cs) (int (length c)) (w\<lparr>conn := ?s1\<rparr>) =
      Inr (True, w\<lparr>conn := s'\<rparr>)" "outbox s' = outbox ?s1 @ c" "inbox s' = inbox (conn w)"
    using sendFileContents_file [of "w\<lparr>conn := ?s1\<rparr>" cs c n "int (length c)"] assms by auto
  with createRequest_write [OF assms(1-5)] ser send_whole [OF assms(6)] assms(1,4) show ?thesis
    by (intro exI [of _ s']) (simp add: sendRequest_def, simp add: request_of_def)
qed

lemma sendRequest_other:
  assumes "c_type cmd \<noteq> WRITE" and "c_type cmd \<noteq> UNKNOWN" and "sends_whole (conn w)"
  shows "sendRequest n cmd w =
    Inr (w\<lparr>conn := (conn w)\<lparr>outbox := outbox (conn w) @ request_text (request_of cmd 0)\<rparr>\<rparr>)"
proof -
  have "serializeRequest (Some (request_of cmd 0)) = Inr (Some (request_text (request_of cmd 0)))"
    using assms(2) by (intro serializeRequest_text) (simp_all add: request_of_def)
  with createRequest_other [OF assms(1,2)] assms(1) send_whole [OF assms(3)] show ?thesis
    by (simp add: sendRequest_def)
qed

section \<open>Receiving the response\<close>

lemma cstring_in_prefix:
  "length t < n \<Longrightarrow> cstring_in (t @ replicate (n - length t) NUL) = Inr (takeWhile (\<lambda>c. c \<noteq> NUL) t)"
proof (cases "NUL \<in> set t")
  case True
  then show ?thesis by (simp add: cstring_in_def takeWhile_append1 [of NUL])
next
  case False
  assume "length t < n"
  then have "cstring_in (t @ replicate (n - length t) NUL) = Inr t"
    using cstring_in_padded [of t "n - length t"] False by (simp add: cstr_def)
  moreover have all: "takeWhile (\<lambda>c. c \<noteq> NUL) t = t"
    using False by (auto simp: takeWhile_eq_all_conv)
  ultimately show ?thesis by (simp only: all)
qed

lemma receiveResponse_piece:
  assumes "inbox s = Arrive b # evs" and "b \<noteq> []" and "length b < MAX_BUFF_SIZE"
  shows "receiveResponse s =
    andThen (deSerializeResponse (Some (takeWhile (\<lambda>c. c \<noteq> NUL) b))) (\<lambda>res. Inr (res, s\<lparr>inbox := evs\<rparr>))"
  using assms cstring_in_prefix [OF assms(3)]
  by (simp add: receiveResponse_def recv_def Let_def)

lemma deSerializeResponse_text:
  assumes "0 \<le> l" and "l \<le> LONG_MAX" and "m \<noteq> ''''" and "hd m \<noteq> CHR '',''"
  shows "deSerializeResponse (Some ((if ok then ''1'' else ''0'') @ '','' @ show_int l @ '','' @ m)) =
    Inr (Some \<lparr>status = ok, message = takeWhile (\<lambda>c. c \<noteq> CHR '','') m, res_data_len = l\<rparr>)"
proof -
  let ?t = "takeWhile (\<lambda>c. c \<noteq> CHR '','') m"
  have "?t \<noteq> ''''" using assms(3,4) by (cases m) simp_all
  moreover have "\<exists>r. strtok (CHR '','') m = Some (?t, r)"
    using assms(3,4) by (cases m) (simp_all add: strtok_def Let_def)
  ultimately show ?thesis
    using assms(1,2) by (auto simp: deSerializeResponse_tokens createResponse_def)
qed

lemma receiveResponse_text:
  assumes "inbox s = Arrive ((if ok then ''1'' else ''0'') @ '','' @ show_int l @ '','' @ m) # evs"
    and "length ((if ok then ''1'' else ''0'') @ '','' @ show_int l @ '','' @ m) < MAX_BUFF_SIZE"
    and "0 \<le> l" and "l \<le> LONG_MAX" and "m \<noteq> ''''" and "hd m \<noteq> CHR '',''" and "hd m \<noteq> NUL"
  shows "receiveResponse s =
    Inr (Some \<lparr>status = ok, message = takeWhile (\<lambda>c. c \<noteq> CHR '','' \<and> c \<noteq> NUL) m, res_data_len = l\<rparr>,
         s\<lparr>inbox := evs\<rparr>)"
proof -
  let ?b = "(if ok then ''1'' else ''0'') @ '','' @ show_int l @ '','' @ m"
  let ?m = "takeWhile (\<lambda>c. c \<noteq> NUL) m"
  have "takeWhile (\<lambda>c. c \<noteq> NUL) ?b = (if ok then ''1'' else ''0'') @ '','' @ show_int l @ '','' @ ?m"
    by (auto simp: takeWhile_append)
  moreover have "?m \<noteq> ''''" "hd ?m = hd m" using assms(5,7) by (cases m; simp)+
  moreover have "takeWhile (\<lambda>c. c \<noteq> CHR '','') ?m = takeWhile (\<lambda>c. c \<noteq> CHR '','' \<and> c \<noteq> NUL) m"
    by (induction m) auto
  ultimately show ?thesis
    using receiveResponse_piece [OF assms(1) _ assms(2)] deSerializeResponse_text [OF assms(3,4), of ?m ok] assms(6)
    by simp
qed

section \<open>Runs of the client\<close>

lemma client_write:
  assumes "argParser argv = Inr (Some cmd)" and "c_type cmd = WRITE" and "0 \<le> sd" and "0 \<le> cs"
    and "wf_fs (files w)" and "rel_path path" and "local_path cmd = join path"
    and "node_at (files w) (cwd (files w) @ path) = Some (File c)"
    and "sends_whole (conn w)" and "\<not> power_of_ten (length c)" and "length c < n * MAX_BUFF_SIZE"
    and "inbox (conn w) = Arrive ((if ok then ''1'' else ''0'') @ '','' @ show_int 0 @ '','' @ m) # evs"
    and "length m < MAX_BUFF_SIZE - 4" and "m \<noteq> ''''" and "CHR '','' \<notin> set m" and "cstr m"
  shows "\<exists>s'. main_client n argv sd cs w =
      Inr (0, displayServerResponse \<lparr>status = ok, message = m, res_data_len = 0\<rparr>,
           w\<lparr>conn := s'\<rparr>) \<and>
    outbox s' = outbox (conn w) @ request_text (request_of cmd (int (length c))) @ c \<and> is_closed s'"
proof -
  obtain s' where send: "sendRequest n cmd w = Inr (w\<lparr>conn := s'\<rparr>)"
    and s': "inbox s' = inbox (conn w)"
      "outbox s' = outbox (conn w) @ request_text (request_of cmd (int (length c))) @ c"
    using sendRequest_write [OF assms(2,5-11)] by blast
  have m: "takeWhile (\<lambda>c. c \<noteq> CHR '','' \<and> c \<noteq> NUL) m = m" "hd m \<noteq> CHR '',''" "hd m \<noteq> NUL"
    using assms(15,16) hd_in_set [OF assms(14)] by (auto simp: takeWhile_eq_all_conv cstr_def)
  have "receiveResponse s' = Inr (Some \<lparr>status = ok, message = m, res_data_len = 0\<rparr>, s'\<lparr>inbox := evs\<rparr>)"
    using receiveResponse_text [of s' ok 0 m evs] s'(1) assms(12-14) m
    by (simp add: LONG_MAX_def)
  with send assms(1-4) s'(2) show ?thesis
    by (intro exI [of _ "s'\<lparr>inbox := evs, is_closed := True\<rparr>"])
      (simp add: main_client_def close_conn_def close_socket_def)
qed

text \<open>
  A \<open>WRITE\<close> run of the client: it sends the request with the length of the local file and
  then exactly the bytes of the file; when a response arrives it shows its status and message and
  exits with 0, and its files are unchanged.
\<close>

theorem main_client_write:
  assumes "argParser argv = Inr (Some cmd)" and "c_type cmd = WRITE" and "0 \<le> sd" and "0 \<le> cs"
    and "wf_fs (files w)" and "rel_path path" and "local_path cmd = join path"
    and "node_at (files w) (cwd (files w) @ path) = Some (File c)"
    and "sends_whole (conn w)" and "\<not> power_of_ten (length c)" and "length c < n * MAX_BUFF_SIZE"
    and "inbox (conn w) = Arrive ((if ok then ''1'' else ''0'') @ '','' @ show_int 0 @ '','' @ m) # evs"
    and "length m < MAX_BUFF_SIZE - 4" and "m \<noteq> ''''" and "CHR '','' \<notin> set m" and "cstr m"
  shows "\<exists>s'. main_client n argv sd cs w =
      Inr (0, displayServerResponse \<lparr>status = ok, message = m, res_data_len = 0\<rparr>,
           w\<lparr>conn := s'\<rparr>) \<and>
    outbox s' = outbox (conn w) @ request_text (request_of cmd (int (length c))) @ c \<and> is_closed s'"
  using assms by (rule client_write)

lemma client_get:
  assumes "argParser argv = Inr (Some cmd)" and "c_type cmd = GET" and "0 \<le> sd" and "0 \<le> cs"
    and "wf_fs (files w)" and "rel_path path" and "local_path cmd = join path"
    and "node_at (files w) (cwd (files w) @ butlast path) = Some Dir"
    and "node_at (files w) (cwd (files w) @ path) \<noteq> Some Dir"
    and "cwd (files w) @ path \<notin> set (readonly (files w))" and "sends_whole (conn w)"
    and "inbox (conn w) = Arrive (''1,'' @ show_int (int (length (concat ps))) @ '',OK'') # map Arrive ps @ evs"
    and "concat ps \<noteq> []" and "length (concat ps) \<le> space (files w)" and "length (concat ps) \<le> n"
    and "int (length (concat ps)) \<le> LONG_MAX"
    and "length (''1,'' @ show_int (int (length (concat ps))) @ '',OK'') < MAX_BUFF_SIZE"
  shows "\<exists>w'. main_client n argv sd cs w = Inr (0, '''', w') \<and>
    node_at (files w') = (node_at (files w))(cwd (files w) @ path \<mapsto> File (concat ps)) \<and>
    outbox (conn w') = outbox (conn w) @ request_text (request_of cmd 0) \<and> is_closed (conn w')"
proof -
  let ?s1 = "(conn w)\<lparr>outbox := outbox (conn w) @ request_text (request_of cmd 0)\<rparr>"
  let ?l = "int (length (concat ps))"
  have send: "sendRequest n cmd w = Inr (w\<lparr>conn := ?s1\<rparr>)"
    using assms(2,11) by (intro sendRequest_other) simp_all
  let ?s2 = "?s1\<lparr>inbox := map Arrive ps @ evs\<rparr>"
  have resp: "receiveResponse ?s1 = Inr (Some \<lparr>status = True, message = ''OK'', res_data_len = ?l\<rparr>, ?s2)"
    using receiveResponse_text [of ?s1 True ?l "''OK''" "map Arrive ps @ evs"] assms(12,16,17) by simp
  have pos: "\<not> ?l \<le> 0" using assms(13) by (simp del: concat_eq_Nil_conv)
  obtain fs' ps' where "receiveFileContents n (join path) ?l (w\<lparr>conn := ?s2\<rparr>) =
      Inr (True, w\<lparr>files := fs', conn := ?s2\<lparr>inbox := map Arrive ps' @ evs\<rparr>\<rparr>)"
    and "node_at fs' = (node_at (files w))(cwd (files w) @ path \<mapsto> File (concat ps))"
    using receiveFileContents_file [of "w\<lparr>conn := ?s2\<rparr>" path ps evs ?l n] assms(5-10,14,15) by auto
  with send resp pos assms(1-4,7) show ?thesis
    by (simp add: main_client_def handleGetResponse_def close_conn_def close_socket_def Let_def
        del: concat_eq_Nil_conv)
qed

text \<open>
  A \<open>GET\<close> run of the client, when the response and the contents of the file come in
  different pieces: the local file holds exactly the bytes that the server sent, nothing else of
  the local tree has changed, and the exit code is 0.
\<close>

theorem main_client_get:
  assumes "argParser argv = Inr (Some cmd)" and "c_type cmd = GET" and "0 \<le> sd" and "0 \<le> cs"
    and "wf_fs (files w)" and "rel_path path" and "local_path cmd = join path"
    and "node_at (files w) (cwd (files w) @ butlast path) = Some Dir"
    and "node_at (files w) (cwd (files w) @ path) \<noteq> Some Dir"
    and "cwd (files w) @ path \<notin> set (readonly (files w))" and "sends_whole (conn w)"
    and "inbox (conn w) = Arrive (''1,'' @ show_int (int (length (concat ps))) @ '',OK'') # map Arrive ps @ evs"
    and "concat ps \<noteq> []" and "length (concat ps) \<le> space (files w)" and "length (concat ps) \<le> n"
    and "int (length (concat ps)) \<le> LONG_MAX"
    and "length (''1,'' @ show_int (int (length (concat ps))) @ '',OK'') < MAX_BUFF_SIZE"
  shows "\<exists>w'. main_client n argv sd cs w = Inr (0, '''', w') \<and>
    node_at (files w') = (node_at (files w))(cwd (files w) @ path \<mapsto> File (concat ps)) \<and>
    outbox (conn w') = outbox (conn w) @ request_text (request_of cmd 0) \<and> is_closed (conn w')"
  using client_get [OF assms] .

text \<open>
  C35. When the response to a \<open>GET\<close> and the contents of the file come in the same piece, the
  client never returns: it takes the contents for a part of the message, and waits for bytes
  that have already come, also after the server has closed the connection.
\<close>

theorem main_client_get_coalesced:
  assumes "argParser argv = Inr (Some cmd)" and "c_type cmd = GET" and "0 \<le> sd" and "0 \<le> cs"
    and "wf_fs (files w)" and "rel_path path" and "local_path cmd = join path"
    and "node_at (files w) (cwd (files w) @ butlast path) = Some Dir"
    and "node_at (files w) (cwd (files w) @ path) \<noteq> Some Dir"
    and "cwd (files w) @ path \<notin> set (readonly (files w))" and "sends_whole (conn w)"
    and "inbox (conn w) = Arrive (''1,'' @ show_int (int (length c)) @ '',OK'' @ c) # PeerClosed # evs"
    and "c \<noteq> []" and "int (length c) \<le> LONG_MAX"
    and "length (''1,'' @ show_int (int (length c)) @ '',OK'' @ c) < MAX_BUFF_SIZE"
  shows "main_client n argv sd cs w = Inl OutOfFuel"
proof -
  let ?s1 = "(conn w)\<lparr>outbox := outbox (conn w) @ request_text (request_of cmd 0)\<rparr>"
  let ?l = "int (length c)"
  let ?k = "cwd (files w) @ path"
  have send: "sendRequest n cmd w = Inr (w\<lparr>conn := ?s1\<rparr>)"
    using assms(2,11) by (intro sendRequest_other) simp_all
  let ?s2 = "?s1\<lparr>inbox := PeerClosed # evs\<rparr>"
  obtain m where resp: "receiveResponse ?s1 = Inr (Some \<lparr>status = True, message = m, res_data_len = ?l\<rparr>, ?s2)"
    using receiveResponse_text [of ?s1 True ?l "''OK'' @ c" "PeerClosed # evs"] assms(12,14,15) by simp
  have op: "fopen_wb (files w) (join path) = Some (?k, put_node ?k (File []) (files w))"
    using fopen_wb_join [OF assms(5,6)] assms(8-10) by simp
  have "receive_loop n ?l True ?k (put_node ?k (File []) (files w)) ?s2 = Inl OutOfFuel"
    by (rule receive_loop_PeerClosed [where d = "[]"]) (use assms(13) in simp_all)
  with send resp op assms(1-4,7,13) show ?thesis
    by (simp add: main_client_def handleGetResponse_def receiveFileContents_def)
qed

text \<open>
  A \<open>GET\<close> of an empty file ends with exit code 0 and a message of success, but no local
  file is made and an old one keeps its contents.
\<close>

theorem main_client_get_empty:
  assumes "argParser argv = Inr (Some cmd)" and "c_type cmd = GET" and "0 \<le> sd" and "0 \<le> cs"
    and "sends_whole (conn w)" and "inbox (conn w) = Arrive ''1,0,OK'' # evs"
  shows "\<exists>w'. main_client n argv sd cs w = Inr (0, newline @ ''SUCCESS'' @ newline, w') \<and>
    files w' = files w"
proof -
  let ?s1 = "(conn w)\<lparr>outbox := outbox (conn w) @ request_text (request_of cmd 0)\<rparr>"
  have send: "sendRequest n cmd w = Inr (w\<lparr>conn := ?s1\<rparr>)"
    using assms(2,5) by (intro sendRequest_other) simp_all
  have "receiveResponse ?s1 =
      Inr (Some \<lparr>status = True, message = ''OK'', res_data_len = 0\<rparr>, ?s1\<lparr>inbox := evs\<rparr>)"
    using receiveResponse_text [of ?s1 True 0 "''OK''" evs] assms(6)
    by (simp add: LONG_MAX_def MAX_BUFF_SIZE_def)
  with send assms(1-4) show ?thesis
    by (simp add: main_client_def handleGetResponse_def displayServerResponse_def close_conn_def)
qed

lemma sendFile_loop_Inl: "sendFile_loop n f s = Inl e \<Longrightarrow> e = OutOfFuel"
  by (induction n arbitrary: f s) (auto simp: Let_def split: prod.splits if_splits)

lemma recv_events_Inl: "recv_events n evs = Inl e \<Longrightarrow> e = Blocked"
  by (induction n evs rule: recv_events.induct) (auto split: if_splits)

lemma receive_loop_Inl: "receive_loop n l ok k fs s = Inl e \<Longrightarrow> e = OutOfFuel \<or> e = Blocked"
proof (induction n arbitrary: l ok fs s)
  case 0
  then show ?case by (subst (asm) receive_loop.simps) (simp split: if_splits)
next
  case (Suc n)
  then show ?case
    by (subst (asm) receive_loop.simps)
      (auto simp: recv_def andThen_eq_Inl_conv andThen_eq_Inr_conv split: if_splits prod.splits
        dest: recv_events_Inl)
qed

lemma receiveFileContents_Inl: "receiveFileContents n p l w = Inl e \<Longrightarrow> e = OutOfFuel \<or> e = Blocked"
  by (auto simp: receiveFileContents_def andThen_eq_Inl_conv split: option.splits prod.splits
      dest: receive_loop_Inl)

lemma sendFileContents_Inl: "sendFileContents n p l w = Inl e \<Longrightarrow> e = OutOfFuel"
  by (auto simp: sendFileContents_def andThen_eq_Inl_conv split: option.splits prod.splits
      dest: sendFile_loop_Inl)

lemma serializeRequest_exit: "serializeRequest r \<noteq> Inl (ExitWith code)"
  by (auto simp: serializeRequest_def num_digits_def store_string_def command_string_def
      andThen_eq_Inl_conv Let_def split: option.splits if_splits)

lemma sendRequest_exit:
  assumes "sendRequest n cmd w = Inl (ExitWith code)"
  shows "code = - 1"
proof (cases "createRequest (Some cmd) (files w)")
  case None
  with assms show ?thesis by (simp add: sendRequest_def)
next
  case req: (Some req)
  show ?thesis
  proof (cases "serializeRequest (Some req)")
    case (Inl e)
    with assms req serializeRequest_exit [of "Some req" code] show ?thesis by (simp add: sendRequest_def)
  next
    case (Inr buffer)
    obtain st s1 where send: "\<And>t. buffer = Some t \<Longrightarrow> send t (conn w) = (st, s1)"
      by (cases buffer) (auto, metis surj_pair)
    from assms req Inr send show ?thesis
      by (cases buffer)
        (auto simp: sendRequest_def andThen_eq_Inl_conv split: if_splits dest: sendFileContents_Inl)
  qed
qed

lemma receiveResponse_exit: "receiveResponse s \<noteq> Inl (ExitWith code)"
  by (auto simp: receiveResponse_def recv_def cstring_in_def deSerializeResponse_tokens Let_def
      andThen_eq_Inl_conv split: option.splits prod.splits if_splits dest: recv_events_Inl)

lemma handleGetResponse_exit: "handleGetResponse n p res w \<noteq> Inl (ExitWith code)"
  by (auto simp: handleGetResponse_def Let_def andThen_eq_Inl_conv split: if_splits prod.splits
      dest: receiveFileContents_Inl)

lemma main_client_Inr:
  assumes "main_client n argv sd cs w = Inr (code, shown, w')"
  shows "code = 0 \<and> 0 \<le> sd \<and> 0 \<le> cs \<or> code = - 1 \<and> shown = ''''"
proof -
  from assms obtain parsed where parsed: "argParser argv = Inr parsed"
    by (auto simp: main_client_def andThen_eq_Inr_conv)
  show ?thesis
  proof (cases parsed)
    case None
    with assms parsed show ?thesis by (simp add: main_client_def)
  next
    case (Some cmd)
    show ?thesis
    proof (cases "sd < 0 \<or> cs < 0")
      case True
      with assms parsed Some show ?thesis by (auto simp: main_client_def split: if_splits)
    next
      case False
      with assms parsed Some obtain w1 res s2 where run: "sendRequest n cmd w = Inr w1"
        "receiveResponse (conn w1) = Inr (res, s2)"
        by (auto simp: main_client_def andThen_eq_Inr_conv)
      show ?thesis
      proof (cases res)
        case None
        with assms parsed Some False run show ?thesis by (simp add: main_client_def Let_def)
      next
        case res: (Some r)
        with assms parsed Some False run show ?thesis
          by (cases "c_type cmd") (auto simp: main_client_def andThen_eq_Inr_conv Let_def)
      qed
    qed
  qed
qed

lemma main_client_Inl:
  assumes "main_client n argv sd cs w = Inl (ExitWith code)"
  shows "argParser argv = Inl (ExitWith code) \<or>
    (\<exists>cmd. argParser argv = Inr (Some cmd)) \<and> code = - 1"
proof (cases "argParser argv")
  case (Inl e)
  with assms show ?thesis by (simp add: main_client_def)
next
  case (Inr parsed)
  with assms obtain cmd where cmd: "parsed = Some cmd" by (cases parsed) (auto simp: main_client_def)
  have "\<not> (sd < 0 \<or> cs < 0)" using assms Inr cmd by (auto simp: main_client_def split: if_splits)
  then have run: "sendRequest n cmd w = Inl (ExitWith code) \<or> (\<exists>w1 res s2. sendRequest n cmd w = Inr w1 \<and>
      receiveResponse (conn w1) = Inr (res, s2) \<and> (\<exists>r. res = Some r \<and> c_type cmd = GET \<and>
        handleGetResponse n (local_path cmd) r (w1\<lparr>conn := s2\<rparr>) = Inl (ExitWith code)))"
    using assms Inr cmd receiveResponse_exit
    by (cases "c_type cmd")
      (auto simp: main_client_def andThen_eq_Inl_conv Let_def split: option.splits)
  with Inr cmd sendRequest_exit handleGetResponse_exit show ?thesis by blast
qed

text \<open>
  How the client ends: every run that ends returns 0 or -1 from \<open>main\<close>, with 0 only if a
  connection was made and a response was decoded; a run that is left by \<open>exit\<close> has code 1 for
  a bad command line and -1 for a request that could not be made.
\<close>

theorem main_client_exit:
  "case main_client n argv sd cs w of
     Inr (code, shown, w') \<Rightarrow> code = 0 \<and> 0 \<le> sd \<and> 0 \<le> cs \<or> code = - 1 \<and> shown = ''''
   | Inl (ExitWith code) \<Rightarrow> code = 1 \<and> argParser argv = Inl (ExitWith 1) \<or>
       code = - 1 \<and> (\<exists>cmd. argParser argv = Inr (Some cmd))
   | Inl _ \<Rightarrow> True"
proof (cases "main_client n argv sd cs w")
  case (Inr r)
  obtain code shown w' where r: "r = (code, shown, w')" by (cases r) auto
  with Inr main_client_Inr [of n argv sd cs w code shown w'] show ?thesis by simp
next
  case (Inl e)
  show ?thesis
  proof (cases e)
    case (ExitWith code)
    with Inl have "main_client n argv sd cs w = Inl (ExitWith code)" by simp
    then have "argParser argv = Inl (ExitWith code) \<or>
        (\<exists>cmd. argParser argv = Inr (Some cmd)) \<and> code = - 1"
      by (rule main_client_Inl)
    with argParser_stops Inl ExitWith show ?thesis by auto
  qed (simp_all add: Inl)
qed

end
