(* ===== verification/Ownership.thy ===== *)
theory Ownership
  imports Client
begin

text \<open>
  Memory from \<open>malloc\<close>: the functions of \<open>protocol.c\<close>, \<open>command.c\<close> and \<open>client/client.c\<close> that allocate
  and free blocks, over an explicit heap, and what they leave allocated. \<open>malloc\<close> is taken to succeed; a use of a freed block
  and a second \<open>free\<close> of it stop the run. The suffix \<open>_m\<close> marks the functions that the other theories model
  without a heap.
\<close>

section \<open>Blocks\<close>

datatype cell =
    Raw  \<comment> \<open>from \<open>malloc\<close>, not yet written\<close>
  | StrCell string
  | ReqCell command_type nat "int option"
  | ResCell "bool option" nat "int option"
  | CmdCell command_type nat nat nat
  | ArgCell int "int option"

type_synonym heap = "cell option list"  \<comment> \<open>a freed block is \<open>None\<close>\<close>

definition live :: "heap \<Rightarrow> nat set" where
  "live h = {a. a < length h \<and> h ! a \<noteq> None}"

definition malloc :: "cell \<Rightarrow> heap \<Rightarrow> nat \<times> heap" where
  "malloc c h = (length h, h @ [Some c])"

definition strdup :: "string \<Rightarrow> heap \<Rightarrow> nat \<times> heap" where
  "strdup s h = malloc (StrCell s) h"

definition load :: "nat \<Rightarrow> heap \<Rightarrow> stop + cell" where
  "load a h = (if a < length h then (case h ! a of None \<Rightarrow> Inl UseAfterFree | Some c \<Rightarrow> Inr c) else Inl UseAfterFree)"

definition free :: "nat \<Rightarrow> heap \<Rightarrow> stop + heap" where
  \<comment> \<open>freeing a block twice is undefined, too\<close>
  "free a h = andThen (load a h) (\<lambda>_. Inr (h[a := None]))"

section \<open>The code\<close>

definition freeRequest :: "nat option \<Rightarrow> heap \<Rightarrow> stop + heap" where
  "freeRequest req h =
     (case req of
        None \<Rightarrow> Inr h
      | Some a \<Rightarrow>
          andThen (load a h) (\<lambda>c.
            (case c of
               ReqCell _ path _ \<Rightarrow> andThen (free path h) (free a)
             | _ \<Rightarrow> Inl Indeterminate)))"

definition freeResponse :: "nat option \<Rightarrow> heap \<Rightarrow> stop + heap" where
  "freeResponse res h =
     (case res of
        None \<Rightarrow> Inr h
      | Some a \<Rightarrow>
          andThen (load a h) (\<lambda>c.
            (case c of
               ResCell _ msg _ \<Rightarrow> andThen (free msg h) (free a)
             | _ \<Rightarrow> Inl Indeterminate)))"

definition freeCommandStruct :: "nat option \<Rightarrow> heap \<Rightarrow> stop + heap" where
  "freeCommandStruct cmd h =
     (case cmd of
        None \<Rightarrow> Inr h
      | Some a \<Rightarrow>
          andThen (load a h) (\<lambda>c.
            (case c of
               CmdCell _ ip loc rem \<Rightarrow> andThen (free ip h) (\<lambda>h1. andThen (free loc h1) (free rem))
             | _ \<Rightarrow> Inl Indeterminate)))"

definition createRequest_m :: "command_t option \<Rightarrow> filesys \<Rightarrow> heap \<Rightarrow> stop + nat option \<times> heap" where
  "createRequest_m cmd fs h =
     (case cmd of
        None \<Rightarrow> Inr (None, h)
      | Some c \<Rightarrow>
          if c_type c = UNKNOWN \<or> NUM_COMMANDS < enum_val (c_type c) then Inr (None, h)
          else
            (let (req, h1) = malloc Raw h;
                 (path, h2) = strdup (cmd_remote_path c) h1;
                 h3 = h2[req := Some (ReqCell (c_type c) path None)]
             in if c_type c = WRITE then
                  (let len = getFileSize fs (local_path c)
                   in if len < 0 then andThen (freeRequest (Some req) h3) (\<lambda>h4. Inr (None, h4))
                      else Inr (Some req, h3[req := Some (ReqCell (c_type c) path (Some len))]))
                else Inr (Some req, h3[req := Some (ReqCell (c_type c) path (Some 0))])))"

definition createRequestFromParts_m ::
  "command_type \<Rightarrow> string option \<Rightarrow> int \<Rightarrow> heap \<Rightarrow> nat option \<times> heap" where
  "createRequestFromParts_m type path data_length h =
     (if type = UNKNOWN \<or> NUM_COMMANDS < enum_val type then (None, h)
      else (case path of
         None \<Rightarrow> (None, h)
       | Some p \<Rightarrow>
           if length p = 0 then (None, h)
           else if data_length < 0 then (None, h)
           else
             (let (req, h1) = malloc Raw h; (copy, h2) = strdup p h1
              in (Some req, h2[req := Some (ReqCell type copy (Some data_length))]))))"

definition load_request :: "nat \<Rightarrow> heap \<Rightarrow> stop + request_t" where
  \<comment> \<open>the struct that a pointer points to\<close>
  "load_request a h =
     andThen (load a h) (\<lambda>c.
       (case c of
          ReqCell t p (Some l) \<Rightarrow>
            andThen (load p h) (\<lambda>s.
              (case s of
                 StrCell path \<Rightarrow> Inr \<lparr>command = t, remote_path = path, data_len = l\<rparr>
               | _ \<Rightarrow> Inl Indeterminate))
        | _ \<Rightarrow> Inl Indeterminate))"

definition load_response :: "nat \<Rightarrow> heap \<Rightarrow> stop + response_t" where
  "load_response a h =
     andThen (load a h) (\<lambda>c.
       (case c of
          ResCell (Some ok) p (Some l) \<Rightarrow>
            andThen (load p h) (\<lambda>s.
              (case s of
                 StrCell msg \<Rightarrow> Inr \<lparr>status = ok, message = msg, res_data_len = l\<rparr>
               | _ \<Rightarrow> Inl Indeterminate))
        | _ \<Rightarrow> Inl Indeterminate))"

definition serializeRequest_m :: "nat option \<Rightarrow> heap \<Rightarrow> stop + nat option \<times> heap" where
  "serializeRequest_m req h =
     (case req of
        None \<Rightarrow> Inr (None, h)
      | Some a \<Rightarrow>
          andThen (load_request a h) (\<lambda>r.
          andThen (serializeRequest (Some r)) (\<lambda>reqString.
            (case reqString of
               None \<Rightarrow> Inr (None, h)
             | Some text \<Rightarrow> (let (p, h') = malloc (StrCell text) h in Inr (Some p, h'))))))"

definition sendRequest_m :: "nat \<Rightarrow> command_t \<Rightarrow> world \<Rightarrow> heap \<Rightarrow> stop + world \<times> heap" where
  "sendRequest_m n cmd w h =
     andThen (createRequest_m (Some cmd) (files w) h) (\<lambda>(req, h1).
       (case req of
          None \<Rightarrow> Inl (ExitWith (- 1))
        | Some a \<Rightarrow>
            andThen (serializeRequest_m req h1) (\<lambda>(buffer, h2).
              (case buffer of
                 None \<Rightarrow> Inl (ExitWith (- 1))
               | Some b \<Rightarrow>
                   andThen (load b h2) (\<lambda>c.
                     (case c of
                        StrCell text \<Rightarrow>
                          (let (status, s1) = send text (conn w) in
                           if status < 0 then Inl (ExitWith (- 1))
                           else
                             andThen
                               (if c_type cmd = WRITE then
                                  andThen (load_request a h2) (\<lambda>r.
                                  andThen (sendFileContents n (local_path cmd) (data_len r) (w\<lparr>conn := s1\<rparr>))
                                    (\<lambda>(_, w'). Inr w'))
                                else Inr (w\<lparr>conn := s1\<rparr>))
                               (\<lambda>w'. andThen (freeRequest req h2) (\<lambda>h3. Inr (w', h3))))
                      | _ \<Rightarrow> Inl Indeterminate))))))"

definition createResponse_m :: "bool \<Rightarrow> string option \<Rightarrow> int \<Rightarrow> heap \<Rightarrow> stop + nat option \<times> heap" where
  "createResponse_m success msg len h =
     (let (res, h1) = malloc Raw h;
          (p, h2) = strdup (case msg of None \<Rightarrow> ''NULL'' | Some t \<Rightarrow> if length t = 0 then ''NULL'' else t) h1;
          h3 = h2[res := Some (ResCell None p None)]
      in if len < 0 then andThen (freeResponse (Some res) h3) (\<lambda>h4. Inr (None, h4))
         else Inr (Some res, h3[res := Some (ResCell (Some success) p (Some len))]))"

definition sendResponse_m :: "nat option \<Rightarrow> socket \<Rightarrow> heap \<Rightarrow> stop + (bool \<times> socket) \<times> heap" where
  "sendResponse_m res s h =
     (case res of
        None \<Rightarrow> Inr ((False, snd (send (''ERROR: tried to send NULL response'' @ [NUL]) s)), h)
      | Some a \<Rightarrow>
          andThen (load_response a h) (\<lambda>r.
          andThen (serializeResponse (Some r)) (\<lambda>str.
            (case str of
               None \<Rightarrow> Inr ((False, snd (send (''ERROR: unable to serialize response object'' @ [NUL]) s)), h)
             | Some response_str \<Rightarrow>
                 (let (p, h1) = malloc (StrCell response_str) h;
                      (sendStatus, s') = send response_str s in
                  if sendStatus < 0 then
                    Inr ((False, snd (send (''ERROR: unable to send serialized response to the client'' @ [NUL]) s')), h1)
                  else andThen (free p h1) (\<lambda>h2. Inr ((True, s'), h2)))))))"

definition buildAndSendResponse_m ::
  "bool \<Rightarrow> int \<Rightarrow> string option \<Rightarrow> socket \<Rightarrow> heap \<Rightarrow> stop + (bool \<times> socket) \<times> heap" where
  "buildAndSendResponse_m ok len msg s h =
     andThen (createResponse_m ok msg len h) (\<lambda>(res, h1).
     andThen (sendResponse_m res s h1) (\<lambda>(r, h2).
     andThen (freeResponse res h2) (\<lambda>h3. Inr (r, h3))))"

definition deSerializeRequest_m :: "string option \<Rightarrow> heap \<Rightarrow> stop + nat option \<times> heap" where
  \<comment> \<open>the tokens are read from \<open>buffer_cpy\<close>; the third one is copied into \<open>path\<close>, which nothing frees\<close>
  "deSerializeRequest_m buffer h =
     (case buffer of
        None \<Rightarrow> Inr (None, h)
      | Some b \<Rightarrow>
          (let (buffer_cpy, h1) = strdup b h in
           (case request_loop (strtok (CHR '','') b) 0 None None None of
              (i, type, len, path) \<Rightarrow>
                (let h2 = (case path of None \<Rightarrow> h1 | Some p \<Rightarrow> snd (strdup p h1)) in
                 andThen (free buffer_cpy h2) (\<lambda>h3.
                   if 3 \<le> i then
                     (case (path, type, len) of
                        (Some p, Some t, Some l) \<Rightarrow> Inr (createRequestFromParts_m t (Some p) l h3)
                      | _ \<Rightarrow> Inl Indeterminate)
                   else Inr (None, h3))))))"

definition deSerializeResponse_m :: "string option \<Rightarrow> heap \<Rightarrow> stop + nat option \<times> heap" where
  \<comment> \<open>\<open>message\<close> is a copy of the third token, which \<open>createResponse\<close> copies again\<close>
  "deSerializeResponse_m buffer h =
     (case buffer of
        None \<Rightarrow> Inr (None, h)
      | Some b \<Rightarrow>
          (let (buffer_cpy, h1) = strdup b h in
           (case response_loop (strtok (CHR '','') b) 0 None None None of
              None \<Rightarrow> andThen (free buffer_cpy h1) (\<lambda>h2. Inr (None, h2))
            | Some (i, success, len, msg) \<Rightarrow>
                (let h2 = (case msg of None \<Rightarrow> h1 | Some m \<Rightarrow> snd (strdup m h1)) in
                 andThen (free buffer_cpy h2) (\<lambda>h3.
                   if i < 3 then Inr (None, h3)
                   else (case (success, msg, len) of
                           (Some s, Some m, Some l) \<Rightarrow> createResponse_m s (Some m) l h3
                         | _ \<Rightarrow> Inl Indeterminate))))))"

definition createCommandStruct_m ::
  "command_type \<Rightarrow> string option \<Rightarrow> string option \<Rightarrow> string option \<Rightarrow> heap \<Rightarrow> stop + nat option \<times> heap" where
  \<comment> \<open>\<open>formatPath\<close> allocates the two paths\<close>
  "createCommandStruct_m type ip_address local remote h =
     (case ip_address of
        None \<Rightarrow> Inr (None, h)
      | Some ip \<Rightarrow>
          (let (cmd, h1) = malloc Raw h; (p1, h2) = strdup ip h1 in
           andThen (formatPath local) (\<lambda>l.
             (let (p2, h3) = malloc (StrCell l) h2 in
              andThen (formatPath remote) (\<lambda>r.
                (let (p3, h4) = malloc (StrCell r) h3
                 in Inr (Some cmd, h4[cmd := Some (CmdCell type p1 p2 p3)])))))))"

section \<open>What the blocks are after each call\<close>

lemmas heap_defs = malloc_def strdup_def load_def free_def nth_append

lemma live_append: "live (h @ cs) = live h \<union> {length h + i | i. i < length cs \<and> cs ! i \<noteq> None}"
proof -
  have "a \<in> live (h @ cs) \<longleftrightarrow> a \<in> live h \<or> (\<exists>i. a = length h + i \<and> i < length cs \<and> cs ! i \<noteq> None)" for a
    by (cases "a < length h") (auto simp: live_def nth_append intro: exI [of _ "a - length h"])
  then show ?thesis by blast
qed

lemma live_less: "a \<in> live h \<Longrightarrow> a < length h"
  by (simp add: live_def)

lemma live_snoc: "live (h @ [c]) = (if c = None then live h else insert (length h) (live h))"
  by (auto simp: live_append)

lemma createRequest_m_eq:
  assumes "createRequest cmd fs = Some r"
  shows "createRequest_m cmd fs h =
    Inr (Some (length h), h @ [Some (ReqCell (command r) (Suc (length h)) (Some (data_len r))), Some (StrCell (remote_path r))])"
  using assms
  by (auto simp: createRequest_def createRequest_m_def Let_def heap_defs list_update_append
      split: option.splits if_splits)

lemma createRequest_m_None:
  assumes "createRequest cmd fs = None"
  shows "\<exists>h'. createRequest_m cmd fs h = Inr (None, h') \<and> live h' = live h"
  using assms
  by (auto simp: createRequest_def createRequest_m_def freeRequest_def Let_def heap_defs list_update_append live_append less_Suc_eq
      split: option.splits if_splits)

lemma freeRequest_eq:
  "freeRequest (Some (length h)) (h @ [Some (ReqCell t (Suc (length h)) l), Some (StrCell p)] @ cs) =
   Inr (h @ [None, None] @ cs)"
  by (simp add: freeRequest_def heap_defs list_update_append)

lemma createResponse_m_eq:
  "createResponse_m ok msg len h =
   (case createResponse ok msg len of
      None \<Rightarrow> Inr (None, h @ [None, None])
    | Some r \<Rightarrow> Inr (Some (length h),
        h @ [Some (ResCell (Some (status r)) (Suc (length h)) (Some (res_data_len r))), Some (StrCell (message r))]))"
  by (auto simp: createResponse_def createResponse_m_def freeResponse_def Let_def heap_defs list_update_append
      split: option.splits)

lemma freeResponse_eq:
  "freeResponse (Some (length h)) (h @ [Some (ResCell ok (Suc (length h)) l), Some (StrCell m)] @ cs) =
   Inr (h @ [None, None] @ cs)"
  by (simp add: freeResponse_def heap_defs list_update_append)

lemma serialize_not_NULL:
  "serializeResponse (Some r) = Inr m \<Longrightarrow> \<exists>out. m = Some out"
  "serializeRequest (Some q) = Inr m \<Longrightarrow> \<exists>out. m = Some out"
  by (auto simp: serializeResponse_def serializeRequest_def Let_def andThen_eq_Inr_conv)

lemma buildAndSend_heap:
  assumes "buildAndSendResponse ok len msg s = Inr (sent, s')"
  shows "\<exists>h'. buildAndSendResponse_m ok len msg s h = Inr ((sent, s'), h') \<and>
    (if sent \<or> len < 0 then live h' = live h else \<exists>a. a \<notin> live h \<and> live h' = insert a (live h))"
proof (cases "createResponse ok msg len")
  case None
  then have "len < 0" by (simp add: createResponse_def Let_def split: if_splits)
  with None assms show ?thesis
    by (auto simp: buildAndSendResponse_m_def buildAndSendResponse_def createResponse_m_eq sendResponse_m_def
        sendResponse_def freeResponse_def live_append less_Suc_eq)
next
  case (Some r)
  then have len: "\<not> len < 0" by (auto simp: createResponse_def Let_def split: if_splits)
  let ?h1 = "h @ [Some (ResCell (Some (status r)) (Suc (length h)) (Some (res_data_len r))), Some (StrCell (message r))]"
  have load: "load_response (length h) ?h1 = Inr r"
    by (simp add: load_response_def heap_defs)
  from assms Some obtain m where m: "serializeResponse (Some r) = Inr m"
    by (auto simp: buildAndSendResponse_def sendResponse_def andThen_eq_Inr_conv)
  with serialize_not_NULL(1) obtain out where enc: "serializeResponse (Some r) = Inr (Some out)" by blast
  obtain k s1 where k: "send out s = (k, s1)" by force
  show ?thesis
  proof (cases "k < 0")
    case True
    then have "buildAndSendResponse_m ok len msg s h = Inr ((sent, s'), (h @ [None, None]) @ [Some (StrCell out)]) \<and> \<not> sent"
      using assms Some k enc load freeResponse_eq [of h "Some (status r)" "Some (res_data_len r)" "message r" "[Some (StrCell out)]"]
      by (simp add: buildAndSendResponse_m_def buildAndSendResponse_def createResponse_m_eq sendResponse_m_def
        sendResponse_def malloc_def)
    moreover have "live ((h @ [None, None]) @ [Some (StrCell out)]) = insert (Suc (Suc (length h))) (live h)"
      by (auto simp: live_append less_Suc_eq)
    moreover have "Suc (Suc (length h)) \<notin> live h" by (auto dest: live_less)
    ultimately show ?thesis using len by auto
  next
    case False
    then have "buildAndSendResponse_m ok len msg s h = Inr ((sent, s'), h @ [None, None, None]) \<and> sent"
      using assms Some k enc load freeResponse_eq [of h "Some (status r)" "Some (res_data_len r)" "message r" "[None]"]
      by (simp add: buildAndSendResponse_m_def buildAndSendResponse_def createResponse_m_eq sendResponse_m_def
        sendResponse_def malloc_def free_def load_def nth_append list_update_append)
    then show ?thesis by (auto simp: live_append less_Suc_eq)
  qed
qed

text \<open>
  Sending a response keeps the heap: every block that \<open>buildAndSendResponse\<close> allocates is freed once and not used
  afterwards, except that the encoded text stays allocated when \<open>send\<close> fails; and what is sent is what the model without a
  heap says.
\<close>

theorem buildAndSendResponse_no_leak:
  assumes "buildAndSendResponse ok len msg s = Inr (sent, s')"
  shows "\<exists>h'. buildAndSendResponse_m ok len msg s h = Inr ((sent, s'), h') \<and>
    (if sent \<or> len < 0 then live h' = live h else \<exists>a. a \<notin> live h \<and> live h' = insert a (live h))"
  using assms by (rule buildAndSend_heap)

theorem buildAndSendResponse_no_leak_witness:
  "\<exists>h'. buildAndSendResponse_m True 0 (Some ''OK'')
        \<lparr>inbox = [], send_plan = [], outbox = [], is_closed = False\<rparr> [Some (StrCell ''x'')] =
      Inr ((True, \<lparr>inbox = [], send_plan = [], outbox = ''1,0,OK'', is_closed = False\<rparr>), h') \<and>
    live h' = live [Some (StrCell ''x'')]"
proof -
  let ?s = "\<lambda>out. \<lparr>inbox = [], send_plan = [], outbox = out, is_closed = False\<rparr>"
  have "buildAndSendResponse True 0 (Some ''OK'') (?s []) = Inr (True, ?s ''1,0,OK'')"
    by code_simp
  from buildAndSendResponse_no_leak [OF this] show ?thesis by simp
qed

lemma sendRequest_heap:
  assumes "sendRequest n cmd w = Inr w'"
  shows "\<exists>out. sendRequest_m n cmd w h = Inr (w', h @ [None, None, Some (StrCell out)])"
proof -
  from assms obtain r where r: "createRequest (Some cmd) (files w) = Some r"
    by (auto simp: sendRequest_def split: option.splits)
  with assms obtain m where m: "serializeRequest (Some r) = Inr m"
    by (auto simp: sendRequest_def andThen_eq_Inr_conv)
  with serialize_not_NULL(2) obtain out where enc: "serializeRequest (Some r) = Inr (Some out)" by blast
  let ?cells = "[Some (ReqCell (command r) (Suc (length h)) (Some (data_len r))), Some (StrCell (remote_path r))]"
  let ?h2 = "h @ ?cells @ [Some (StrCell out)]" and ?h3 = "h @ [None, None] @ [Some (StrCell out)]"
  have load: "load_request (length h) (h @ ?cells) = Inr r" "load_request (length h) ?h2 = Inr r"
    "load (Suc (Suc (length h))) ?h2 = Inr (StrCell out)"
    by (simp_all add: load_request_def heap_defs)
  have "sendRequest_m n cmd w h = Inr (w', ?h3)"
    using assms r enc createRequest_m_eq [OF r, of h] load freeRequest_eq [of h "command r" "Some (data_len r)" "remote_path r" "[Some (StrCell out)]"]
    by (auto simp: sendRequest_m_def sendRequest_def serializeRequest_m_def malloc_def andThen_eq_Inr_conv split: prod.splits if_splits)
  then show ?thesis by simp
qed

text \<open>
  What a run of the client leaves behind: \<open>sendRequest\<close> does to the connection what the model without a heap says, frees the
  request and its path, and leaves exactly one block allocated, the encoded text.
\<close>

theorem sendRequest_leaks_text:
  assumes "sendRequest n cmd w = Inr w'"
  shows "\<exists>a h' out. sendRequest_m n cmd w h = Inr (w', h') \<and> a \<notin> live h \<and> live h' = insert a (live h) \<and>
    h' ! a = Some (StrCell out)"
proof -
  from sendRequest_heap [OF assms, of h] obtain out where
    "sendRequest_m n cmd w h = Inr (w', h @ [None, None, Some (StrCell out)])" ..
  moreover have "live (h @ [None, None, Some (StrCell out)]) = insert (Suc (Suc (length h))) (live h)"
    "Suc (Suc (length h)) \<notin> live h"
    by (auto simp: live_append less_Suc_eq live_def nth_append)
  moreover have "(h @ [None, None, Some (StrCell out)]) ! Suc (Suc (length h)) = Some (StrCell out)"
    by (simp add: nth_append)
  ultimately show ?thesis by blast
qed

theorem sendRequest_leaks_text_witness:
  "\<exists>w' a h'. sendRequest_m 1 \<lparr>c_type = RM, server_ip = ''127.0.0.1'', local_path = ''data/'', cmd_remote_path = ''data/a''\<rparr>
      \<lparr>files = \<lparr>nodes = [([], Dir)], cwd = [], readonly = [], space = 0, dir_end = 0\<rparr>,
       conn = \<lparr>inbox = [], send_plan = [], outbox = [], is_closed = False\<rparr>, clock = (0, 0)\<rparr> [] = Inr (w', h') \<and>
    outbox (conn w') = ''RM,0,data/a'' \<and> live h' = {a}"
proof -
  let ?c = "\<lparr>c_type = RM, server_ip = ''127.0.0.1'', local_path = ''data/'', cmd_remote_path = ''data/a''\<rparr>"
  let ?w = "\<lambda>out. \<lparr>files = \<lparr>nodes = [([], Dir)], cwd = [], readonly = [], space = 0, dir_end = 0\<rparr>,
       conn = \<lparr>inbox = [], send_plan = [], outbox = out, is_closed = False\<rparr>, clock = (0, 0)\<rparr>"
  have "sendRequest 1 ?c (?w []) = Inr (?w ''RM,0,data/a'')" by code_simp
  from sendRequest_leaks_text [OF this, of "[]"] show ?thesis by (auto simp: live_def)
qed

lemma decoded_request:
  assumes "deSerializeRequest (Some b) = Inr (Some r)"
  shows "\<exists>a h' h''. deSerializeRequest_m (Some b) h = Inr (Some a, h') \<and> load_request a h' = Inr r \<and>
    card (live h' - live h) = 3 \<and> live h \<subseteq> live h' \<and>
    freeRequest (Some a) h' = Inr h'' \<and> live h'' = insert (Suc (length h)) (live h) \<and>
    h'' ! Suc (length h) = Some (StrCell (remote_path r))"
proof -
  obtain i type len path where loop: "request_loop (strtok (CHR '','') b) 0 None None None = (i, type, len, path)"
    by (cases "request_loop (strtok (CHR '','') b) 0 None None None") auto
  with assms have i: "3 \<le> i" by (auto simp: deSerializeRequest_def split: if_splits)
  from loop assms i obtain p t l where vars: "path = Some p" "type = Some t" "len = Some l"
    and parts: "createRequestFromParts t (Some p) l = Some r"
    by (auto simp: deSerializeRequest_def split: option.splits)
  from parts have r: "r = \<lparr>command = t, remote_path = p, data_len = l\<rparr>" and ok: "t \<noteq> UNKNOWN" "p \<noteq> ''''" "\<not> l < 0"
      "\<not> NUM_COMMANDS < enum_val t"
    by (auto simp: createRequestFromParts_def split: if_splits)
  let ?a = "Suc (Suc (length h))"
  let ?h' = "h @ [None, Some (StrCell p), Some (ReqCell t (Suc ?a) (Some l)), Some (StrCell p)]"
  let ?h'' = "h @ [None, Some (StrCell p), None, None]"
  have "deSerializeRequest_m (Some b) h = Inr (Some ?a, ?h')"
    using loop i vars ok
    by (simp add: deSerializeRequest_m_def createRequestFromParts_m_def heap_defs list_update_append)
  moreover have "load_request ?a ?h' = Inr r"
    by (simp add: load_request_def heap_defs r)
  moreover have grown: "live ?h' = live h \<union> {Suc (length h), ?a, Suc ?a}"
    by (auto simp: live_append less_Suc_eq)
  have "{Suc (length h), ?a, Suc ?a} \<inter> live h = {}" by (auto dest: live_less)
  then have "live ?h' - live h = {Suc (length h), ?a, Suc ?a}" unfolding grown by blast
  then have "card (live ?h' - live h) = 3" by simp
  moreover have "freeRequest (Some ?a) ?h' = Inr ?h''"
    by (simp add: freeRequest_def heap_defs list_update_append)
  moreover have "live ?h'' = insert (Suc (length h)) (live h)"
    by (auto simp: live_append less_Suc_eq)
  moreover have "?h'' ! Suc (length h) = Some (StrCell (remote_path r))"
    by (simp add: nth_append r)
  moreover have "live h \<subseteq> live ?h'" by (auto simp: live_append)
  ultimately show ?thesis by (intro exI conjI) assumption+
qed

text \<open>
  Decoding a request leaks: when a request is decoded, three new blocks are allocated, the request, its path and another copy of the
  path that nothing points to; freeing the request leaves that copy. The worker threads do not even free the request.
\<close>

theorem deSerializeRequest_leaks_path:
  assumes "deSerializeRequest (Some b) = Inr (Some r)"
  shows "\<exists>a h' h''. deSerializeRequest_m (Some b) h = Inr (Some a, h') \<and> load_request a h' = Inr r \<and>
    card (live h' - live h) = 3 \<and> live h \<subseteq> live h' \<and>
    freeRequest (Some a) h' = Inr h'' \<and> live h'' = insert (Suc (length h)) (live h) \<and>
    h'' ! Suc (length h) = Some (StrCell (remote_path r))"
  using assms by (rule decoded_request)

theorem deSerializeRequest_leaks_path_witness:
  "\<exists>a h' h''. deSerializeRequest_m (Some ''GET,0,data/a'') [] = Inr (Some a, h') \<and>
    card (live h') = 3 \<and> freeRequest (Some a) h' = Inr h'' \<and> live h'' = {1}"
proof -
  have "deSerializeRequest (Some ''GET,0,data/a'') = Inr (Some \<lparr>command = GET, remote_path = ''data/a'', data_len = 0\<rparr>)"
    by code_simp
  from deSerializeRequest_leaks_path [OF this, of "[]"] show ?thesis by (auto simp: live_def)
qed

lemma decoded_response_heap:
  assumes "deSerializeResponse (Some b) = Inr (Some r)"
  shows "\<exists>m. deSerializeResponse_m (Some b) h = Inr (Some (Suc (Suc (length h))),
    h @ [None, Some (StrCell m), Some (ResCell (Some (status r)) (Suc (Suc (Suc (length h)))) (Some (res_data_len r))),
         Some (StrCell (message r))])"
proof -
  from assms obtain i success len msg where
    loop: "response_loop (strtok (CHR '','') b) 0 None None None = Some (i, success, len, msg)"
    by (auto simp: deSerializeResponse_def split: option.splits)
  with assms have i: "\<not> i < 3" by (auto simp: deSerializeResponse_def split: if_splits)
  from loop assms i obtain s m l where vars: "success = Some s" "msg = Some m" "len = Some l"
    and made: "createResponse s (Some m) l = Some r"
    by (auto simp: deSerializeResponse_def split: option.splits)
  have "deSerializeResponse_m (Some b) h = createResponse_m s (Some m) l (h @ [None, Some (StrCell m)])"
    using loop i vars by (simp add: deSerializeResponse_m_def heap_defs list_update_append)
  with made show ?thesis by (simp add: createResponse_m_eq)
qed

lemma undecoded_response_heap:
  assumes "deSerializeResponse (Some b) = Inr None"
  shows "\<exists>cs. deSerializeResponse_m (Some b) h = Inr (None, h @ cs) \<and> length (filter (\<lambda>c. c \<noteq> None) cs) \<le> 1"
proof (cases "response_loop (strtok (CHR '','') b) 0 None None None")
  case None
  then have "deSerializeResponse_m (Some b) h = Inr (None, h @ [None])"
    by (simp add: deSerializeResponse_m_def heap_defs)
  then show ?thesis by (intro exI [of _ "[None]"]) simp
next
  case (Some q)
  obtain i success len msg where q: "q = (i, success, len, msg)" by (cases q)
  let ?cs = "None # (case msg of None \<Rightarrow> [] | Some m \<Rightarrow> [Some (StrCell m)])"
  have decode: "deSerializeResponse_m (Some b) h =
      (if i < 3 then Inr (None, h @ ?cs)
       else (case (success, msg, len) of
               (Some s, Some m, Some l) \<Rightarrow> createResponse_m s (Some m) l (h @ ?cs)
             | _ \<Rightarrow> Inl Indeterminate))"
    using Some q by (simp add: deSerializeResponse_m_def heap_defs list_update_append split: option.splits)
  show ?thesis
  proof (cases "i < 3")
    case True
    with decode show ?thesis by (intro exI [of _ ?cs]) (auto split: option.splits)
  next
    case False
    with assms Some q obtain s m l where "success = Some s" "msg = Some m" "len = Some l" "createResponse s (Some m) l = None"
      by (auto simp: deSerializeResponse_def split: option.splits)
    with decode False show ?thesis
      by (intro exI [of _ "?cs @ [None, None]"]) (simp add: createResponse_m_eq)
  qed
qed

section \<open>The command\<close>

lemma createCommandStruct_m_eq:
  "createCommandStruct_m t (Some ip) l r h =
   andThen (formatPath l) (\<lambda>p. andThen (formatPath r) (\<lambda>q.
     Inr (Some (length h), h @
       [Some (CmdCell t (Suc (length h)) (Suc (Suc (length h))) (Suc (Suc (Suc (length h))))),
        Some (StrCell ip), Some (StrCell p), Some (StrCell q)])))"
  by (auto simp: createCommandStruct_m_def Let_def malloc_def strdup_def list_update_append intro!: andThen_cong)

lemma freeCommandStruct_leaks_struct:
  \<comment> \<open>the three strings are freed, the struct itself is not\<close>
  assumes "createCommandStruct_m t (Some ip) l r h = Inr (Some a, h1)"
  shows "\<exists>h2. freeCommandStruct (Some a) h1 = Inr h2 \<and> a \<notin> live h \<and> live h2 = insert a (live h)"
  using assms
  by (auto simp: createCommandStruct_m_eq andThen_eq_Inr_conv freeCommandStruct_def heap_defs list_update_append
      live_append less_Suc_eq dest: live_less)

end
