(* ===== verification/Request_Handler.thy ===== *)
theory Request_Handler
  imports Protocol
begin

text \<open>
  \<open>server/request_handler.c\<close>: what the server does for \<open>WRITE\<close>, \<open>GET\<close> and \<open>RM\<close>. The
  state of a handler is the file system, the socket to the client and the time of day; the first
  argument of the handlers that have loops over files or the network is the fuel of those loops.
\<close>

section \<open>Saving the current version\<close>

definition version_name :: "string \<Rightarrow> int \<times> int \<Rightarrow> string" where
  \<comment> \<open>the text that \<open>SIMPLE_VERSION_FORMAT\<close> gives\<close>
  "version_name base time = base @ ''.'' @ show_int (fst time) @ ''_'' @ show_int (snd time)"

definition makeVersionName :: "string \<Rightarrow> int \<times> int \<Rightarrow> stop + string" where
  "makeVersionName base time = store_string MAX_PATH_LEN (version_name base time)"

definition saveCurrentVersion :: "nat \<Rightarrow> string \<Rightarrow> world \<Rightarrow> stop + bool \<times> world" where
  \<comment> \<open>\<open>fclose\<close> of a null pointer is undefined\<close>
  "saveCurrentVersion n filepath w =
     (case fopen_rb (files w) filepath of
        None \<Rightarrow> Inr (True, w)
      | Some currFile \<Rightarrow>
          andThen (extractDirectory (Some filepath) (Some MAX_PATH_LEN)) (\<lambda>dir.
            (case dir of
               None \<Rightarrow> Inr (False, w)
             | Some directory_only \<Rightarrow>
                 andThen (extractBasename (Some filepath) (Some MAX_PATH_LEN)) (\<lambda>base.
                   (case base of
                      None \<Rightarrow> Inr (False, w)
                    | Some basename_only \<Rightarrow>
                        andThen (store_string MAX_PATH_LEN (directory_only @ VERSION_SUBFOLDER))
                          (\<lambda>version_directory.
                        andThen (makeVersionName basename_only (clock w)) (\<lambda>version_filename.
                        andThen (store_string MAX_PATH_LEN
                                   (version_directory @ ''/'' @ version_filename)) (\<lambda>full_path.
                        andThen (createNestedDirectories full_path (files w)) (\<lambda>(_, fs1).
                          (case fopen_wb fs1 full_path of
                             None \<Rightarrow>
                               andThen (copyFile n (Some currFile) None fs1) (\<lambda>_. Inl NullPointer)
                           | Some (newFile, fs2) \<Rightarrow>
                               andThen (copyFile n (Some currFile) (Some newFile) fs2)
                                 (\<lambda>(success, fs3). Inr (success, w\<lparr>files := fs3\<rparr>))))))))))))"

section \<open>The handlers\<close>

definition handleWriteRequest :: "nat \<Rightarrow> request_t \<Rightarrow> world \<Rightarrow> stop + world" where
  "handleWriteRequest n write_request w =
     andThen (createNestedDirectories (remote_path write_request) (files w)) (\<lambda>(_, fs1).
     andThen (saveCurrentVersion n (remote_path write_request) (w\<lparr>files := fs1\<rparr>)) (\<lambda>(status1, w2).
     andThen (if status1 then
                receiveFileContents n (remote_path write_request) (data_len write_request) w2
              else Inr (False, w2)) (\<lambda>(status2, w3).
     andThen (buildAndSendResponse status2 0 (Some '''') (conn w3)) (\<lambda>(_, s4).
       Inr (w3\<lparr>conn := s4\<rparr>)))))"

definition handleGetRequest :: "nat \<Rightarrow> request_t \<Rightarrow> world \<Rightarrow> stop + world" where
  "handleGetRequest n get_request w =
     (let source_path = remote_path get_request;
          source_length = getFileSize (files w) source_path
      in if source_length < 0 then
           andThen (buildAndSendResponse False 0
                     (Some ''unable to open and/or get size of the requested file'') (conn w))
             (\<lambda>(_, s1). Inr (w\<lparr>conn := s1\<rparr>))
         else
           andThen (buildAndSendResponse True source_length (Some ''OK'') (conn w)) (\<lambda>(_, s1).
           andThen (sendFileContents n source_path source_length (w\<lparr>conn := s1\<rparr>)) (\<lambda>(_, w2).
             Inr w2)))"

fun remove_versions ::
  "string \<Rightarrow> string \<Rightarrow> (string \<times> node) list \<Rightarrow> bool \<Rightarrow> filesys \<Rightarrow> stop + bool \<times> filesys" where
  \<comment> \<open>the loop over the entries of the version folder\<close>
  "remove_versions basename_only version_folder [] success fs = Inr (success, fs)"
| "remove_versions basename_only version_folder ((d_name, d_type) # entries) success fs =
     (if d_type = Dir then remove_versions basename_only version_folder entries success fs
      else if strncmp d_name basename_only (length basename_only) = 0 then
        andThen (store_string MAX_PATH_LEN (version_folder @ ''/'' @ d_name))
          (\<lambda>full_version_path.
             if success then
               (case remove full_version_path fs of
                  Inr fs' \<Rightarrow> remove_versions basename_only version_folder entries True fs'
                | Inl _ \<Rightarrow> remove_versions basename_only version_folder entries False fs)
             else remove_versions basename_only version_folder entries False fs)
      else remove_versions basename_only version_folder entries success fs)"

definition respond :: "bool \<Rightarrow> string \<Rightarrow> world \<Rightarrow> stop + world" where
  \<comment> \<open>a response without data, as the code sends it in many places\<close>
  "respond success msg w =
     andThen (buildAndSendResponse success 0 (Some msg) (conn w)) (\<lambda>(_, s'). Inr (w\<lparr>conn := s'\<rparr>))"

definition handleRemoveRequest :: "request_t \<Rightarrow> world \<Rightarrow> stop + world" where
  "handleRemoveRequest remove_request w =
     (let filepath = remote_path remove_request in
      if length filepath = 0 then respond False ''didn't receive file path'' w
      else
        (case remove filepath (files w) of
           Inl _ \<Rightarrow> respond False ''unable to remove file'' w
         | Inr fs1 \<Rightarrow>
             (let w1 = w\<lparr>files := fs1\<rparr> in
              andThen (extractDirectory (Some filepath) (Some MAX_PATH_LEN)) (\<lambda>dir.
                (case dir of
                   None \<Rightarrow> respond False ''unable to remove file version history'' w1
                 | Some directory_only \<Rightarrow>
                     andThen (extractBasename (Some filepath) (Some MAX_PATH_LEN)) (\<lambda>base.
                       (case base of
                          None \<Rightarrow> respond False ''unable to remove file version history'' w1
                        | Some basename_only \<Rightarrow>
                            andThen (store_string MAX_PATH_LEN (directory_only @ VERSION_SUBFOLDER))
                              (\<lambda>version_folder.
                                 (case opendir fs1 version_folder of
                                    None \<Rightarrow> respond True ''OK'' w1
                                  | Some dir \<Rightarrow>
                                      andThen (remove_versions basename_only version_folder
                                                (dir_entries fs1 dir) True fs1)
                                        (\<lambda>(success, fs2).
                                           if success then respond True ''OK'' (w1\<lparr>files := fs2\<rparr>)
                                           else respond False
                                             ''ERROR: unable to remove all prior versions of this file''
                                             (w1\<lparr>files := fs2\<rparr>)))))))))))"

section \<open>Responses on the wire\<close>

lemma buildAndSend_zero:
  assumes "sends_whole s"
  shows "buildAndSendResponse ok 0 (Some msg) s =
    Inr (True, s\<lparr>outbox := outbox s @ (if ok then ''1'' else ''0'') @ '',0,'' @
                 (if msg = '''' then ''NULL'' else msg)\<rparr>)"
  using assms
  by (simp add: buildAndSendResponse_def createResponse_def sendResponse_def serializeResponse_eq
      response_text_def send_whole)

lemma buildAndSend_length:
  assumes "sends_whole s" and "0 \<le> l" and "msg \<noteq> ''''"
  shows "buildAndSendResponse ok l (Some msg) s =
    (if power_of_ten (nat l) then Inl BufferOverflow
     else Inr (True, s\<lparr>outbox := outbox s @ (if ok then ''1'' else ''0'') @ '','' @ show_int l @ '','' @ msg\<rparr>))"
  using assms
  by (simp add: buildAndSendResponse_def createResponse_def sendResponse_def serializeResponse_eq
      response_text_def send_whole)

lemma respond_whole:
  assumes "sends_whole (conn w)" and "msg \<noteq> ''''"
  shows "respond ok msg w =
    Inr (w\<lparr>conn := (conn w)\<lparr>outbox := outbox (conn w) @ (if ok then ''1'' else ''0'') @ '',0,'' @ msg\<rparr>\<rparr>)"
  using assms by (simp add: respond_def buildAndSend_zero)

section \<open>The version file\<close>

lemma version_name_plain: "plain f \<Longrightarrow> plain (version_name f t)"
proof -
  assume f: "plain f"
  have "CHR ''_'' \<in> set (version_name f t)" by (simp add: version_name_def)
  then have "version_name f t \<noteq> ''.''" "version_name f t \<noteq> ''..''" by auto
  with f show ?thesis by (simp add: plain_def version_name_def)
qed

lemma versions_plain [simp]: "plain ''.versions''"
  by (simp add: plain_def)

lemma join_versions:
  "ds \<noteq> [] \<Longrightarrow> join ds @ VERSION_SUBFOLDER = join (ds @ [''.versions''])"
  by (simp add: VERSION_SUBFOLDER_def join_snoc)

lemma join_version_file:
  "ds \<noteq> [] \<Longrightarrow> join (ds @ [''.versions'']) @ ''/'' @ v = join (ds @ [''.versions'', v])"
  using join_snoc [of "ds @ [''.versions'']" v] by simp

lemma length_join_snoc: "ds \<noteq> [] \<Longrightarrow> length (join (ds @ [c])) = length (join ds) + 1 + length c"
  by (simp add: join_snoc)

definition version_key :: "filesys \<Rightarrow> string list \<Rightarrow> string \<Rightarrow> key" where
  "version_key fs ds v = cwd fs @ ds @ [''.versions'', v]"

definition versions_key :: "filesys \<Rightarrow> string list \<Rightarrow> key" where
  "versions_key fs ds = cwd fs @ ds @ [''.versions'']"

definition same_env :: "filesys \<Rightarrow> filesys \<Rightarrow> bool" where
  \<comment> \<open>nothing but the tree and the free space differs\<close>
  "same_env fs fs' \<longleftrightarrow> cwd fs' = cwd fs \<and> readonly fs' = readonly fs \<and> dir_end fs' = dir_end fs"

lemma same_env_refl [simp]: "same_env fs fs"
  by (simp add: same_env_def)

lemma same_env_trans: "same_env a b \<Longrightarrow> same_env b c \<Longrightarrow> same_env a c"
  by (simp add: same_env_def)

text \<open>What a version of file \<open>ds/f\<close> with \<open>size\<close> bytes needs.\<close>

definition can_save :: "nat \<Rightarrow> string list \<Rightarrow> string \<Rightarrow> nat \<Rightarrow> world \<Rightarrow> bool" where
  "can_save n ds f len w \<longleftrightarrow>
     (let v = version_name f (clock w) in
      ds \<noteq> [] \<and> (\<forall>c \<in> set (ds @ [f]). plain c) \<and>
      length (join (ds @ [''.versions'', v])) < MAX_PATH_LEN \<and>
      can_make_dirs (dir_keys (cwd (files w)) (ds @ [''.versions''])) (files w) \<and>
      version_key (files w) ds v \<notin> set (readonly (files w)) \<and>
      node_at (files w) (version_key (files w) ds v) \<noteq> Some Dir \<and>
      len < n * MAX_BUFF_SIZE)"

lemma copyFile_ok:
  assumes "node_at fs k = Some (File [])" and "length c < n * MAX_BUFF_SIZE"
  shows "copyFile n (Some \<lparr>rs_data = Some c, rs_pos = 0, rs_eof = False\<rparr>) (Some k) fs =
    Inr (True, snd (fwrite k c fs))"
  using copy_loop_eq [of "\<lparr>rs_data = Some c, rs_pos = 0, rs_eof = False\<rparr>" c fs k "[]" n] assms
  by (simp add: copyFile_def)

lemma dir_keys_snoc: "dir_keys base (ds @ [d]) = dir_keys base ds @ [base @ ds @ [d]]"
  by (induction ds arbitrary: base) simp_all

lemma existing_dirs:
  assumes "wf_fs fs" and "node_at fs (cwd fs @ ds @ [f]) \<noteq> None" and "k \<in> set (dir_keys (cwd fs) ds)"
  shows "node_at fs k = Some Dir"
proof -
  from assms(3) obtain i where i: "i \<le> length ds" "k = cwd fs @ take i ds"
    by (auto simp: set_dir_keys)
  have "k @ (drop i ds @ [f]) = cwd fs @ ds @ [f]"
    unfolding i by (metis append.assoc append_take_drop_id)
  with assms(2) have "node_at fs (k @ (drop i ds @ [f])) \<noteq> None" by metis
  then show ?thesis using wf_fs_prefix_dir [OF assms(1), of k "drop i ds @ [f]"] by auto
qed

lemma saveCurrentVersion_new:
  assumes "wf_fs (files w)" and "rel_path cs" and "node_at (files w) (cwd (files w) @ cs) = None"
  shows "saveCurrentVersion n (join cs) w = Inr (True, w)"
  using fopen_rb_join [OF assms(1,2)] assms(3) by (simp add: saveCurrentVersion_def)

lemma short_path:
  \<comment> \<open>a path whose version fits in an array is shorter, and so are its parts\<close>
  assumes "ds \<noteq> []" and "length (join (ds @ [''.versions'', version_name f t])) < MAX_PATH_LEN"
  shows "length (join (ds @ [f])) < MAX_PATH_LEN" and "length (join (ds @ [''.versions''])) < MAX_PATH_LEN"
    and "length (version_name f t) < MAX_PATH_LEN"
  using assms(2) length_join_snoc [OF assms(1)] length_join_snoc [of "ds @ [''.versions'']" "version_name f t"]
  by (simp_all add: version_name_def)

lemma version_opened:
  \<comment> \<open>after the directories have been made, the version is a new empty file in the version folder\<close>
  assumes wf: "wf_fs fs" and pl: "\<forall>c \<in> set ds. plain c" "plain v" and len: "length (join (ds @ [''.versions'', v])) < MAX_PATH_LEN"
    and mk: "can_make_dirs (dir_keys (cwd fs) (ds @ [''.versions''])) fs" and rw: "version_key fs ds v \<notin> set (readonly fs)"
    and nodir: "node_at fs (version_key fs ds v) \<noteq> Some Dir"
    and fs1: "fs1 = make_dirs (dir_keys (cwd fs) (ds @ [''.versions''])) fs"
    and fs2: "fs2 = put_node (version_key fs ds v) (File []) fs1"
  shows "createNestedDirectories (join (ds @ [''.versions'', v])) fs = Inr (True, fs1)"
    and "fopen_wb fs1 (join (ds @ [''.versions'', v])) = Some (version_key fs ds v, fs2)"
    and "wf_fs fs2" and "node_at fs1 (versions_key fs ds) = Some Dir"
proof -
  let ?k = "version_key fs ds v" and ?keys = "dir_keys (cwd fs) (ds @ [''.versions''])"
  have mkdirs: "createNestedDirectories (join (ds @ [''.versions'', v])) fs = Inr (True, fs1) \<and> wf_fs fs1"
    using createNestedDirectories_join [OF wf, of "ds @ [''.versions'']" v] pl len mk fs1 by simp
  then show "createNestedDirectories (join (ds @ [''.versions'', v])) fs = Inr (True, fs1)" ..
  have rel: "rel_path (ds @ [''.versions'', v])" using pl by (simp add: rel_path_def)
  show dir: "node_at fs1 (versions_key fs ds) = Some Dir"
    using mk last_dir_key [of "ds @ [''.versions'']" "cwd fs"]
    by (auto simp: fs1 make_dirs_node can_make_dirs_def versions_key_def)
  have nodir1: "node_at fs1 ?k \<noteq> Some Dir"
  proof
    assume "node_at fs1 ?k = Some Dir"
    with nodir have "?k \<in> set ?keys" by (auto simp: fs1 make_dirs_node split: if_splits)
    then obtain i where "i \<le> length (ds @ [''.versions''])" "?k = cwd fs @ take i (ds @ [''.versions''])"
      by (auto simp: set_dir_keys)
    then have "length ?k \<le> length (cwd fs) + (length ds + 1)" by simp
    then show False by (simp add: version_key_def)
  qed
  show "fopen_wb fs1 (join (ds @ [''.versions'', v])) = Some (?k, fs2)"
    using fopen_wb_join [OF conjunct2 [OF mkdirs] rel] nodir1 rw dir
    by (simp add: fs1 fs2 version_key_def versions_key_def butlast_append)
  show "wf_fs fs2"
    unfolding fs2 using dir pl(2) nodir1 mkdirs
    by (intro wf_fs_put) (auto simp: version_key_def versions_key_def butlast_append)
qed

lemma saveCurrentVersion_existing:
  assumes wf: "wf_fs (files w)" and node: "node_at (files w) (cwd (files w) @ ds @ [f]) = Some (File c)"
    and can: "can_save n ds f (length c) w"
  shows "\<exists>fs'. saveCurrentVersion n (join (ds @ [f])) w = Inr (True, w\<lparr>files := fs'\<rparr>) \<and>
    wf_fs fs' \<and> same_env (files w) fs' \<and> space fs' = space (files w) - length c \<and>
    node_at fs' = (node_at (files w))(versions_key (files w) ds \<mapsto> Dir,
                     version_key (files w) ds (version_name f (clock w)) \<mapsto>
                       File (take (space (files w)) c))"
proof -
  let ?fs = "files w"
  let ?v = "version_name f (clock w)"
  let ?k = "version_key ?fs ds ?v"
  let ?keys = "dir_keys (cwd ?fs) (ds @ [''.versions''])"
  let ?fs1 = "make_dirs ?keys ?fs"
  let ?fs2 = "put_node ?k (File []) ?fs1"
  let ?fs3 = "snd (fwrite ?k c ?fs2)"
  from can have ds: "ds \<noteq> []" and pl: "\<forall>c \<in> set (ds @ [f]). plain c"
    and len: "length (join (ds @ [''.versions'', ?v])) < MAX_PATH_LEN"
    and mk: "can_make_dirs ?keys ?fs" and rw: "?k \<notin> set (readonly ?fs)"
    and nodir: "node_at ?fs ?k \<noteq> Some Dir"
    and fuel: "length c < n * MAX_BUFF_SIZE"
    by (simp_all add: can_save_def Let_def)
  have f: "CHR ''/'' \<notin> set f" "f \<noteq> []" and plv: "plain ?v" and rel: "rel_path (ds @ [f])" and pl': "\<forall>c \<in> set ds. plain c"
    using pl version_name_plain by (simp_all add: plain_def rel_path_def)
  note short = short_path [OF ds len]
  note opened = version_opened [OF wf pl' plv len mk rw nodir refl refl]
  have node2: "node_at ?fs2 ?k = Some (File [])" by simp
  have "saveCurrentVersion n (join (ds @ [f])) w = Inr (True, w\<lparr>files := ?fs3\<rparr>)"
    using fopen_rb_join [OF wf rel] node extractDirectory_join [OF f short(1)] extractBasename_join [OF f short(1)]
      short(2,3) len opened(1,2) copyFile_ok [OF node2 fuel]
    by (simp add: saveCurrentVersion_def join_versions [OF ds] makeVersionName_def
        join_version_file [OF ds, simplified])
  moreover have "wf_fs ?fs3"
    using wf_fwrite [OF prod.collapse [symmetric] opened(3)] by simp
  moreover have "node_at ?fs3 = (node_at ?fs)(versions_key ?fs ds \<mapsto> Dir, ?k \<mapsto> File (take (space ?fs) c))"
  proof
    fix k
    have old: "node_at ?fs k = Some Dir" if "k \<in> set (dir_keys (cwd ?fs) ds)"
      using existing_dirs [OF wf _ that, of f] node by simp
    show "node_at ?fs3 k = ((node_at ?fs)(versions_key ?fs ds \<mapsto> Dir, ?k \<mapsto> File (take (space ?fs) c))) k"
      using fwrite_node [OF node2, of c k] opened(4) old
      by (auto simp: make_dirs_node dir_keys_snoc versions_key_def)
  qed
  moreover have "space ?fs3 = space ?fs - length c"
    using fwrite_space [OF node2] by simp
  ultimately show ?thesis
    by (intro exI [of _ ?fs3]) (simp add: same_env_def)
qed

section \<open>WRITE\<close>

text \<open>What a \<open>WRITE\<close> of the pieces \<open>ps\<close> to \<open>ds/f\<close> needs besides room for the old version.\<close>

definition can_receive :: "nat \<Rightarrow> string list \<Rightarrow> string \<Rightarrow> bytes list \<Rightarrow> world \<Rightarrow> bool" where
  "can_receive n ds f ps w \<longleftrightarrow>
     (\<forall>c \<in> set (ds @ [f]). plain c) \<and> length (join (ds @ [f])) < MAX_PATH_LEN \<and>
     can_make_dirs (dir_keys (cwd (files w)) ds) (files w) \<and>
     cwd (files w) @ ds @ [f] \<notin> set (readonly (files w)) \<and>
     length (concat ps) \<le> n \<and> sends_whole (conn w)"

lemma can_make_dirs_last:
  assumes "wf_fs fs" and "can_make_dirs (dir_keys (cwd fs) ds) fs"
  shows "node_at (make_dirs (dir_keys (cwd fs) ds) fs) (cwd fs @ ds) = Some Dir"
proof (cases "ds = []")
  case True
  with wf_fs_cwd [OF assms(1)] show ?thesis by (simp add: make_dirs_node)
next
  case False
  from last_dir_key [OF this, of "cwd fs"] assms(2) show ?thesis
    by (auto simp: make_dirs_node can_make_dirs_def)
qed

lemma not_own_dir: "cwd fs @ ds @ [f] \<notin> set (dir_keys (cwd fs) ds)"
proof
  assume "cwd fs @ ds @ [f] \<in> set (dir_keys (cwd fs) ds)"
  then obtain i where "i \<le> length ds" "cwd fs @ ds @ [f] = cwd fs @ take i ds"
    by (auto simp: set_dir_keys)
  then have "length (ds @ [f]) \<le> length ds" by (metis append_eq_append_conv2 length_take min.cobounded1 same_append_eq)
  then show False by simp
qed

lemma write_stored:
  \<comment> \<open>the second half of a \<open>WRITE\<close>: the file is received as far as there is space, and the
     response says whether there was enough\<close>
  assumes "wf_fs (files w)" and "can_receive n ds f ps w0" and "conn w = conn w0"
    and "same_env (files w0) (files w)" and "node_at (files w) (cwd (files w) @ ds) = Some Dir"
    and "node_at (files w) (cwd (files w) @ ds @ [f]) \<noteq> Some Dir"
    and "inbox (conn w) = map Arrive ps @ evs" and "l = int (length (concat ps))"
  shows "\<exists>fs' ps'.
    andThen (receiveFileContents n (join (ds @ [f])) l w) (\<lambda>(status2, w3).
      andThen (buildAndSendResponse status2 0 (Some '''') (conn w3)) (\<lambda>(_, s4). Inr (w3\<lparr>conn := s4\<rparr>))) =
      Inr (w\<lparr>files := fs', conn := (conn w)\<lparr>inbox := map Arrive ps' @ evs,
            outbox := outbox (conn w) @
              (if length (concat ps) \<le> space (files w) then ''1,0,NULL'' else ''0,0,NULL'')\<rparr>\<rparr>) \<and>
    concat ps' = [] \<and> wf_fs fs' \<and> same_env (files w) fs' \<and>
    space fs' = space (files w) - length (concat ps) \<and>
    node_at fs' =
      (node_at (files w))(cwd (files w) @ ds @ [f] \<mapsto> File (take (space (files w)) (concat ps)))"
proof -
  have rel: "rel_path (ds @ [f])" and rw: "cwd (files w) @ ds @ [f] \<notin> set (readonly (files w))"
    and fuel: "length (concat ps) \<le> n" and whole: "sends_whole (conn w)"
    using assms(2-4) by (auto simp: can_receive_def rel_path_def same_env_def)
  from receiveFileContents_file [OF assms(1) rel _ assms(6) rw assms(7,8) fuel] assms(5)
  obtain fs' ps' where "receiveFileContents n (join (ds @ [f])) l w =
      Inr (length (concat ps) \<le> space (files w), w\<lparr>files := fs', conn := (conn w)\<lparr>inbox := map Arrive ps' @ evs\<rparr>\<rparr>)"
    and "concat ps' = [] \<and> wf_fs fs' \<and> same_env (files w) fs' \<and>
    space fs' = space (files w) - length (concat ps) \<and>
    node_at fs' =
      (node_at (files w))(cwd (files w) @ ds @ [f] \<mapsto> File (take (space (files w)) (concat ps)))"
    by (auto simp: same_env_def)
  then show ?thesis
    by (intro exI [of _ fs'] exI [of _ ps']) (simp add: buildAndSend_zero whole)
qed

lemma write_new:
  assumes "wf_fs (files w)" and "can_receive n ds f ps w"
    and "node_at (files w) (cwd (files w) @ ds @ [f]) = None"
    and "inbox (conn w) = map Arrive ps @ evs"
    and "remote_path r = join (ds @ [f])" and "data_len r = int (length (concat ps))"
    and "length (concat ps) \<le> space (files w)"
  shows "\<exists>fs' ps'. handleWriteRequest n r w =
      Inr (w\<lparr>files := fs', conn := (conn w)\<lparr>inbox := map Arrive ps' @ evs,
                                          outbox := outbox (conn w) @ ''1,0,NULL''\<rparr>\<rparr>) \<and>
    concat ps' = [] \<and> wf_fs fs' \<and> same_env (files w) fs' \<and>
    space fs' = space (files w) - length (concat ps) \<and>
    (\<forall>k. node_at fs' k =
      (if k = cwd (files w) @ ds @ [f] then Some (File (concat ps))
       else if k \<in> set (dir_keys (cwd (files w)) ds) then Some Dir
       else node_at (files w) k))"
proof -
  let ?fs1 = "make_dirs (dir_keys (cwd (files w)) ds) (files w)"
  let ?w1 = "w\<lparr>files := ?fs1\<rparr>"
  have mk: "createNestedDirectories (join (ds @ [f])) (files w) = Inr (True, ?fs1)" and wf1: "wf_fs ?fs1"
    using createNestedDirectories_join [OF assms(1), of ds f] assms(2) by (simp_all add: can_receive_def)
  have rel: "rel_path (ds @ [f])" using assms(2) by (simp add: can_receive_def rel_path_def)
  have none: "node_at ?fs1 (cwd (files w) @ ds @ [f]) = None"
    using assms(3) not_own_dir by (auto simp: make_dirs_node)
  have save: "saveCurrentVersion n (join (ds @ [f])) ?w1 = Inr (True, ?w1)"
    using none by (intro saveCurrentVersion_new) (simp_all add: wf1 rel)
  have dir: "node_at ?fs1 (cwd (files w) @ ds) = Some Dir"
    using can_make_dirs_last [OF assms(1)] assms(2) by (simp add: can_receive_def)
  have "handleWriteRequest n r w =
    andThen (receiveFileContents n (join (ds @ [f])) (data_len r) ?w1) (\<lambda>(status2, w3).
      andThen (buildAndSendResponse status2 0 (Some '''') (conn w3)) (\<lambda>(_, s4). Inr (w3\<lparr>conn := s4\<rparr>)))"
    using mk save assms(5) by (simp add: handleWriteRequest_def)
  with write_stored [of ?w1 n ds f ps w evs "data_len r"] assms(2,4,6,7) wf1 dir none
  obtain fs' ps' where run: "handleWriteRequest n r w =
      Inr (w\<lparr>files := fs', conn := (conn w)\<lparr>inbox := map Arrive ps' @ evs,
                                          outbox := outbox (conn w) @ ''1,0,NULL''\<rparr>\<rparr>)"
    and fs': "concat ps' = []" "wf_fs fs'" "same_env (files w) fs'"
      "space fs' = space (files w) - length (concat ps)"
    and node: "node_at fs' = (node_at ?fs1)(cwd (files w) @ ds @ [f] \<mapsto> File (concat ps))"
    by (auto simp: same_env_def)
  have "can_make_dirs (dir_keys (cwd (files w)) ds) (files w)"
    using assms(2) by (simp add: can_receive_def)
  then have "\<forall>k. node_at fs' k = (if k = cwd (files w) @ ds @ [f] then Some (File (concat ps))
       else if k \<in> set (dir_keys (cwd (files w)) ds) then Some Dir
       else node_at (files w) k)"
    by (auto simp: node make_dirs_node can_make_dirs_def)
  with run fs' show ?thesis by blast
qed

text \<open>
  A \<open>WRITE\<close> of a file that does not exist yet, in any division of its bytes into pieces:
  afterwards the file holds exactly the bytes sent, the missing directories above it exist, no
  version is made, every other entry of the tree is unchanged, exactly the announced bytes have
  been taken from the connection and \<open>1,0,NULL\<close> has been sent back.
\<close>

theorem handleWriteRequest_new:
  assumes "wf_fs (files w)" and "can_receive n ds f ps w"
    and "node_at (files w) (cwd (files w) @ ds @ [f]) = None"
    and "inbox (conn w) = map Arrive ps @ evs"
    and "remote_path r = join (ds @ [f])" and "data_len r = int (length (concat ps))"
    and "length (concat ps) \<le> space (files w)"
  shows "\<exists>fs' ps'. handleWriteRequest n r w =
      Inr (w\<lparr>files := fs', conn := (conn w)\<lparr>inbox := map Arrive ps' @ evs,
                                          outbox := outbox (conn w) @ ''1,0,NULL''\<rparr>\<rparr>) \<and>
    concat ps' = [] \<and> wf_fs fs' \<and> same_env (files w) fs' \<and>
    space fs' = space (files w) - length (concat ps) \<and>
    (\<forall>k. node_at fs' k =
      (if k = cwd (files w) @ ds @ [f] then Some (File (concat ps))
       else if k \<in> set (dir_keys (cwd (files w)) ds) then Some Dir
       else node_at (files w) k))"
  using assms by (rule write_new)

lemma write_existing:
  \<comment> \<open>a \<open>WRITE\<close> of a file that exists, with whatever space there is\<close>
  assumes "wf_fs (files w)" and "can_receive n ds f ps w" and "can_save n ds f (length old) w"
    and "node_at (files w) (cwd (files w) @ ds @ [f]) = Some (File old)"
    and "inbox (conn w) = map Arrive ps @ evs"
    and "remote_path r = join (ds @ [f])" and "data_len r = int (length (concat ps))"
  shows "\<exists>fs' ps'. handleWriteRequest n r w =
      Inr (w\<lparr>files := fs', conn := (conn w)\<lparr>inbox := map Arrive ps' @ evs,
            outbox := outbox (conn w) @
              (if length (concat ps) \<le> space (files w) - length old then ''1,0,NULL'' else ''0,0,NULL'')\<rparr>\<rparr>) \<and>
    concat ps' = [] \<and> wf_fs fs' \<and> same_env (files w) fs' \<and>
    space fs' = space (files w) - length old - length (concat ps) \<and>
    node_at fs' = (node_at (files w))
      (versions_key (files w) ds \<mapsto> Dir,
       version_key (files w) ds (version_name f (clock w)) \<mapsto> File (take (space (files w)) old),
       cwd (files w) @ ds @ [f] \<mapsto> File (take (space (files w) - length old) (concat ps)))"
proof -
  have pl: "\<forall>c \<in> set (ds @ [f]). plain c" and len: "length (join (ds @ [f])) < MAX_PATH_LEN"
    and can: "can_make_dirs (dir_keys (cwd (files w)) ds) (files w)"
    using assms(2) by (simp_all add: can_receive_def)
  have "make_dirs (dir_keys (cwd (files w)) ds) (files w) = files w"
    using existing_dirs [OF assms(1), of ds f] assms(4) by (intro make_dirs_existing) simp
  then have mk: "createNestedDirectories (join (ds @ [f])) (files w) = Inr (True, files w)"
    using createNestedDirectories_join [OF assms(1) pl len can] by simp
  from saveCurrentVersion_existing [OF assms(1,4,3)] obtain fs2 where
    save: "saveCurrentVersion n (join (ds @ [f])) w = Inr (True, w\<lparr>files := fs2\<rparr>)"
    and wf2: "wf_fs fs2" and env: "same_env (files w) fs2"
    and space2: "space fs2 = space (files w) - length old"
    and node2: "node_at fs2 = (node_at (files w))(versions_key (files w) ds \<mapsto> Dir,
                     version_key (files w) ds (version_name f (clock w)) \<mapsto>
                       File (take (space (files w)) old))"
    by blast
  have cwd2: "cwd fs2 = cwd (files w)" using env by (simp add: same_env_def)
  have dot: "f \<noteq> ''.versions''"
    using assms(3,4) last_dir_key [of "ds @ [''.versions'']" "cwd (files w)"]
    by (force simp: can_save_def can_make_dirs_def Let_def)
  have dir: "node_at fs2 (cwd (files w) @ ds) = Some Dir"
    using rel_node_parent [OF assms(1) _ assms(4)] pl unfolding node2
    by (simp add: rel_path_def versions_key_def version_key_def)
  have nodir: "node_at fs2 (cwd (files w) @ ds @ [f]) \<noteq> Some Dir"
    using assms(4) dot unfolding node2 by (simp add: versions_key_def version_key_def)
  have "handleWriteRequest n r w =
    andThen (receiveFileContents n (join (ds @ [f])) (data_len r) (w\<lparr>files := fs2\<rparr>)) (\<lambda>(status2, w3).
      andThen (buildAndSendResponse status2 0 (Some '''') (conn w3)) (\<lambda>(_, s4). Inr (w3\<lparr>conn := s4\<rparr>)))"
    using mk save assms(6) by (simp add: handleWriteRequest_def)
  with write_stored [of "w\<lparr>files := fs2\<rparr>" n ds f ps w evs "data_len r"] assms(2,5,7)
    wf2 dir nodir env space2 cwd2 node2
  show ?thesis by (auto simp: same_env_def)
qed

lemma write_existing_fits:
  assumes "wf_fs (files w)" and "can_receive n ds f ps w" and "can_save n ds f (length old) w"
    and "node_at (files w) (cwd (files w) @ ds @ [f]) = Some (File old)"
    and "inbox (conn w) = map Arrive ps @ evs"
    and "remote_path r = join (ds @ [f])" and "data_len r = int (length (concat ps))"
    and "length old + length (concat ps) \<le> space (files w)"
  shows "\<exists>fs' ps'. handleWriteRequest n r w =
      Inr (w\<lparr>files := fs', conn := (conn w)\<lparr>inbox := map Arrive ps' @ evs,
                                          outbox := outbox (conn w) @ ''1,0,NULL''\<rparr>\<rparr>) \<and>
    concat ps' = [] \<and> wf_fs fs' \<and> same_env (files w) fs' \<and>
    space fs' = space (files w) - length old - length (concat ps) \<and>
    node_at fs' = (node_at (files w))
      (versions_key (files w) ds \<mapsto> Dir,
       version_key (files w) ds (version_name f (clock w)) \<mapsto> File old,
       cwd (files w) @ ds @ [f] \<mapsto> File (concat ps))"
proof -
  from assms(8) have le: "length (concat ps) \<le> space (files w) - length old"
    and all: "take (space (files w)) old = old" "take (space (files w) - length old) (concat ps) = concat ps"
    by simp_all
  show ?thesis using write_existing [OF assms(1-7)] unfolding if_P [OF le] all .
qed

text \<open>
  C18. A \<open>WRITE\<close> of a file that exists, in any division of its bytes into pieces: afterwards the
  file holds exactly the bytes sent, the version file named after the file and the time holds
  the old contents, the version folder exists, every other entry of the tree is unchanged
  and \<open>1,0,NULL\<close> has been sent back.
\<close>

theorem handleWriteRequest_existing:
  assumes "wf_fs (files w)" and "can_receive n ds f ps w" and "can_save n ds f (length old) w"
    and "node_at (files w) (cwd (files w) @ ds @ [f]) = Some (File old)"
    and "inbox (conn w) = map Arrive ps @ evs"
    and "remote_path r = join (ds @ [f])" and "data_len r = int (length (concat ps))"
    and "length old + length (concat ps) \<le> space (files w)"
  shows "\<exists>fs' ps'. handleWriteRequest n r w =
      Inr (w\<lparr>files := fs', conn := (conn w)\<lparr>inbox := map Arrive ps' @ evs,
                                          outbox := outbox (conn w) @ ''1,0,NULL''\<rparr>\<rparr>) \<and>
    concat ps' = [] \<and> wf_fs fs' \<and> same_env (files w) fs' \<and>
    space fs' = space (files w) - length old - length (concat ps) \<and>
    node_at fs' = (node_at (files w))
      (versions_key (files w) ds \<mapsto> Dir,
       version_key (files w) ds (version_name f (clock w)) \<mapsto> File old,
       cwd (files w) @ ds @ [f] \<mapsto> File (concat ps))"
  using assms by (rule write_existing_fits)


section \<open>GET\<close>

lemma get_file:
  assumes "wf_fs (files w)" and "rel_path cs" and "remote_path r = join cs"
    and "node_at (files w) (cwd (files w) @ cs) = Some (File c)"
    and "sends_whole (conn w)" and "\<not> power_of_ten (length c)" and "length c < n * MAX_BUFF_SIZE"
  shows "\<exists>s'. handleGetRequest n r w = Inr (w\<lparr>conn := s'\<rparr>) \<and> inbox s' = inbox (conn w) \<and>
    is_closed s' = is_closed (conn w) \<and> sends_ok s' \<and>
    outbox s' = outbox (conn w) @ ''1,'' @ show_int (int (length c)) @ '',OK'' @ c"
proof -
  let ?s1 = "(conn w)\<lparr>outbox := outbox (conn w) @ ''1,'' @ show_int (int (length c)) @ '',OK''\<rparr>"
  have size: "getFileSize (files w) (join cs) = int (length c)"
    using getFileSize_join [OF assms(1,2)] assms(4) by simp
  have "buildAndSendResponse True (int (length c)) (Some ''OK'') (conn w) = Inr (True, ?s1)"
    using assms(5,6) by (simp add: buildAndSend_length)
  moreover have "sends_ok ?s1" using assms(5) by (simp add: sends_whole_ok)
  ultimately show ?thesis
    using sendFileContents_file [of "w\<lparr>conn := ?s1\<rparr>" cs c n "int (length c)"] assms(1-4,7) size
    by (auto simp: handleGetRequest_def)
qed

text \<open>
  C19. A \<open>GET\<close> of a regular file sends the response \<open>1,length,OK\<close> and then exactly the
  contents of the file; the files are not changed and nothing is taken from the connection. The length must
  not be a power of ten.
\<close>

theorem handleGetRequest_file:
  assumes "wf_fs (files w)" and "rel_path cs" and "remote_path r = join cs"
    and "node_at (files w) (cwd (files w) @ cs) = Some (File c)"
    and "sends_whole (conn w)" and "\<not> power_of_ten (length c)" and "length c < n * MAX_BUFF_SIZE"
  shows "\<exists>s'. handleGetRequest n r w = Inr (w\<lparr>conn := s'\<rparr>) \<and> inbox s' = inbox (conn w) \<and>
    is_closed s' = is_closed (conn w) \<and> sends_ok s' \<and>
    outbox s' = outbox (conn w) @ ''1,'' @ show_int (int (length c)) @ '',OK'' @ c"
  using assms by (rule get_file)

text \<open>
  A \<open>GET\<close> of a file that does not exist is answered with status 0 and a message, and
  nothing else happens.
\<close>

theorem handleGetRequest_missing:
  assumes "wf_fs (files w)" and "rel_path cs" and "remote_path r = join cs"
    and "node_at (files w) (cwd (files w) @ cs) = None" and "sends_whole (conn w)"
  shows "handleGetRequest n r w = Inr (w\<lparr>conn := (conn w)\<lparr>outbox := outbox (conn w) @
    ''0,0,unable to open and/or get size of the requested file''\<rparr>\<rparr>)"
  using getFileSize_join [OF assms(1,2)] assms(3-5)
  by (simp add: handleGetRequest_def buildAndSend_zero)

text \<open>
  A \<open>GET\<close> of a file whose length is a power of ten writes the response behind the end
  of its buffer.
\<close>

theorem handleGetRequest_overflow:
  assumes "wf_fs (files w)" and "rel_path cs" and "remote_path r = join cs"
    and "node_at (files w) (cwd (files w) @ cs) = Some (File c)"
    and "sends_whole (conn w)" and "length c = 10 ^ d"
  shows "handleGetRequest n r w = Inl BufferOverflow"
proof -
  have "power_of_ten (length c)" using assms(6) power_of_ten_iff [of "length c"] by auto
  with getFileSize_join [OF assms(1,2)] assms(3-5) show ?thesis
    by (simp add: handleGetRequest_def buildAndSend_length)
qed

text \<open>
  A \<open>GET\<close> of a directory whose end \<open>ftell\<close> reports as a length does not return: the
  loop waits for an end of file that \<open>fread\<close> never reaches on a directory.
\<close>

theorem handleGetRequest_directory:
  assumes "wf_fs (files w)" and "rel_path cs" and "remote_path r = join cs"
    and "node_at (files w) (cwd (files w) @ cs) = Some Dir"
    and "sends_whole (conn w)" and "0 \<le> dir_end (files w)" and "\<not> power_of_ten (nat (dir_end (files w)))"
  shows "handleGetRequest n r w = Inl OutOfFuel"
  using getFileSize_join [OF assms(1,2)] fopen_rb_join [OF assms(1,2)] assms(3-7)
  by (simp add: handleGetRequest_def buildAndSend_length sendFileContents_def sendFile_loop_directory)

section \<open>RM\<close>

lemma distinct_children: "wf_fs fs \<Longrightarrow> distinct (map fst (children fs d))"
proof -
  assume "wf_fs fs"
  let ?es = "filter (\<lambda>(k, n). k \<noteq> [] \<and> butlast k = d) (nodes fs)"
  have "distinct (map fst ?es)"
    using wf_fs_distinct [OF \<open>wf_fs fs\<close>] by (rule distinct_map_fst_filter)
  moreover have "inj_on last (fst ` set ?es)"
    by (rule inj_onI) (auto, metis append_butlast_last_id)
  ultimately have "distinct (map last (map fst ?es))"
    by (subst distinct_map) simp
  moreover have "map fst (children fs d) = map last (map fst ?es)"
    by (simp add: children_def split_def)
  ultimately show ?thesis by simp
qed

definition removable :: "string list \<Rightarrow> string \<Rightarrow> filesys \<Rightarrow> bool" where
  \<comment> \<open>the process may remove every version that the code looks at, and their paths fit\<close>
  "removable ds f fs \<longleftrightarrow>
     (\<forall>(v, n) \<in> set (children fs (versions_key fs ds)).
        n \<noteq> Dir \<and> prefix f v \<longrightarrow>
        version_key fs ds v \<notin> set (readonly fs) \<and> length (join (ds @ [''.versions'', v])) < MAX_PATH_LEN)"

definition version_entries :: "string \<Rightarrow> (string \<times> node) list \<Rightarrow> string list" where
  "version_entries f es = map fst (filter (\<lambda>(v, n). n \<noteq> Dir \<and> prefix f v) es)"

lemma remove_versions_all:
  assumes "wf_fs fs" and "ds \<noteq> []" and "\<forall>c \<in> set ds. plain c" and "distinct (map fst es)"
    and "\<forall>(v, n) \<in> set es. n \<noteq> Dir \<and> prefix f v \<longrightarrow> node_at fs (version_key fs ds v) = Some n \<and>
        version_key fs ds v \<notin> set (readonly fs) \<and> length (join (ds @ [''.versions'', v])) < MAX_PATH_LEN"
  shows "remove_versions f (join (ds @ [''.versions''])) es True fs =
           Inr (True, fold drop_node (map (version_key fs ds) (version_entries f es)) fs) \<and>
         wf_fs (fold drop_node (map (version_key fs ds) (version_entries f es)) fs)"
  using assms
proof (induction es arbitrary: fs)
  case Nil
  then show ?case by (simp add: version_entries_def)
next
  case (Cons e es)
  obtain v n where e: "e = (v, n)" by force
  show ?case
  proof (cases "n \<noteq> Dir \<and> prefix f v")
    case False
    with Cons show ?thesis by (auto simp: e strncmp_eq_0_prefix version_entries_def)
  next
    case True
    let ?k = "version_key fs ds v"
    let ?fs = "drop_node ?k fs"
    from True Cons.prems(5) have k: "node_at fs ?k = Some n" "?k \<notin> set (readonly fs)"
      and len: "length (join (ds @ [''.versions'', v])) < MAX_PATH_LEN"
      by (auto simp: e)
    have "plain v"
      using wf_fs_parent(2) [OF Cons.prems(1) k(1)] by (simp add: version_key_def)
    with Cons.prems(3) have rel: "rel_path (ds @ [''.versions'', v])" by (simp add: rel_path_def)
    have rm: "remove (join (ds @ [''.versions'', v])) fs = Inr ?fs"
      using remove_join [OF Cons.prems(1) rel] k True by (simp add: version_key_def)
    have key: "version_key ?fs ds = version_key fs ds" by (simp add: version_key_def fun_eq_iff)
    have "\<forall>(v', n') \<in> set es. n' \<noteq> Dir \<and> prefix f v' \<longrightarrow> node_at ?fs (version_key ?fs ds v') = Some n' \<and>
        version_key ?fs ds v' \<notin> set (readonly ?fs) \<and> length (join (ds @ [''.versions'', v'])) < MAX_PATH_LEN"
      using Cons.prems(4,5) unfolding key by (force simp: e version_key_def)
    then have "remove_versions f (join (ds @ [''.versions''])) es True ?fs =
           Inr (True, fold drop_node (map (version_key fs ds) (version_entries f es)) ?fs) \<and>
         wf_fs (fold drop_node (map (version_key fs ds) (version_entries f es)) ?fs)"
      using Cons.IH [of ?fs] wf_remove [OF rm Cons.prems(1)] Cons.prems(2-4) unfolding key by simp
    then show ?thesis
      using True rm len join_version_file [OF Cons.prems(2), of v]
      by (simp add: e strncmp_eq_0_prefix version_entries_def)
  qed
qed

lemma children_after_drop:
  "butlast k \<noteq> d \<or> k = [] \<Longrightarrow> set (children (drop_node k fs) d) = set (children fs d)"
  by (force simp: children_def drop_node_def AList.delete_eq)

lemma versions_removed:
  \<comment> \<open>the loop over the version folder once the file itself is gone\<close>
  assumes wf: "wf_fs fs" and ds: "ds \<noteq> []" and pl: "\<forall>c \<in> set (ds @ [f]). plain c"
    and rm: "remove (join (ds @ [f])) fs = Inr fs1" and fs1: "fs1 = drop_node (cwd fs @ ds @ [f]) fs"
    and d: "d = versions_key fs ds" and can: "removable ds f fs"
    and fs2: "fs2 = fold drop_node (map (version_key fs ds) (version_entries f (dir_entries fs1 d))) fs1"
  shows "remove_versions f (join (ds @ [''.versions''])) (dir_entries fs1 d) True fs1 = Inr (True, fs2)" and "wf_fs fs2"
    and "v \<in> set (version_entries f (dir_entries fs1 d)) \<longleftrightarrow>
      prefix f v \<and> (\<exists>c. node_at fs (version_key fs ds v) = Some (File c))"
proof -
  have wf1: "wf_fs fs1" using wf_remove [OF rm wf] .
  have key: "version_key fs1 ds = version_key fs ds" by (simp add: fs1 version_key_def fun_eq_iff)
  have "butlast (cwd fs @ ds @ [f]) \<noteq> d" by (simp add: d versions_key_def butlast_append)
  then have ch: "set (children fs1 d) = set (children fs d)" unfolding fs1 by (intro children_after_drop) simp
  have dist: "distinct (map fst (children fs1 d))" using distinct_children [OF wf1] .
  have at: "(v, n) \<in> set (children fs1 d) \<Longrightarrow> node_at fs1 (version_key fs1 ds v) = Some n" for v n
    using set_children [OF wf1, of v n d] by (simp add: d fs1 versions_key_def version_key_def)
  have dots: "remove_versions f (join (ds @ [''.versions''])) (dir_entries fs1 d) True fs1 =
      remove_versions f (join (ds @ [''.versions''])) (children fs1 d) True fs1"
    and ents: "version_entries f (dir_entries fs1 d) = version_entries f (children fs1 d)"
    by (simp_all add: dir_entries_def version_entries_def)
  have "\<forall>(v, n) \<in> set (children fs1 d). n \<noteq> Dir \<and> prefix f v \<longrightarrow>
      node_at fs1 (version_key fs1 ds v) = Some n \<and>
      version_key fs1 ds v \<notin> set (readonly fs1) \<and> length (join (ds @ [''.versions'', v])) < MAX_PATH_LEN"
    using can at unfolding removable_def ch key d [symmetric] by (fastforce simp: fs1)
  then show "remove_versions f (join (ds @ [''.versions''])) (dir_entries fs1 d) True fs1 = Inr (True, fs2)" and "wf_fs fs2"
    using remove_versions_all [OF wf1 ds _ dist, of f] pl unfolding dots ents key fs2 by simp_all
  have "v \<in> set (version_entries f (dir_entries fs1 d)) \<longleftrightarrow> (\<exists>n. (v, n) \<in> set (children fs d) \<and> n \<noteq> Dir \<and> prefix f v)"
    unfolding ents by (auto simp: version_entries_def ch image_iff)
  also have "\<dots> \<longleftrightarrow> prefix f v \<and> (\<exists>c. node_at fs (version_key fs ds v) = Some (File c))"
    using set_children [OF wf, of v _ d]
    by (auto simp: d versions_key_def version_key_def) (metis node.exhaust)
  finally show "v \<in> set (version_entries f (dir_entries fs1 d)) \<longleftrightarrow>
      prefix f v \<and> (\<exists>c. node_at fs (version_key fs ds v) = Some (File c))" .
qed

lemma remove_with_versions:
  assumes "wf_fs (files w)" and "ds \<noteq> []" and "\<forall>c \<in> set (ds @ [f]). plain c"
    and "length (join (ds @ [f])) < MAX_PATH_LEN" and "length (join (ds @ [''.versions''])) < MAX_PATH_LEN"
    and "remote_path r = join (ds @ [f])"
    and "node_at (files w) (cwd (files w) @ ds @ [f]) = Some (File c)"
    and "cwd (files w) @ ds @ [f] \<notin> set (readonly (files w))"
    and "node_at (files w) (versions_key (files w) ds) = Some Dir"
    and "removable ds f (files w)" and "sends_whole (conn w)"
  shows "\<exists>fs'. handleRemoveRequest r w =
      Inr (w\<lparr>files := fs', conn := (conn w)\<lparr>outbox := outbox (conn w) @ ''1,0,OK''\<rparr>\<rparr>) \<and>
    wf_fs fs' \<and> same_env (files w) fs' \<and> space fs' = space (files w) \<and>
    (\<forall>k. node_at fs' k =
      (if k = cwd (files w) @ ds @ [f] then None
       else if \<exists>v c. k = version_key (files w) ds v \<and> prefix f v \<and> node_at (files w) k = Some (File c)
         then None
       else node_at (files w) k))"
proof -
  let ?fs = "files w" and ?k = "cwd (files w) @ ds @ [f]" and ?d = "versions_key (files w) ds"
  let ?fs1 = "drop_node ?k ?fs"
  let ?es = "dir_entries ?fs1 ?d"
  let ?fs2 = "fold drop_node (map (version_key ?fs ds) (version_entries f ?es)) ?fs1"
  note wf = assms(1)
  have f: "CHR ''/'' \<notin> set f" "f \<noteq> []" and rel: "rel_path (ds @ [f])"
    and relv: "rel_path (ds @ [''.versions''])"
    using assms(3) by (simp_all add: plain_def rel_path_def)
  have rm: "remove (join (ds @ [f])) ?fs = Inr ?fs1"
    using remove_join [OF wf rel] assms(7,8) by simp
  have path: "join (ds @ [f]) \<noteq> ''''" using rel_path_join_nonempty [OF rel] .
  have "?d \<noteq> ?k" using assms(7,9) by auto
  then have "node_at ?fs1 (cwd ?fs1 @ ds @ [''.versions'']) = Some Dir"
    using assms(9) by (simp add: versions_key_def)
  then have op: "opendir ?fs1 (join (ds @ [''.versions''])) = Some ?d"
    using opendir_join [OF wf_remove [OF rm wf] relv] by (simp add: versions_key_def)
  note loop = versions_removed [OF wf assms(2,3) rm refl refl assms(10) refl]
  have run: "handleRemoveRequest r w =
      Inr (w\<lparr>files := ?fs2, conn := (conn w)\<lparr>outbox := outbox (conn w) @ ''1,0,OK''\<rparr>\<rparr>)"
    using extractDirectory_join [OF f assms(4)] extractBasename_join [OF f assms(4)]
      rm op loop(1) path assms(5,11)
    by (simp add: handleRemoveRequest_def Let_def assms(6) join_versions [OF assms(2)] respond_whole)
  have "\<forall>k. node_at ?fs2 k =
      (if k = ?k then None
       else if \<exists>v c. k = version_key ?fs ds v \<and> prefix f v \<and> node_at ?fs k = Some (File c) then None
       else node_at ?fs k)"
    by (auto simp: tree.get_fold_del loop(3))
  with run loop(2) show ?thesis by (intro exI [of _ ?fs2]) (simp add: same_env_def)
qed

text \<open>
  C20. An \<open>RM\<close> of a regular file with a version folder removes the file and every regular file
  in the version folder whose name begins with the name of the file, changes no other
  entry of the tree and answers \<open>1,0,OK\<close>.
\<close>

theorem handleRemoveRequest_versions:
  assumes "wf_fs (files w)" and "ds \<noteq> []" and "\<forall>c \<in> set (ds @ [f]). plain c"
    and "length (join (ds @ [f])) < MAX_PATH_LEN" and "length (join (ds @ [''.versions''])) < MAX_PATH_LEN"
    and "remote_path r = join (ds @ [f])"
    and "node_at (files w) (cwd (files w) @ ds @ [f]) = Some (File c)"
    and "cwd (files w) @ ds @ [f] \<notin> set (readonly (files w))"
    and "node_at (files w) (versions_key (files w) ds) = Some Dir"
    and "removable ds f (files w)" and "sends_whole (conn w)"
  shows "\<exists>fs'. handleRemoveRequest r w =
      Inr (w\<lparr>files := fs', conn := (conn w)\<lparr>outbox := outbox (conn w) @ ''1,0,OK''\<rparr>\<rparr>) \<and>
    wf_fs fs' \<and> same_env (files w) fs' \<and> space fs' = space (files w) \<and>
    (\<forall>k. node_at fs' k =
      (if k = cwd (files w) @ ds @ [f] then None
       else if \<exists>v c. k = version_key (files w) ds v \<and> prefix f v \<and> node_at (files w) k = Some (File c)
         then None
       else node_at (files w) k))"
  using assms by (rule remove_with_versions)

lemma remove_plain:
  assumes "wf_fs (files w)" and "ds \<noteq> []" and "\<forall>c \<in> set (ds @ [f]). plain c"
    and "length (join (ds @ [f])) < MAX_PATH_LEN" and "length (join (ds @ [''.versions''])) < MAX_PATH_LEN"
    and "remote_path r = join (ds @ [f])"
    and "node_at (files w) (cwd (files w) @ ds @ [f]) \<noteq> Some Dir"
    and "cwd (files w) @ ds @ [f] \<notin> set (readonly (files w))"
    and "node_at (files w) (versions_key (files w) ds) \<noteq> Some Dir" and "sends_whole (conn w)"
  shows "handleRemoveRequest r w =
    (if node_at (files w) (cwd (files w) @ ds @ [f]) = None then
       Inr (w\<lparr>conn := (conn w)\<lparr>outbox := outbox (conn w) @ ''0,0,unable to remove file''\<rparr>\<rparr>)
     else
       Inr (w\<lparr>files := drop_node (cwd (files w) @ ds @ [f]) (files w),
              conn := (conn w)\<lparr>outbox := outbox (conn w) @ ''1,0,OK''\<rparr>\<rparr>))"
proof -
  let ?k = "cwd (files w) @ ds @ [f]"
  let ?fs1 = "drop_node ?k (files w)"
  have f: "CHR ''/'' \<notin> set f" "f \<noteq> []" and rel: "rel_path (ds @ [f])"
    and relv: "rel_path (ds @ [''.versions''])"
    using assms(3) by (simp_all add: plain_def rel_path_def)
  have path: "join (ds @ [f]) \<noteq> ''''" using rel_path_join_nonempty [OF rel] .
  have rm: "remove (join (ds @ [f])) (files w) =
      (if node_at (files w) ?k = None then Inl ENOENT else Inr ?fs1)"
    using remove_join [OF assms(1) rel] assms(7,8) by (auto split: option.splits)
  have op: "opendir ?fs1 (join (ds @ [''.versions''])) = None" if "node_at (files w) ?k \<noteq> None"
    using opendir_join [of ?fs1, OF wf_remove [of "join (ds @ [f])", OF _ assms(1)] relv] rm that assms(9)
    by (simp add: versions_key_def)
  show ?thesis
    using extractDirectory_join [OF f assms(4)] extractBasename_join [OF f assms(4)] rm op path assms(5,10)
    by (simp add: handleRemoveRequest_def assms(6) join_versions [OF assms(2)] respond_whole)
qed

text \<open>
  An \<open>RM\<close> of a regular file without a version folder removes just this file and answers
  \<open>1,0,OK\<close>; an \<open>RM\<close> of what does not exist changes nothing and is answered with an error.
\<close>

theorem handleRemoveRequest_plain:
  assumes "wf_fs (files w)" and "ds \<noteq> []" and "\<forall>c \<in> set (ds @ [f]). plain c"
    and "length (join (ds @ [f])) < MAX_PATH_LEN" and "length (join (ds @ [''.versions''])) < MAX_PATH_LEN"
    and "remote_path r = join (ds @ [f])"
    and "node_at (files w) (cwd (files w) @ ds @ [f]) \<noteq> Some Dir"
    and "cwd (files w) @ ds @ [f] \<notin> set (readonly (files w))"
    and "node_at (files w) (versions_key (files w) ds) \<noteq> Some Dir" and "sends_whole (conn w)"
  shows "handleRemoveRequest r w =
    (if node_at (files w) (cwd (files w) @ ds @ [f]) = None then
       Inr (w\<lparr>conn := (conn w)\<lparr>outbox := outbox (conn w) @ ''0,0,unable to remove file''\<rparr>\<rparr>)
     else
       Inr (w\<lparr>files := drop_node (cwd (files w) @ ds @ [f]) (files w),
              conn := (conn w)\<lparr>outbox := outbox (conn w) @ ''1,0,OK''\<rparr>\<rparr>))"
  using assms by (rule remove_plain)

text \<open>
  C33. An \<open>RM\<close> destroys versions of other files: when a file is removed whose name is a proper
  prefix of the name of another file, all versions of that other file in the folder go too.
\<close>

theorem handleRemoveRequest_other_versions:
  assumes "wf_fs (files w)" and "ds \<noteq> []" and "\<forall>c \<in> set (ds @ [f]). plain c"
    and "length (join (ds @ [f])) < MAX_PATH_LEN" and "length (join (ds @ [''.versions''])) < MAX_PATH_LEN"
    and "remote_path r = join (ds @ [f])"
    and "node_at (files w) (cwd (files w) @ ds @ [f]) = Some (File c)"
    and "cwd (files w) @ ds @ [f] \<notin> set (readonly (files w))"
    and "node_at (files w) (versions_key (files w) ds) = Some Dir"
    and "removable ds f (files w)" and "sends_whole (conn w)"
    and "x \<noteq> ''''" and "node_at (files w) (cwd (files w) @ ds @ [f @ x]) = Some (File other)"
    and "node_at (files w) (version_key (files w) ds (version_name (f @ x) t)) = Some (File old)"
  shows "\<exists>w'. handleRemoveRequest r w = Inr w' \<and>
    node_at (files w') (cwd (files w) @ ds @ [f @ x]) = Some (File other) \<and>
    node_at (files w') (version_key (files w) ds (version_name (f @ x) t)) = None"
proof -
  let ?gone = "\<lambda>k. \<exists>v c. k = version_key (files w) ds v \<and> prefix f v \<and> node_at (files w) k = Some (File c)"
  obtain fs' where run: "handleRemoveRequest r w =
      Inr (w\<lparr>files := fs', conn := (conn w)\<lparr>outbox := outbox (conn w) @ ''1,0,OK''\<rparr>\<rparr>)"
    and node: "\<And>k. node_at fs' k =
      (if k = cwd (files w) @ ds @ [f] then None else if ?gone k then None else node_at (files w) k)"
    using remove_with_versions [OF assms(1-11)] by blast
  have "node_at fs' (cwd (files w) @ ds @ [f @ x]) = Some (File other)"
    using assms(12,13) by (simp add: node version_key_def)
  moreover have "?gone (version_key (files w) ds (version_name (f @ x) t))"
    using assms(14) by (intro exI [of _ "version_name (f @ x) t"] exI [of _ old]) (simp add: version_name_def)
  then have "node_at fs' (version_key (files w) ds (version_name (f @ x) t)) = None"
    by (simp add: node)
  ultimately show ?thesis using run by simp
qed

section \<open>WRITE and the versions that cannot be saved\<close>

lemma write_saves:
  \<comment> \<open>a \<open>WRITE\<close> to an existing file begins with saving its version\<close>
  assumes "wf_fs (files w)" and "\<forall>c \<in> set (ds @ [f]). plain c"
    and "length (join (ds @ [f])) < MAX_PATH_LEN"
    and "node_at (files w) (cwd (files w) @ ds @ [f]) \<noteq> None" and "remote_path r = join (ds @ [f])"
    and "saveCurrentVersion n (join (ds @ [f])) w = Inl e"
  shows "handleWriteRequest n r w = Inl e"
proof -
  have dirs: "\<forall>k \<in> set (dir_keys (cwd (files w)) ds). node_at (files w) k = Some Dir"
    using existing_dirs [OF assms(1,4)] by simp
  then have "can_make_dirs (dir_keys (cwd (files w)) ds) (files w)" by (simp add: can_make_dirs_def)
  then have "createNestedDirectories (join (ds @ [f])) (files w) = Inr (True, files w)"
    using createNestedDirectories_join [OF assms(1-3)] make_dirs_existing [OF dirs] by simp
  with assms(5,6) show ?thesis by (simp add: handleWriteRequest_def)
qed

text \<open>
  C34. A \<open>WRITE\<close> to an existing file writes behind the end of a local array when the path of the
  version has 260 characters or more, also if the path of the file itself fits.
\<close>

theorem handleWriteRequest_long_version:
  assumes "wf_fs (files w)" and "ds \<noteq> []" and "\<forall>c \<in> set (ds @ [f]). plain c"
    and "length (join (ds @ [f])) < MAX_PATH_LEN"
    and "MAX_PATH_LEN \<le> length (join (ds @ [''.versions'', version_name f (clock w)]))"
    and "node_at (files w) (cwd (files w) @ ds @ [f]) \<noteq> None" and "remote_path r = join (ds @ [f])"
  shows "handleWriteRequest n r w = Inl BufferOverflow"
proof -
  let ?v = "version_name f (clock w)"
  let ?vd = "join (ds @ [''.versions''])"
  have f: "CHR ''/'' \<notin> set f" "f \<noteq> []" and rel: "rel_path (ds @ [f])"
    using assms(3) by (simp_all add: plain_def rel_path_def)
  have op: "\<exists>s. fopen_rb (files w) (join (ds @ [f])) = Some s"
    using fopen_rb_join [OF assms(1) rel] assms(6) by (auto split: node.splits)
  have "andThen (store_string MAX_PATH_LEN ?vd) (\<lambda>version_directory.
      andThen (store_string MAX_PATH_LEN ?v) (\<lambda>version_filename.
      andThen (store_string MAX_PATH_LEN (version_directory @ ''/'' @ version_filename)) g)) = Inl BufferOverflow"
    for g :: "string \<Rightarrow> stop + bool \<times> world"
    using assms(5) by (simp add: store_string_def join_version_file [OF assms(2), simplified])
      (simp add: join_version_file [OF assms(2), simplified, symmetric])
  then have "saveCurrentVersion n (join (ds @ [f])) w = Inl BufferOverflow"
    using op extractDirectory_join [OF f assms(4)] extractBasename_join [OF f assms(4)]
    by (auto simp: saveCurrentVersion_def join_versions [OF assms(2)] makeVersionName_def)
  with write_saves [OF assms(1,3,4,6,7)] show ?thesis by blast
qed

text \<open>
  A \<open>WRITE\<close> to an existing file whose version folder the process may not write to passes a
  null pointer to \<open>fclose\<close>.
\<close>

theorem handleWriteRequest_no_version_file:
  assumes "wf_fs (files w)" and "ds \<noteq> []" and "\<forall>c \<in> set (ds @ [f]). plain c"
    and "length (join (ds @ [''.versions'', version_name f (clock w)])) < MAX_PATH_LEN"
    and "length (join (ds @ [f])) < MAX_PATH_LEN"
    and "node_at (files w) (cwd (files w) @ ds @ [f]) \<noteq> None" and "remote_path r = join (ds @ [f])"
    and "node_at (files w) (versions_key (files w) ds) = Some Dir"
    and "version_key (files w) ds (version_name f (clock w)) \<in> set (readonly (files w))"
  shows "handleWriteRequest n r w = Inl NullPointer"
proof -
  let ?v = "version_name f (clock w)"
  have f: "CHR ''/'' \<notin> set f" "f \<noteq> []" and rel: "rel_path (ds @ [f])" and plv: "plain ?v"
    and relv: "rel_path (ds @ [''.versions'', ?v])"
    using assms(3) version_name_plain by (simp_all add: plain_def rel_path_def)
  have op: "\<exists>s. fopen_rb (files w) (join (ds @ [f])) = Some s"
    using fopen_rb_join [OF assms(1) rel] assms(6) by (auto split: node.splits)
  have dirs: "\<forall>k \<in> set (dir_keys (cwd (files w)) (ds @ [''.versions''])). node_at (files w) k = Some Dir"
    using existing_dirs [OF assms(1,6)] assms(8) by (auto simp: dir_keys_snoc versions_key_def)
  then have can: "can_make_dirs (dir_keys (cwd (files w)) (ds @ [''.versions''])) (files w)"
    by (simp add: can_make_dirs_def)
  have mk: "createNestedDirectories (join (ds @ [''.versions'', ?v])) (files w) = Inr (True, files w)"
    using createNestedDirectories_join [OF assms(1), of "ds @ [''.versions'']" ?v] assms(3,4) plv can
      make_dirs_existing [OF dirs] by simp
  have no: "fopen_wb (files w) (join (ds @ [''.versions'', ?v])) = None"
    using fopen_wb_join [OF assms(1) relv] assms(9) by (simp add: version_key_def)
  have "length (join (ds @ [''.versions''])) < MAX_PATH_LEN \<and> length ?v < MAX_PATH_LEN"
    using assms(4) length_join_snoc [of "ds @ [''.versions'']" ?v] by simp
  then have "saveCurrentVersion n (join (ds @ [f])) w = Inl NullPointer"
    using op extractDirectory_join [OF f assms(5)] extractBasename_join [OF f assms(5)] mk no assms(4)
    by (auto simp: saveCurrentVersion_def join_versions [OF assms(2)] makeVersionName_def
        join_version_file [OF assms(2), simplified] copyFile_def)
  with write_saves [OF assms(1,3,5,6,7)] show ?thesis by blast
qed

section \<open>WRITE and the network\<close>

lemma write_new_run:
  \<comment> \<open>how far a \<open>WRITE\<close> to a new file is the loop that receives it\<close>
  assumes "wf_fs (files w)" and "can_receive n ds f ps w"
    and "node_at (files w) (cwd (files w) @ ds @ [f]) = None"
    and "remote_path r = join (ds @ [f])"
  shows "\<exists>fs1. node_at fs1 (cwd (files w) @ ds @ [f]) = Some (File []) \<and> space fs1 = space (files w) \<and>
    (\<forall>m. handleWriteRequest m r w =
      andThen (receive_loop m (data_len r) True (cwd (files w) @ ds @ [f]) fs1 (conn w))
        (\<lambda>(success, fs2, s'). andThen (buildAndSendResponse success 0 (Some '''') s')
           (\<lambda>(_, s4). Inr (w\<lparr>files := fs2, conn := s4\<rparr>))))"
proof -
  let ?k = "cwd (files w) @ ds @ [f]"
  let ?fs0 = "make_dirs (dir_keys (cwd (files w)) ds) (files w)"
  have mk: "createNestedDirectories (join (ds @ [f])) (files w) = Inr (True, ?fs0)" and wf0: "wf_fs ?fs0"
    using createNestedDirectories_join [OF assms(1), of ds f] assms(2) by (simp_all add: can_receive_def)
  have rel: "rel_path (ds @ [f])" and rw: "?k \<notin> set (readonly (files w))"
    using assms(2) by (simp_all add: can_receive_def rel_path_def)
  have none: "node_at ?fs0 ?k = None"
    using assms(3) not_own_dir by (auto simp: make_dirs_node)
  have dir: "node_at ?fs0 (cwd (files w) @ ds) = Some Dir"
    using can_make_dirs_last [OF assms(1)] assms(2) by (simp add: can_receive_def)
  have save: "saveCurrentVersion m (join (ds @ [f])) (w\<lparr>files := ?fs0\<rparr>) = Inr (True, w\<lparr>files := ?fs0\<rparr>)" for m
    using none by (intro saveCurrentVersion_new) (simp_all add: wf0 rel)
  have op: "fopen_wb ?fs0 (join (ds @ [f])) = Some (?k, put_node ?k (File []) ?fs0)"
    using fopen_wb_join [OF wf0 rel] none dir rw by simp
  have "handleWriteRequest m r w =
      andThen (receive_loop m (data_len r) True ?k (put_node ?k (File []) ?fs0) (conn w))
        (\<lambda>(success, fs2, s'). andThen (buildAndSendResponse success 0 (Some '''') s')
           (\<lambda>(_, s4). Inr (w\<lparr>files := fs2, conn := s4\<rparr>)))" for m
    using mk save op assms(4)
    by (simp add: handleWriteRequest_def receiveFileContents_def andThen_assoc split_def)
  then show ?thesis by (intro exI [of _ "put_node ?k (File []) ?fs0"]) simp
qed

text \<open>
  C32. When the client closes the connection before it has sent all the bytes that it has
  announced, the \<open>WRITE\<close> never returns: \<open>recv\<close> returns 0 again and again, and the loop
  does not test for it.
\<close>

theorem handleWriteRequest_peer_closes:
  assumes "wf_fs (files w)" and "can_receive m ds f ps w"
    and "node_at (files w) (cwd (files w) @ ds @ [f]) = None" and "remote_path r = join (ds @ [f])"
    and "inbox (conn w) = map Arrive ps @ PeerClosed # evs" and "int (length (concat ps)) < data_len r"
  shows "handleWriteRequest n r w = Inl OutOfFuel"
proof -
  let ?k = "cwd (files w) @ ds @ [f]"
  obtain fs1 where node: "node_at fs1 ?k = Some (File [])"
    and run: "handleWriteRequest n r w =
      andThen (receive_loop n (data_len r) True ?k fs1 (conn w))
        (\<lambda>(success, fs2, s'). andThen (buildAndSendResponse success 0 (Some '''') s')
           (\<lambda>(_, s4). Inr (w\<lparr>files := fs2, conn := s4\<rparr>)))"
    using write_new_run [OF assms(1-4)] by blast
  have "receive_loop n (data_len r) True ?k fs1 (conn w) = Inl OutOfFuel"
    using receive_loop_closes [OF assms(5,6) node] .
  with run show ?thesis by simp
qed

text \<open>
  C31. When \<open>recv\<close> fails before all the bytes have arrived, the file is cut off after the bytes
  that came, but the response reports success.
\<close>

theorem handleWriteRequest_recv_fails:
  assumes "wf_fs (files w)" and "can_receive n ds f ps w"
    and "node_at (files w) (cwd (files w) @ ds @ [f]) = None" and "remote_path r = join (ds @ [f])"
    and "inbox (conn w) = map Arrive ps @ RecvFails # evs" and "int (length (concat ps)) < data_len r"
    and "length (concat ps) \<le> space (files w)" and "length (concat ps) < n"
  shows "\<exists>w'. handleWriteRequest n r w = Inr w' \<and>
    outbox (conn w') = outbox (conn w) @ ''1,0,NULL'' \<and>
    node_at (files w') (cwd (files w) @ ds @ [f]) = Some (File (concat ps))"
proof -
  let ?k = "cwd (files w) @ ds @ [f]"
  obtain fs1 where node: "node_at fs1 ?k = Some (File [])" and sp: "space fs1 = space (files w)"
    and run: "handleWriteRequest n r w =
      andThen (receive_loop n (data_len r) True ?k fs1 (conn w))
        (\<lambda>(success, fs2, s'). andThen (buildAndSendResponse success 0 (Some '''') s')
           (\<lambda>(_, s4). Inr (w\<lparr>files := fs2, conn := s4\<rparr>)))"
    using write_new_run [OF assms(1-4)] by blast
  have "receive_loop n (data_len r) True ?k fs1 (conn w) =
      Inr (True, snd (fwrite ?k (concat ps) fs1), (conn w)\<lparr>inbox := evs\<rparr>)"
    using receive_loop_fails [OF assms(5,6) node assms(8)] assms(7) sp by simp
  with run assms(2,7) fwrite_node [OF node, of "concat ps"] sp show ?thesis
    by (simp add: buildAndSend_zero can_receive_def)
qed

end
