(* ===== verification/Lock_List.thy ===== *)
theory Lock_List
  imports C_Strings
begin

text \<open>
  The list of file locks of \<open>server/thread_manager.c\<close>: one read/write lock per file name, in a
  linked list on the heap that is searched and extended under a mutex. A pointer to a node is
  \<open>None\<close> for \<open>NULL\<close> or the number of a cell of the heap; \<open>malloc\<close> takes a new cell, \<open>free\<close>
  empties a cell, and an empty cell is never used again.
\<close>

section \<open>Nodes, the heap and the list\<close>

record rwlock =
  readers :: nat
  writer :: bool

record file_lock_node =
  filename :: string
  lock :: rwlock
  next_lock :: "nat option"

record file_lock_list =
  list_length :: int
  head_node :: "nat option"
  tail_node :: "nat option"
  mutex :: bool

type_synonym node_heap = "file_lock_node option list"

definition rwlock_init :: rwlock where
  "rwlock_init = \<lparr>readers = 0, writer = False\<rparr>"

definition deref :: "node_heap \<Rightarrow> nat option \<Rightarrow> stop + nat \<times> file_lock_node" where
  "deref h p =
     (case p of
        None \<Rightarrow> Inl NullPointer
      | Some a \<Rightarrow>
          if a < length h then (case h ! a of None \<Rightarrow> Inl UseAfterFree | Some n \<Rightarrow> Inr (a, n))
          else Inl UseAfterFree)"

section \<open>The operations\<close>

definition createLockNode :: "string option \<Rightarrow> node_heap \<Rightarrow> nat option \<times> node_heap" where
  "createLockNode name h =
     (case name of
        None \<Rightarrow> (None, h)
      | Some f \<Rightarrow>
          if length f = 0 then (None, h)
          else (Some (length h), h @ [Some \<lparr>filename = f, lock = rwlock_init, next_lock = None\<rparr>]))"

definition freeLockNode :: "nat option \<Rightarrow> node_heap \<Rightarrow> stop + node_heap" where
  "freeLockNode node h =
     (case node of
        None \<Rightarrow> Inr h
      | Some _ \<Rightarrow> andThen (deref h node) (\<lambda>(a, _). Inr (h[a := None])))"

definition createFileLockList :: file_lock_list where
  "createFileLockList = \<lparr>list_length = 0, head_node = None, tail_node = None, mutex = False\<rparr>"

definition addLockToList ::
  "nat option \<Rightarrow> file_lock_list option \<Rightarrow> node_heap \<Rightarrow> stop + file_lock_list option \<times> node_heap" where
  "addLockToList new_lock lock_list h =
     (case new_lock of
        None \<Rightarrow> Inr (lock_list, h)
      | Some _ \<Rightarrow>
          (case lock_list of
             None \<Rightarrow> Inr (None, h)
           | Some l \<Rightarrow>
               if list_length l = 0 then
                 Inr (Some (l\<lparr>head_node := new_lock, list_length := list_length l + 1\<rparr>), h)
               else if list_length l = 1 then
                 andThen (deref h (head_node l)) (\<lambda>(a, n).
                   Inr (Some (l\<lparr>tail_node := new_lock, list_length := list_length l + 1\<rparr>),
                        h[a := Some (n\<lparr>next_lock := new_lock\<rparr>)]))
               else
                 andThen (deref h (tail_node l)) (\<lambda>(a, n).
                   Inr (Some (l\<lparr>tail_node := new_lock, list_length := list_length l + 1\<rparr>),
                        h[a := Some (n\<lparr>next_lock := new_lock\<rparr>)]))))"

fun search_loop :: "nat \<Rightarrow> nat option \<Rightarrow> string option \<Rightarrow> node_heap \<Rightarrow> stop + nat option" where
  \<comment> \<open>the first argument is \<open>lock_list->length - i\<close>\<close>
  "search_loop 0 cur name h = Inr None"
| "search_loop (Suc n) cur name h =
     andThen (deref h cur) (\<lambda>(a, node).
       if equals (Some (filename node)) name then Inr (Some a)
       else search_loop n (next_lock node) name h)"

definition getLockFor ::
  "string option \<Rightarrow> file_lock_list option \<Rightarrow> node_heap \<Rightarrow>
   stop + nat option \<times> file_lock_list option \<times> node_heap" where
  "getLockFor name lock_list h =
     (case lock_list of
        None \<Rightarrow> Inr (None, None, h)
      | Some l \<Rightarrow>
          if mutex l then Inl Blocked
          else
            (let l1 = l\<lparr>mutex := True\<rparr> in
             andThen (search_loop (nat (list_length l1)) (head_node l1) name h) (\<lambda>found.
               (case found of
                  Some a \<Rightarrow> Inr (Some a, Some (l1\<lparr>mutex := False\<rparr>), h)
                | None \<Rightarrow>
                    (let (newLock, h1) = createLockNode name h in
                     andThen (addLockToList newLock (Some l1) h1) (\<lambda>(l2, h2).
                       Inr (newLock, map_option (mutex_update (\<lambda>_. False)) l2, h2)))))))"

fun free_loop :: "nat \<Rightarrow> nat option \<Rightarrow> node_heap \<Rightarrow> stop + node_heap" where
  "free_loop 0 cur h = Inr h"
| "free_loop (Suc n) cur h =
     andThen (deref h cur) (\<lambda>(a, node).
     andThen (freeLockNode (Some a) h) (\<lambda>h'. free_loop n (next_lock node) h'))"

definition freeFileLockList :: "file_lock_list option \<Rightarrow> node_heap \<Rightarrow> stop + node_heap" where
  "freeFileLockList lock_list h =
     (case lock_list of
        None \<Rightarrow> Inr h
      | Some l \<Rightarrow> free_loop (nat (list_length l)) (head_node l) h)"

section \<open>The shape of the list\<close>

text \<open>
  \<open>chain h p as\<close>: the nodes that are reached from \<open>p\<close> are those at the addresses \<open>as\<close>, in this
  order, and the last one has no successor.
\<close>

fun chain :: "node_heap \<Rightarrow> nat option \<Rightarrow> nat list \<Rightarrow> bool" where
  "chain h p [] \<longleftrightarrow> p = None"
| "chain h p (a # as) \<longleftrightarrow>
     p = Some a \<and> a < length h \<and> (case h ! a of None \<Rightarrow> False | Some n \<Rightarrow> chain h (next_lock n) as)"

definition name_at :: "node_heap \<Rightarrow> nat \<Rightarrow> string" where
  "name_at h a = (case h ! a of None \<Rightarrow> '''' | Some n \<Rightarrow> filename n)"

definition shape :: "file_lock_list \<Rightarrow> node_heap \<Rightarrow> nat list \<Rightarrow> bool" where
  "shape l h as \<longleftrightarrow>
     chain h (head_node l) as \<and> distinct as \<and> list_length l = int (length as) \<and>
     tail_node l = (if length as < 2 then None else Some (last as))"

definition list_inv :: "file_lock_list \<Rightarrow> node_heap \<Rightarrow> nat list \<Rightarrow> bool" where
  "list_inv l h as \<longleftrightarrow> shape l h as \<and> distinct (map (name_at h) as) \<and> \<not> mutex l"

lemma deref_Inr: "deref h p = Inr (a, n) \<longleftrightarrow> p = Some a \<and> a < length h \<and> h ! a = Some n"
  by (auto simp: deref_def split: option.splits if_splits)

lemma chain_addr: "chain h p as \<Longrightarrow> a \<in> set as \<Longrightarrow> a < length h \<and> h ! a \<noteq> None"
  by (induction as arbitrary: p) (auto split: option.splits)

lemma chain_extend: "chain h p as \<Longrightarrow> chain (h @ h') p as"
  by (induction as arbitrary: p) (auto simp: nth_append split: option.splits)

lemma chain_update:
  "chain h p as \<Longrightarrow> a \<notin> set as \<Longrightarrow> chain (h[a := x]) p as"
  by (induction as arbitrary: p) (auto split: option.splits)

lemma chain_append_node:
  assumes "chain h p as" and "as \<noteq> []" and "distinct as" and "h ! last as = Some n"
    and "b < length h" and "h ! b = Some m" and "next_lock m = None" and "b \<notin> set as"
  shows "chain (h[last as := Some (n\<lparr>next_lock := Some b\<rparr>)]) p (as @ [b])"
  using assms
proof (induction as arbitrary: p)
  case (Cons a as)
  show ?case
  proof (cases "as = []")
    case True
    with Cons.prems show ?thesis by (auto split: option.splits)
  next
    case False
    from Cons.prems obtain k where k: "p = Some a" "a < length h" "h ! a = Some k" "chain h (next_lock k) as"
      by (auto split: option.splits)
    from False Cons.prems have "last as \<noteq> a" by (metis distinct.simps(2) last_in_set)
    with k False Cons.IH [OF k(4)] Cons.prems show ?thesis by simp
  qed
qed simp

lemma search_loop_chain:
  "chain h p as \<Longrightarrow> search_loop (length as) p (Some f) h = Inr (find (\<lambda>a. name_at h a = f) as)"
  by (induction as arbitrary: p)
    (auto simp: deref_def name_at_def split: option.splits)

lemma add_to_shape:
  assumes "shape l h as" and "nd = \<lparr>filename = f, lock = rwlock_init, next_lock = None\<rparr>"
  shows "\<exists>l' h'. addLockToList (Some (length h)) (Some l) (h @ [Some nd]) = Inr (Some l', h') \<and>
    shape l' h' (as @ [length h]) \<and> mutex l' = mutex l \<and> length h' = length h + 1 \<and>
    h' ! length h = Some nd \<and>
    (\<forall>a < length h. map_option filename (h' ! a) = map_option filename (h ! a) \<and>
                    map_option lock (h' ! a) = map_option lock (h ! a))"
proof -
  let ?h = "h @ [Some nd]"
  have sh: "chain h (head_node l) as" "distinct as" "list_length l = int (length as)"
    "tail_node l = (if length as < 2 then None else Some (last as))"
    using assms(1) by (simp_all add: shape_def)
  have new: "length h \<notin> set as" using chain_addr [OF sh(1)] by blast
  show ?thesis
  proof (cases "as = []")
    case True
    with sh assms(2) show ?thesis
      by (intro exI) (auto simp: addLockToList_def shape_def nth_append)
  next
    case False
    then obtain n where last: "last as < length h" "h ! last as = Some n"
      using chain_addr [OF sh(1) last_in_set] by auto
    let ?h' = "?h[last as := Some (n\<lparr>next_lock := Some (length h)\<rparr>)]"
    let ?l' = "l\<lparr>tail_node := Some (length h), list_length := list_length l + 1\<rparr>"
    have chain: "chain ?h' (head_node l) (as @ [length h])"
      using chain_append_node [OF chain_extend [OF sh(1)] False sh(2), of "[Some nd]" n "length h" nd]
        last new assms(2) by (simp add: nth_append)
    have origin: "(if list_length l = 1 then head_node l else tail_node l) = Some (last as)"
      using sh False by (cases as) auto
    have "deref ?h (Some (last as)) = Inr (last as, n)"
      using last by (simp add: deref_Inr nth_append)
    then have "addLockToList (Some (length h)) (Some l) ?h = Inr (Some ?l', ?h')"
      using origin False sh(3) by (auto simp: addLockToList_def split: if_splits)
    moreover have "shape ?l' ?h' (as @ [length h])"
      using chain sh new False by (cases as) (simp_all add: shape_def)
    ultimately show ?thesis
      using last by (intro exI [of _ ?l'] exI [of _ ?h']) (simp add: nth_append nth_list_update)
  qed
qed

section \<open>The table that the list stands for\<close>

definition lock_map :: "node_heap \<Rightarrow> nat list \<Rightarrow> string \<Rightarrow> nat option" where
  "lock_map h as f = find (\<lambda>a. name_at h a = f) as"

lemma lock_map_Some: "lock_map h as f = Some a \<Longrightarrow> a \<in> set as \<and> name_at h a = f"
  by (auto simp: lock_map_def find_Some_iff)

lemma lock_map_None: "lock_map h as f = None \<longleftrightarrow> f \<notin> name_at h ` set as"
  by (auto simp: lock_map_def find_None_iff)

lemma find_snoc: "find P (xs @ [x]) = (case find P xs of None \<Rightarrow> if P x then Some x else None | Some y \<Rightarrow> Some y)"
  by (induction xs) auto

lemma find_cong_set: "(\<And>x. x \<in> set xs \<Longrightarrow> P x = Q x) \<Longrightarrow> find P xs = find Q xs"
  by (induction xs) auto

lemma getLockFor_search:
  assumes "list_inv l h as" and "f \<noteq> ''''"
  shows "search_loop (nat (list_length l)) (head_node l) (Some f) h = Inr (lock_map h as f)"
  using assms(1) search_loop_chain [of h "head_node l" as f] by (simp add: list_inv_def shape_def lock_map_def [abs_def])

lemma getLockFor_new:
  assumes inv: "list_inv l h as" and f: "f \<noteq> ''''" and None: "lock_map h as f = None"
  shows "\<exists>l' h'. getLockFor (Some f) (Some l) h = Inr (Some (length h), Some l', h') \<and> list_inv l' h' (as @ [length h]) \<and>
    lock_map h' (as @ [length h]) = (lock_map h as)(f \<mapsto> length h) \<and> length h \<notin> set as \<and>
    map_option lock (h' ! length h) = Some rwlock_init \<and> (\<forall>b \<in> set as. map_option lock (h' ! b) = map_option lock (h ! b))"
proof -
  let ?l1 = "l\<lparr>mutex := True\<rparr>" and ?b = "length h"
  let ?nd = "\<lparr>filename = f, lock = rwlock_init, next_lock = None\<rparr> :: file_lock_node"
  have chain: "chain h (head_node l) as" and dist: "distinct (map (name_at h) as)" and mx: "\<not> mutex l" and sh1: "shape ?l1 h as"
    using inv by (simp_all add: list_inv_def shape_def)
  from add_to_shape [OF sh1 refl] obtain l' h' where
    add: "addLockToList (Some ?b) (Some ?l1) (h @ [Some ?nd]) = Inr (Some l', h')"
    and sh': "shape l' h' (as @ [?b])" and new: "h' ! ?b = Some ?nd"
    and names: "\<And>a. a < ?b \<Longrightarrow> map_option filename (h' ! a) = map_option filename (h ! a)"
    and locks: "\<And>a. a < ?b \<Longrightarrow> map_option lock (h' ! a) = map_option lock (h ! a)"
    by blast
  have below: "a < ?b" if "a \<in> set as" for a using chain_addr [OF chain that] by blast
  have name: "name_at h' a = name_at h a" if "a \<in> set as" for a
    using names [OF below [OF that]] by (auto simp: name_at_def split: option.splits)
  have name_b: "name_at h' ?b = f" using new by (simp add: name_at_def)
  have "getLockFor (Some f) (Some l) h = Inr (Some ?b, Some (l'\<lparr>mutex := False\<rparr>), h')"
    using None getLockFor_search [OF inv f] mx add f by (simp add: getLockFor_def createLockNode_def)
  moreover have "list_inv (l'\<lparr>mutex := False\<rparr>) h' (as @ [?b])"
  proof -
    have "map (name_at h') as = map (name_at h) as" using name by simp
    with dist have "distinct (map (name_at h') as)" by metis
    moreover have "f \<notin> name_at h ` set as" using None by (simp add: lock_map_None)
    ultimately show ?thesis using sh' name name_b
      by (auto simp: list_inv_def shape_def)
  qed
  moreover have "lock_map h' (as @ [?b]) = (lock_map h as)(f \<mapsto> ?b)"
  proof
    fix g
    have "find (\<lambda>a. name_at h' a = g) as = find (\<lambda>a. name_at h a = g) as"
      using name by (intro find_cong_set) simp
    then show "lock_map h' (as @ [?b]) g = ((lock_map h as)(f \<mapsto> ?b)) g"
      using None name_b by (auto simp: lock_map_def find_snoc split: option.splits)
  qed
  ultimately show ?thesis using new locks below by (intro exI [of _ "l'\<lparr>mutex := False\<rparr>"] exI [of _ h']) auto
qed

lemma getLockFor_table:
  assumes inv: "list_inv l h as" and "f \<noteq> ''''"
  shows "\<exists>a l' h' as'. getLockFor (Some f) (Some l) h = Inr (Some a, Some l', h') \<and> list_inv l' h' as' \<and>
    lock_map h' as' = (lock_map h as)(f \<mapsto> a) \<and>
    (case lock_map h as f of
       Some b \<Rightarrow> a = b \<and> l' = l \<and> h' = h
     | None \<Rightarrow> a \<notin> set as \<and> map_option lock (h' ! a) = Some rwlock_init) \<and>
    (\<forall>b \<in> set as. map_option lock (h' ! b) = map_option lock (h ! b))"
proof (cases "lock_map h as f")
  case (Some a)
  have mx: "\<not> mutex l" using assms(1) by (simp add: list_inv_def)
  then have "l\<lparr>mutex := False\<rparr> = l" by simp
  with Some mx getLockFor_search [OF assms] have "getLockFor (Some f) (Some l) h = Inr (Some a, Some l, h)"
    by (simp add: getLockFor_def)
  with Some assms(1) show ?thesis
    by (intro exI [of _ a] exI [of _ l] exI [of _ h] exI [of _ as]) (simp add: map_upd_triv)
next
  case None
  from getLockFor_new [OF assms None] obtain l' h' where "getLockFor (Some f) (Some l) h = Inr (Some (length h), Some l', h')"
    "list_inv l' h' (as @ [length h])" "lock_map h' (as @ [length h]) = (lock_map h as)(f \<mapsto> length h)" "length h \<notin> set as"
    "map_option lock (h' ! length h) = Some rwlock_init" "\<forall>b \<in> set as. map_option lock (h' ! b) = map_option lock (h ! b)"
    by blast
  with None show ?thesis
    by (intro exI [of _ "length h"] exI [of _ l'] exI [of _ h'] exI [of _ "as @ [length h]"]) simp
qed

section \<open>The list as a table of locks\<close>

text \<open>
  What the worker threads rely on: asking for the lock of a name succeeds, gives the lock that
  was given for this name before, or else one that no other name has.
\<close>

fun get_all :: "('k \<Rightarrow> 's \<Rightarrow> stop + 'a \<times> 's) \<Rightarrow> 'k list \<Rightarrow> 's \<Rightarrow> stop + 'a list \<times> 's" where
  \<comment> \<open>calls one after the other, as the mutex orders them\<close>
  "get_all get [] s = Inr ([], s)"
| "get_all get (k # ks) s =
     andThen (get k s) (\<lambda>(a, s'). andThen (get_all get ks s') (\<lambda>(as, s''). Inr (a # as, s'')))"

locale lock_table =
  fixes get :: "'k \<Rightarrow> 's \<Rightarrow> stop + 'a \<times> 's"
    and table :: "'s \<Rightarrow> 'k \<Rightarrow> 'a option"
    and inv :: "'s \<Rightarrow> bool"
    and valid :: "'k \<Rightarrow> bool"
  assumes get_valid: "inv s \<Longrightarrow> valid k \<Longrightarrow> \<exists>a s'. get k s = Inr (a, s') \<and> inv s' \<and>
      table s' = (table s)(k \<mapsto> a) \<and> (table s k = Some a \<or> table s k = None \<and> a \<notin> ran (table s))"
    and table_inject: "inv s \<Longrightarrow> table s k = Some a \<Longrightarrow> table s k' = Some a \<Longrightarrow> k = k'"
begin

lemma get_known: "inv s \<Longrightarrow> valid k \<Longrightarrow> table s k = Some a \<Longrightarrow> \<exists>s'. get k s = Inr (a, s') \<and> table s' = table s"
  using get_valid [of s k] by (auto simp: map_upd_triv)

lemma get_all_known:
  assumes "inv s" and "\<forall>k \<in> set ks. valid k"
  shows "\<exists>as s'. get_all get ks s = Inr (as, s') \<and> inv s' \<and> map Some as = map (table s') ks \<and>
    table s \<subseteq>\<^sub>m table s'"
  using assms
proof (induction ks arbitrary: s)
  case (Cons k ks)
  then obtain a s1 where s1: "get k s = Inr (a, s1)" "inv s1" "table s1 = (table s)(k \<mapsto> a)"
    "table s k = Some a \<or> table s k = None"
    using get_valid [of s k] by auto
  from Cons.IH [OF s1(2)] Cons.prems(2) obtain as s2 where s2:
    "get_all get ks s1 = Inr (as, s2)" "inv s2" "map Some as = map (table s2) ks" "table s1 \<subseteq>\<^sub>m table s2"
    by auto
  have le: "table s \<subseteq>\<^sub>m table s1" using s1(3,4) by (auto simp: map_le_def)
  have "table s1 k = Some a" using s1(3) by simp
  then have "table s2 k = Some a" using s2(4) by (force simp: map_le_def)
  with s1(1) s2 map_le_trans [OF le s2(4)] show ?case by simp
qed simp

lemma same_lock_iff_same_name:
  assumes "inv s" and "\<forall>k \<in> set ks. valid k"
  shows "\<exists>as s'. get_all get ks s = Inr (as, s') \<and> length as = length ks \<and>
    (\<forall>i < length ks. \<forall>j < length ks. as ! i = as ! j \<longleftrightarrow> ks ! i = ks ! j)"
proof -
  from get_all_known [OF assms] obtain as s' where
    s': "get_all get ks s = Inr (as, s')" "inv s'" "map Some as = map (table s') ks"
    by blast
  from s'(3) have len: "length as = length ks" by (metis length_map)
  have at: "table s' (ks ! i) = Some (as ! i)" if "i < length ks" for i
    using s'(3) that len by (metis nth_map)
  have "\<forall>i < length ks. \<forall>j < length ks. as ! i = as ! j \<longleftrightarrow> ks ! i = ks ! j"
    using at table_inject [OF s'(2)] by (metis option.inject)
  with s'(1) len show ?thesis by blast
qed

end

text \<open>The addresses of the nodes, and the table, as functions of the state of the server.\<close>

fun follow :: "nat \<Rightarrow> nat option \<Rightarrow> node_heap \<Rightarrow> nat list" where
  "follow (Suc n) (Some a) h = a # follow n (case h ! a of None \<Rightarrow> None | Some nd \<Rightarrow> next_lock nd) h"
| "follow _ _ h = []"

definition addresses :: "file_lock_list \<times> node_heap \<Rightarrow> nat list" where
  "addresses s = follow (nat (list_length (fst s))) (head_node (fst s)) (snd s)"

lemma follow_chain: "chain h p as \<Longrightarrow> follow (length as) p h = as"
  by (induction as arbitrary: p) (auto split: option.splits)

lemma addresses_inv: "list_inv l h as \<Longrightarrow> addresses (l, h) = as"
  by (simp add: list_inv_def shape_def addresses_def follow_chain)

definition locks_inv :: "file_lock_list \<times> node_heap \<Rightarrow> bool" where
  "locks_inv s \<longleftrightarrow> list_inv (fst s) (snd s) (addresses s)"

definition locks_table :: "file_lock_list \<times> node_heap \<Rightarrow> string \<Rightarrow> nat option" where
  "locks_table s = lock_map (snd s) (addresses s)"

definition get_lock :: "string \<Rightarrow> file_lock_list \<times> node_heap \<Rightarrow> stop + nat \<times> file_lock_list \<times> node_heap" where
  \<comment> \<open>\<open>getLockFor\<close> as the workers call it\<close>
  "get_lock name s =
     andThen (getLockFor (Some name) (Some (fst s)) (snd s)) (\<lambda>(a, l, h).
       case (a, l) of (Some a', Some l') \<Rightarrow> Inr (a', l', h) | _ \<Rightarrow> Inl NullPointer)"

lemma lock_map_inject:
  "lock_map h as f = Some a \<Longrightarrow> lock_map h as g = Some a \<Longrightarrow> f = g"
  using lock_map_Some by blast

lemma get_lock_table:
  assumes "locks_inv s" and "name \<noteq> ''''"
  shows "\<exists>a s'. get_lock name s = Inr (a, s') \<and> locks_inv s' \<and>
    locks_table s' = (locks_table s)(name \<mapsto> a) \<and>
    (locks_table s name = Some a \<or> locks_table s name = None \<and> a \<notin> ran (locks_table s)) \<and>
    (\<forall>b \<in> set (addresses s). map_option lock (snd s' ! b) = map_option lock (snd s ! b)) \<and>
    (locks_table s name = None \<longrightarrow> map_option lock (snd s' ! a) = Some rwlock_init)"
proof -
  obtain l h where s: "s = (l, h)" by force
  let ?as = "addresses (l, h)"
  from assms(1) have inv: "list_inv l h ?as" by (simp add: locks_inv_def s)
  from getLockFor_table [OF inv assms(2)] obtain a l' h' as' where
    get: "getLockFor (Some name) (Some l) h = Inr (Some a, Some l', h')" and inv': "list_inv l' h' as'"
    and map: "lock_map h' as' = (lock_map h ?as)(name \<mapsto> a)"
    and cs: "case lock_map h ?as name of
       Some b \<Rightarrow> a = b \<and> l' = l \<and> h' = h
     | None \<Rightarrow> a \<notin> set ?as \<and> map_option lock (h' ! a) = Some rwlock_init"
    and locks: "\<forall>b \<in> set ?as. map_option lock (h' ! b) = map_option lock (h ! b)"
    by blast
  have "lock_map h ?as name = Some a \<or> lock_map h ?as name = None \<and> a \<notin> ran (lock_map h ?as)"
    using cs lock_map_Some by (auto simp: ran_def split: option.splits)
  with get inv' map cs locks show ?thesis
    by (intro exI [of _ a] exI [of _ "(l', h')"])
      (auto simp: get_lock_def locks_inv_def locks_table_def s addresses_inv [OF inv'] split: option.splits)
qed

interpretation locks: lock_table get_lock locks_table locks_inv "\<lambda>name. name \<noteq> ''''"
proof
  fix s :: "file_lock_list \<times> node_heap" and k :: string
  assume "locks_inv s" and "k \<noteq> ''''"
  from get_lock_table [OF this] show "\<exists>a s'. get_lock k s = Inr (a, s') \<and> locks_inv s' \<and>
      locks_table s' = (locks_table s)(k \<mapsto> a) \<and>
      (locks_table s k = Some a \<or> locks_table s k = None \<and> a \<notin> ran (locks_table s))"
    by blast
next
  fix s :: "file_lock_list \<times> node_heap" and k a k'
  assume "locks_table s k = Some a" and "locks_table s k' = Some a"
  then show "k = k'" by (simp add: locks_table_def lock_map_inject)
qed

lemma addresses_create [simp]: "addresses (createFileLockList, h) = []"
  by (simp add: addresses_def createFileLockList_def)

lemma locks_inv_create: "locks_inv (createFileLockList, h)"
  by (simp add: locks_inv_def list_inv_def shape_def createFileLockList_def addresses_def)

section \<open>Properties of the lock list\<close>

text \<open>
  C21. Starting from a new list, any sequence of requests for locks, in whatever order the
  threads get the mutex, succeeds, and two of them get the same lock exactly if they name the
  same file.
\<close>

theorem getLockFor_same_lock:
  assumes "\<forall>name \<in> set names. name \<noteq> ''''"
  shows "\<exists>as s'. get_all get_lock names (createFileLockList, h) = Inr (as, s') \<and>
    length as = length names \<and>
    (\<forall>i < length names. \<forall>j < length names. as ! i = as ! j \<longleftrightarrow> names ! i = names ! j)"
  using locks.same_lock_iff_same_name [OF locks_inv_create assms] .

theorem getLockFor_same_lock_witness:
  "\<exists>a b c s'. get_all get_lock [''data/a'', ''data/b'', ''data/a''] (createFileLockList, []) =
     Inr ([a, b, c], s') \<and> a = c \<and> a \<noteq> b"
proof -
  let ?names = "[''data/a'', ''data/b'', ''data/a'']"
  obtain as s' where all: "get_all get_lock ?names (createFileLockList, []) = Inr (as, s')"
    and len: "length as = length ?names"
    and iff: "\<forall>i < length ?names. \<forall>j < length ?names. as ! i = as ! j \<longleftrightarrow> ?names ! i = ?names ! j"
    using getLockFor_same_lock [of ?names "[]"] by auto
  from len obtain a b c where as: "as = [a, b, c]" by (auto simp: length_Suc_conv)
  from iff [rule_format, of 0 2] iff [rule_format, of 0 1] all show ?thesis by (simp add: as)
qed

text \<open>
  One call of \<open>getLockFor\<close> on a well-formed list with a non-empty name: it returns a node,
  the list stays well-formed with the mutex free, the table from names to nodes is unchanged but
  for the entry of this name, a known name gets its old node and the list is not
  touched, and the locks of all nodes keep their state, that of a new node being free.
\<close>

theorem getLockFor_correct:
  assumes "list_inv l h as" and "f \<noteq> ''''"
  shows "\<exists>a l' h' as'. getLockFor (Some f) (Some l) h = Inr (Some a, Some l', h') \<and> list_inv l' h' as' \<and>
    lock_map h' as' = (lock_map h as)(f \<mapsto> a) \<and>
    (case lock_map h as f of
       Some b \<Rightarrow> a = b \<and> l' = l \<and> h' = h
     | None \<Rightarrow> a \<notin> set as \<and> map_option lock (h' ! a) = Some rwlock_init) \<and>
    (\<forall>b \<in> set as. map_option lock (h' ! b) = map_option lock (h ! b))"
  using assms by (rule getLockFor_table)

theorem getLockFor_correct_witness:
  "\<exists>a l' h' as'. getLockFor (Some ''data/a'') (Some createFileLockList) [] = Inr (Some a, Some l', h') \<and>
     list_inv l' h' as' \<and> lock_map h' as' = [''data/a'' \<mapsto> a]"
proof -
  have "list_inv createFileLockList [] []"
    by (simp add: list_inv_def shape_def createFileLockList_def)
  moreover have "lock_map [] [] = Map.empty" by (simp add: lock_map_def fun_eq_iff)
  ultimately show ?thesis using getLockFor_correct [of createFileLockList "[]" "[]" "''data/a''"] by fastforce
qed

lemma free_loop_chain:
  "chain h p as \<Longrightarrow> distinct as \<Longrightarrow>
   free_loop (length as) p h = Inr (fold (\<lambda>a h. h[a := None]) as h)"
proof (induction as arbitrary: h p)
  case (Cons a as)
  then obtain n where n: "p = Some a" "a < length h" "h ! a = Some n" "chain h (next_lock n) as"
    by (auto split: option.splits)
  with Cons.prems(2) Cons.IH [OF chain_update [OF n(4), of a None]] show ?case
    by (simp add: deref_def freeLockNode_def)
qed simp

text \<open>
  \<open>freeFileLockList\<close> frees every node of a well-formed list exactly once and reads no node
  after it has been freed.
\<close>

theorem freeFileLockList_correct:
  assumes "list_inv l h as"
  shows "freeFileLockList (Some l) h = Inr (fold (\<lambda>a h. h[a := None]) as h)"
  using assms free_loop_chain [of h "head_node l" as]
  by (simp add: list_inv_def shape_def freeFileLockList_def)

theorem freeFileLockList_correct_witness:
  "freeFileLockList (Some \<lparr>list_length = 1, head_node = Some 0, tail_node = None, mutex = False\<rparr>)
     [Some \<lparr>filename = ''data/a'', lock = rwlock_init, next_lock = None\<rparr>] = Inr [None]"
proof -
  have "list_inv \<lparr>list_length = 1, head_node = Some 0, tail_node = None, mutex = False\<rparr>
     [Some \<lparr>filename = ''data/a'', lock = rwlock_init, next_lock = None\<rparr>] [0]"
    by (simp add: list_inv_def shape_def)
  from freeFileLockList_correct [OF this] show ?thesis by simp
qed

section \<open>Free locks\<close>

definition all_free :: "file_lock_list \<times> node_heap \<Rightarrow> bool" where
  \<comment> \<open>no thread holds a lock of the list\<close>
  "all_free s \<longleftrightarrow> (\<forall>a \<in> set (addresses s). map_option lock (snd s ! a) = Some rwlock_init)"

lemma find_distinct:
  "distinct (map g as) \<Longrightarrow> a \<in> set as \<Longrightarrow> find (\<lambda>b. g b = g a) as = Some a"
  by (induction as) auto

lemma ran_locks_table: "locks_inv s \<Longrightarrow> ran (locks_table s) = set (addresses s)"
proof -
  assume "locks_inv s"
  then have "distinct (map (name_at (snd s)) (addresses s))" by (simp add: locks_inv_def list_inv_def)
  then have "a \<in> set (addresses s) \<Longrightarrow> lock_map (snd s) (addresses s) (name_at (snd s) a) = Some a" for a
    unfolding lock_map_def by (rule find_distinct)
  then show ?thesis
    using lock_map_Some by (auto simp: ran_def locks_table_def)
qed

lemma get_lock_free:
  assumes "locks_inv s" and "name \<noteq> ''''" and "all_free s" and "get_lock name s = Inr (a, s')"
  shows "all_free s'"
proof -
  from get_lock_table [OF assms(1,2)] assms(4) have inv: "locks_inv s'"
    and tab: "locks_table s' = (locks_table s)(name \<mapsto> a)"
    and cs: "locks_table s name = Some a \<or> locks_table s name = None \<and> a \<notin> ran (locks_table s)"
    and old: "\<forall>b \<in> set (addresses s). map_option lock (snd s' ! b) = map_option lock (snd s ! b)"
    and new: "locks_table s name = None \<longrightarrow> map_option lock (snd s' ! a) = Some rwlock_init"
    by auto
  have "set (addresses s') \<subseteq> insert a (set (addresses s))"
    unfolding ran_locks_table [OF inv, symmetric] ran_locks_table [OF assms(1), symmetric] tab
    by (auto simp: ran_def split: if_splits)
  moreover have "map_option lock (snd s' ! a) = Some rwlock_init"
  proof (cases "locks_table s name")
    case None
    with new show ?thesis by simp
  next
    case (Some b)
    with cs have "a \<in> set (addresses s)" by (auto simp: ran_locks_table [OF assms(1), symmetric] ran_def)
    with old assms(3) show ?thesis by (simp add: all_free_def)
  qed
  ultimately show ?thesis using old assms(3) unfolding all_free_def by (metis insert_iff subsetD)
qed

end
