(* ===== verification/Thread_Manager.thy ===== *)
theory Thread_Manager
  imports Request_Handler Lock_List
begin

text \<open>
  The worker thread of \<open>server/thread_manager.c\<close>: receiving a request, taking the read/write
  lock of the file, running the handler, releasing the lock and closing the socket. Here one
  thread runs by itself; a lock that is not free stops it for good. Threads that run
  concurrently are the subject of theory \<open>Workers\<close>.
\<close>

section \<open>Read/write locks\<close>

definition rwlock_wrlock :: "nat \<Rightarrow> node_heap \<Rightarrow> stop + node_heap" where
  "rwlock_wrlock a h =
     andThen (deref h (Some a)) (\<lambda>(_, n).
       if 0 < readers (lock n) \<or> writer (lock n) then Inl Blocked
       else Inr (h[a := Some (n\<lparr>lock := (lock n)\<lparr>writer := True\<rparr>\<rparr>)]))"

definition rwlock_rdlock :: "nat \<Rightarrow> node_heap \<Rightarrow> stop + node_heap" where
  "rwlock_rdlock a h =
     andThen (deref h (Some a)) (\<lambda>(_, n).
       if writer (lock n) then Inl Blocked
       else Inr (h[a := Some (n\<lparr>lock := (lock n)\<lparr>readers := readers (lock n) + 1\<rparr>\<rparr>)]))"

definition rwlock_unlock :: "nat \<Rightarrow> node_heap \<Rightarrow> stop + node_heap" where
  \<comment> \<open>unlocking a lock that nobody holds is undefined\<close>
  "rwlock_unlock a h =
     andThen (deref h (Some a)) (\<lambda>(_, n).
       if writer (lock n) then Inr (h[a := Some (n\<lparr>lock := (lock n)\<lparr>writer := False\<rparr>\<rparr>)])
       else if 0 < readers (lock n) then
         Inr (h[a := Some (n\<lparr>lock := (lock n)\<lparr>readers := readers (lock n) - 1\<rparr>\<rparr>)])
       else Inl Indeterminate)"

section \<open>The thread\<close>

definition receiveRequest :: "socket \<Rightarrow> stop + request_t option \<times> socket" where
  "receiveRequest s =
     andThen (recv MAX_BUFF_SIZE s) (\<lambda>(receiveStatus, bytes, s').
       if receiveStatus < 0 then Inr (None, s')
       else
         (let buffer = bytes @ replicate (MAX_BUFF_SIZE - length bytes) NUL in
          andThen (cstring_in buffer) (\<lambda>text.
          andThen (deSerializeRequest (Some text)) (\<lambda>req. Inr (req, s')))))"

record server_t =
  server_world :: world
  file_lock_manager :: "file_lock_list option"
  lock_heap :: node_heap

definition finish :: "world \<Rightarrow> world" where
  \<comment> \<open>\<open>close(socket)\<close>\<close>
  "finish w = w\<lparr>conn := close_socket (conn w)\<rparr>"

definition threadClientHandler :: "nat \<Rightarrow> server_t \<Rightarrow> stop + server_t" where
  "threadClientHandler n srv =
     andThen (receiveRequest (conn (server_world srv))) (\<lambda>(req, s1).
       (let w = (server_world srv)\<lparr>conn := s1\<rparr> in
        case req of
          None \<Rightarrow>
            andThen (respond False ''unable to receive request'' w) (\<lambda>w'.
              Inr (srv\<lparr>server_world := finish w'\<rparr>))
        | Some request \<Rightarrow>
            andThen (getLockFor (Some (remote_path request)) (file_lock_manager srv) (lock_heap srv))
              (\<lambda>(lockNode, mgr, h).
                (case lockNode of
                   None \<Rightarrow>
                     andThen (respond False ''failed to get file lock'' w) (\<lambda>w'.
                       Inr \<lparr>server_world = finish w', file_lock_manager = mgr, lock_heap = h\<rparr>)
                 | Some a \<Rightarrow>
                     andThen
                       (case command request of
                          WRITE \<Rightarrow>
                            andThen (rwlock_wrlock a h) (\<lambda>h1.
                            andThen (handleWriteRequest n request w) (\<lambda>w'.
                            andThen (rwlock_unlock a h1) (\<lambda>h2. Inr (w', h2))))
                        | RM \<Rightarrow>
                            andThen (rwlock_wrlock a h) (\<lambda>h1.
                            andThen (handleRemoveRequest request w) (\<lambda>w'.
                            andThen (rwlock_unlock a h1) (\<lambda>h2. Inr (w', h2))))
                        | GET \<Rightarrow>
                            andThen (rwlock_rdlock a h) (\<lambda>h1.
                            andThen (handleGetRequest n request w) (\<lambda>w'.
                            andThen (rwlock_unlock a h1) (\<lambda>h2. Inr (w', h2))))
                        | LS \<Rightarrow>
                            andThen (respond False ''optional command isn't implemented yet'' w)
                              (\<lambda>w'. Inr (w', h))
                        | UNKNOWN \<Rightarrow>
                            andThen (respond False ''didn't receive valid command'' w)
                              (\<lambda>w'. Inr (w', h)))
                       (\<lambda>(w', h').
                          Inr \<lparr>server_world = finish w', file_lock_manager = mgr, lock_heap = h'\<rparr>)))))"

section \<open>Receiving a request\<close>

lemma cstring_in_text:
  "cstr t \<Longrightarrow> length t < n \<Longrightarrow> cstring_in (t @ replicate (n - length t) NUL) = Inr t"
  by (rule cstring_in_padded) simp_all

lemma receive_piece:
  assumes "inbox s = Arrive b # evs" and "cstr b" and "b \<noteq> []" and "length b < MAX_BUFF_SIZE"
  shows "receiveRequest s =
    andThen (deSerializeRequest (Some b)) (\<lambda>req. Inr (req, s\<lparr>inbox := evs\<rparr>))"
  using assms cstring_in_text [OF assms(2,4)]
  by (simp add: receiveRequest_def recv_def Let_def)

lemma receive_text:
  assumes "inbox s = Arrive (ct @ '','' @ show_int l @ '','' @ p) # evs"
    and "command_string t = Inr ct" and "0 \<le> l" and "l \<le> LONG_MAX"
    and "p \<noteq> ''''" and "CHR '','' \<notin> set p" and "cstr p"
    and "length (ct @ '','' @ show_int l @ '','' @ p) < MAX_BUFF_SIZE"
  shows "receiveRequest s =
    Inr (Some \<lparr>command = t, remote_path = p, data_len = l\<rparr>, s\<lparr>inbox := evs\<rparr>)"
proof -
  have "cstr (ct @ '','' @ show_int l @ '','' @ p)"
    using assms(7) command_string_plain [OF assms(2)] show_int_plain [of l] by (simp add: cstr_def)
  with deSerializeRequest_text [OF assms(2-6), of "''''"] receive_piece [OF assms(1)] assms(8)
  show ?thesis by simp
qed

lemma receive_request:
  assumes "inbox s = Arrive (request_text r) # evs" and "command r \<noteq> UNKNOWN"
    and "0 \<le> data_len r" and "data_len r \<le> LONG_MAX"
    and "remote_path r \<noteq> ''''" and "CHR '','' \<notin> set (remote_path r)" and "cstr (remote_path r)"
    and "length (request_text r) < MAX_BUFF_SIZE"
  shows "receiveRequest s = Inr (Some r, s\<lparr>inbox := evs\<rparr>)"
proof -
  from assms(2) obtain ct where ct: "command_string (command r) = Inr ct"
    using command_string_defined by blast
  then have enc: "request_text r = ct @ '','' @ show_int (data_len r) @ '','' @ remote_path r"
    by (simp add: request_text_def)
  show ?thesis
    using receive_text [of s ct "data_len r" "remote_path r" evs "command r"] assms(1,3-8) ct unfolding enc
    by simp
qed

lemma receiveRequest_path:
  assumes "receiveRequest s = Inr (Some r, s')"
  shows "remote_path r \<noteq> ''''" and "command r \<noteq> UNKNOWN"
proof -
  from assms obtain t where "deSerializeRequest (Some t) = Inr (Some r)"
    by (auto simp: receiveRequest_def Let_def andThen_eq_Inr_conv split: if_splits)
  with deSerializeRequest_sound [of "Some t"] show "remote_path r \<noteq> ''''" and "command r \<noteq> UNKNOWN"
    by auto
qed

text \<open>
  A request arrives: when the encoding of a valid request comes in one piece that is shorter
  than the buffer, the thread gets exactly this request and takes nothing else from the
  connection.
\<close>

theorem receiveRequest_valid:
  assumes "valid_request r" and "cstr (remote_path r)" and "serializeRequest (Some r) = Inr (Some text)"
    and "length text < MAX_BUFF_SIZE" and "inbox s = Arrive text # evs"
  shows "receiveRequest s = Inr (Some r, s\<lparr>inbox := evs\<rparr>)"
proof -
  from assms(1) obtain ct where ct: "command_string (command r) = Inr ct"
    using command_string_defined by (auto simp: valid_request_def)
  with assms(1,3) have enc: "text = ct @ '','' @ show_int (data_len r) @ '','' @ remote_path r"
    by (simp add: valid_request_def serializeRequest_eq)
  with receive_text [of s ct "data_len r" "remote_path r" evs "command r"] ct assms
  show ?thesis by (simp add: valid_request_def)
qed

text \<open>
  C27. Nothing marks the end of a request: whatever comes in the same piece after the path
  belongs to the path. So a request for \<open>p\<close> whose file contents \<open>d\<close> come with it is taken
  for a request for \<open>p @ d\<close>, and one for \<open>p @ d\<close> that is cut after \<open>p\<close> for a request for \<open>p\<close>.
\<close>

theorem receiveRequest_no_framing:
  assumes "command_string t = Inr ct" and "0 \<le> l" and "l \<le> LONG_MAX"
    and "p \<noteq> ''''" and "CHR '','' \<notin> set (p @ d)" and "cstr (p @ d)"
    and "length (ct @ '','' @ show_int l @ '','' @ p @ d) < MAX_BUFF_SIZE"
  shows "receiveRequest (s\<lparr>inbox := Arrive (ct @ '','' @ show_int l @ '','' @ p @ d) # evs\<rparr>) =
           Inr (Some \<lparr>command = t, remote_path = p @ d, data_len = l\<rparr>, s\<lparr>inbox := evs\<rparr>) \<and>
         receiveRequest (s\<lparr>inbox := Arrive (ct @ '','' @ show_int l @ '','' @ p) # Arrive d # evs\<rparr>) =
           Inr (Some \<lparr>command = t, remote_path = p, data_len = l\<rparr>, s\<lparr>inbox := Arrive d # evs\<rparr>)"
  using receive_text [OF _ assms(1-3), of _ "p @ d" evs] receive_text [OF _ assms(1-4), of _ "Arrive d # evs"]
    assms(4-7)
  by (simp_all add: cstr_def)

text \<open>
  A piece without a zero byte that fills the buffer makes \<open>strdup\<close> read behind its end.
\<close>

theorem receiveRequest_full:
  assumes "inbox s = Arrive b # evs" and "cstr b" and "MAX_BUFF_SIZE \<le> length b"
  shows "receiveRequest s = Inl OutOfBoundsRead"
proof -
  have "cstr (take MAX_BUFF_SIZE b)" using assms(2) by (auto simp: cstr_def dest: in_set_takeD)
  moreover have "b \<noteq> []" using assms(3) by (auto simp: MAX_BUFF_SIZE_def)
  ultimately show ?thesis
    using assms(1,3) by (simp add: receiveRequest_def recv_def Let_def min_absorb2 cstring_in_full)
qed

section \<open>Locks are released\<close>

lemma wrlock_unlock:
  assumes "rwlock_wrlock a h = Inr h1" and "rwlock_unlock a h1 = Inr h2"
  shows "h2 = h"
proof -
  from assms(1) obtain n where n: "a < length h" "h ! a = Some n" "readers (lock n) = 0" "\<not> writer (lock n)"
    and h1: "h1 = h[a := Some (n\<lparr>lock := (lock n)\<lparr>writer := True\<rparr>\<rparr>)]"
    by (auto simp: rwlock_wrlock_def andThen_eq_Inr_conv deref_Inr split: if_splits)
  have "(lock n)\<lparr>writer := False\<rparr> = lock n" using n(4) by simp
  with n assms(2) show ?thesis
    by (simp add: h1 rwlock_unlock_def deref_def) (metis list_update_id)
qed

lemma rdlock_unlock:
  assumes "rwlock_rdlock a h = Inr h1" and "rwlock_unlock a h1 = Inr h2"
  shows "h2 = h"
proof -
  from assms(1) obtain n where n: "a < length h" "h ! a = Some n" "\<not> writer (lock n)"
    and h1: "h1 = h[a := Some (n\<lparr>lock := (lock n)\<lparr>readers := readers (lock n) + 1\<rparr>\<rparr>)]"
    by (auto simp: rwlock_rdlock_def andThen_eq_Inr_conv deref_Inr split: if_splits)
  with assms(2) show ?thesis
    by (simp add: h1 rwlock_unlock_def deref_def) (metis list_update_id)
qed

definition server_ready :: "server_t \<Rightarrow> bool" where
  \<comment> \<open>between two requests\<close>
  "server_ready srv \<longleftrightarrow>
     (case file_lock_manager srv of
        None \<Rightarrow> False
      | Some l \<Rightarrow> locks_inv (l, lock_heap srv) \<and> all_free (l, lock_heap srv))"

lemma thread_locks:
  assumes "threadClientHandler n srv = Inr srv'" and "file_lock_manager srv = Some l"
    and "locks_inv (l, lock_heap srv)"
  shows "is_closed (conn (server_world srv')) \<and>
    (file_lock_manager srv' = Some l \<and> lock_heap srv' = lock_heap srv \<or>
     (\<exists>name a l'. name \<noteq> '''' \<and> get_lock name (l, lock_heap srv) = Inr (a, l', lock_heap srv') \<and>
        file_lock_manager srv' = Some l'))"
proof -
  from assms(1) obtain req s1 where req: "receiveRequest (conn (server_world srv)) = Inr (req, s1)"
    by (auto simp: threadClientHandler_def andThen_eq_Inr_conv)
  show ?thesis
  proof (cases req)
    case None
    with req assms show ?thesis
      by (auto simp: threadClientHandler_def andThen_eq_Inr_conv finish_def close_socket_def)
  next
    case (Some r)
    with req receiveRequest_path have path: "remote_path r \<noteq> ''''" by auto
    from get_lock_table [OF assms(3) path] obtain a l' h' where
      get: "get_lock (remote_path r) (l, lock_heap srv) = Inr (a, l', h')" by auto
    then have "getLockFor (Some (remote_path r)) (Some l) (lock_heap srv) = Inr (Some a, Some l', h')"
      by (auto simp: get_lock_def andThen_eq_Inr_conv split: option.splits)
    with assms(1,2) req Some have "lock_heap srv' = h' \<and> file_lock_manager srv' = Some l' \<and>
        is_closed (conn (server_world srv'))"
      by (cases "command r")
        (auto simp: threadClientHandler_def Let_def andThen_eq_Inr_conv finish_def close_socket_def
          dest: wrlock_unlock rdlock_unlock)
    with get path show ?thesis by blast
  qed
qed

lemma thread_ready:
  assumes "server_ready srv" and "threadClientHandler n srv = Inr srv'"
  shows "server_ready srv' \<and> is_closed (conn (server_world srv'))"
proof -
  from assms(1) obtain l where l: "file_lock_manager srv = Some l"
    and inv: "locks_inv (l, lock_heap srv)" and free: "all_free (l, lock_heap srv)"
    by (auto simp: server_ready_def split: option.splits)
  from thread_locks [OF assms(2) l inv] show ?thesis
    using assms(1) l inv free get_lock_free [OF inv _ free] get_lock_table [OF inv]
    by (fastforce simp: server_ready_def)
qed

text \<open>
  Whatever a client sends: when the thread for it ends, the socket is closed, the lock list
  is well-formed and no lock is held, if that was so before.
\<close>

theorem threadClientHandler_releases:
  assumes "server_ready srv" and "threadClientHandler n srv = Inr srv'"
  shows "server_ready srv' \<and> is_closed (conn (server_world srv'))"
  using assms by (rule thread_ready)
text \<open>
  A lock that is not free stops the next thread for the same file: while a thread holds the
  write lock of a file, for example because its client went away in the middle of a
  \<open>WRITE\<close>, every request for this file blocks, whatever it asks for.
\<close>

theorem threadClientHandler_blocks:
  assumes "receiveRequest (conn (server_world srv)) = Inr (Some r, s')" and "command r \<noteq> LS"
    and "file_lock_manager srv = Some l" and "locks_inv (l, lock_heap srv)"
    and "locks_table (l, lock_heap srv) (remote_path r) = Some a"
    and "lock_heap srv ! a = Some nd" and "writer (lock nd)" and "a < length (lock_heap srv)"
  shows "threadClientHandler n srv = Inl Blocked"
proof -
  have path: "remote_path r \<noteq> ''''" and known: "command r \<noteq> UNKNOWN"
    using receiveRequest_path [OF assms(1)] by simp_all
  have "getLockFor (Some (remote_path r)) (Some l) (lock_heap srv) = Inr (Some a, Some l, lock_heap srv)"
    using getLockFor_table [of l "lock_heap srv" "addresses (l, lock_heap srv)", OF _ path] assms(4,5)
    by (auto simp: locks_inv_def locks_table_def)
  with assms known show ?thesis
    by (cases "command r")
      (simp_all add: threadClientHandler_def rwlock_wrlock_def rwlock_rdlock_def deref_def)
qed

text \<open>
  Locks belong to spellings, not to files: for two different spellings of the same existing
  file the threads get different locks, so a write lock on one does not exclude a writer on the
  other.
\<close>

theorem getLockFor_aliases:
  assumes "wf_fs fs" and "ds \<noteq> []" and "\<forall>c \<in> set (ds @ [f]). plain c"
    and "node_at fs (cwd fs @ ds) = Some Dir"
  shows "resolve fs (join (ds @ [f])) = resolve fs (join (ds @ [''.'', f])) \<and>
    (\<exists>a b s'. get_all get_lock [join (ds @ [f]), join (ds @ [''.'', f])] (createFileLockList, []) =
       Inr ([a, b], s') \<and> a \<noteq> b)"
proof -
  have rel: "rel_path (ds @ [f])" using assms(3) by (simp add: rel_path_def)
  have slash: "\<forall>c \<in> set (ds @ [''.'', f]). CHR ''/'' \<notin> set c" using assms(3) by (auto simp: plain_def)
  have hd: "hd (join (ds @ [''.'', f])) \<noteq> CHR ''/''"
    using hd_join [of ds] assms(2,3) join_append [OF assms(2), of "[''.'', f]"] join_eq_Nil [OF assms(2)]
    by (auto simp: plain_def hd_append)
  have ne: "join (ds @ [''.'', f]) \<noteq> ''''"
    using join_append [OF assms(2), of "[''.'', f]"] by simp
  have dirs: "node_at fs (cwd fs @ take i ds) = Some Dir" if "i < length ds" for i
    using wf_fs_prefix_dir [OF assms(1), of "cwd fs @ take i ds" "drop i ds"] assms(4) that by simp
  then have walk: "walk fs (cwd fs) ds = Some (cwd fs @ ds)"
    using assms(3) by (simp add: walk_plain)
  have "resolve fs (join (ds @ [''.'', f])) = walk fs (cwd fs) (ds @ [''.'', f])"
    using ne hd split_slash_join [OF slash] by (simp add: resolve_def)
  also have "\<dots> = Some (cwd fs @ ds @ [f])"
    using walk assms(3,4) by (simp add: walk_append plain_def)
  finally have same: "resolve fs (join (ds @ [''.'', f])) = resolve fs (join (ds @ [f]))"
    using resolve_join [OF assms(1) rel] assms(4) by simp
  have differ: "join (ds @ [f]) \<noteq> join (ds @ [''.'', f])"
    using join_append [OF assms(2), of "[''.'', f]"] join_append [OF assms(2), of "[f]"] by simp
  let ?names = "[join (ds @ [f]), join (ds @ [''.'', f])]"
  have "\<forall>name \<in> set ?names. name \<noteq> ''''"
    using rel_path_join_nonempty [OF rel] ne by simp
  from locks.same_lock_iff_same_name [OF locks_inv_create this] obtain as s' where
    run: "get_all get_lock ?names (createFileLockList, []) = Inr (as, s')" and len: "length as = length ?names"
    and iff: "\<forall>i < length ?names. \<forall>j < length ?names. as ! i = as ! j \<longleftrightarrow> ?names ! i = ?names ! j"
    by blast
  from len obtain a b where ab: "as = [a, b]" by (auto simp: length_Suc_conv)
  from iff [rule_format, of 0 1] differ have "a \<noteq> b" by (simp add: ab)
  with run same show ?thesis unfolding ab by metis
qed

end
