(* ===== verification/Server.thy ===== *)
theory Server
  imports Thread_Manager
begin

text \<open>
  \<open>server/server.c\<close> and \<open>createAndDetachThread\<close>: the main thread of the server. The results of
  the system calls are arguments: for each \<open>accept\<close> the new connection, or a failure. In
  \<open>main_server\<close> the worker thread of a connection runs to its end before the next \<open>accept\<close>
  returns; theory \<open>Workers\<close> has the threads that overlap.
\<close>

section \<open>Creating a thread\<close>

text \<open>
  The arguments of a thread are in a cell from \<open>malloc\<close> that the main thread and the new
  thread use without any order between them: the main thread writes the thread's number into
  the cell after \<open>pthread_create\<close>, the thread reads the number at its beginning and frees the
  cell at its end. A number that is read before it is written has no specified value (\<open>None\<close>).
\<close>

datatype arg_event = ParentWrites | ThreadReads | ThreadFrees

record thread_args_t =
  socket_descriptor :: int
  thread_id :: "int option"

fun run_args :: "int \<Rightarrow> arg_event list \<Rightarrow> thread_args_t option \<Rightarrow> int option \<Rightarrow> stop + int option" where
  \<comment> \<open>the cell is \<open>None\<close> once it is freed; the result is the number that the thread logs\<close>
  "run_args tid [] cell seen = Inr seen"
| "run_args tid (e # es) None seen = Inl UseAfterFree"
| "run_args tid (ParentWrites # es) (Some args) seen = run_args tid es (Some (args\<lparr>thread_id := Some tid\<rparr>)) seen"
| "run_args tid (ThreadReads # es) (Some args) seen = run_args tid es (Some args) (thread_id args)"
| "run_args tid (ThreadFrees # es) (Some args) seen = run_args tid es None seen"

definition createAndDetachThread :: "int \<Rightarrow> int \<Rightarrow> arg_event list \<Rightarrow> int \<Rightarrow> stop + bool" where
  \<comment> \<open>\<open>create_status\<close> and \<open>tid\<close> come from \<open>pthread_create\<close>; when it fails it has not set
     \<open>thread_id\<close>, which is read and passed to \<open>pthread_detach\<close> nevertheless\<close>
  "createAndDetachThread create_status tid sched sd =
     (if create_status \<noteq> 0 then Inl Indeterminate
      else andThen (run_args tid sched (Some \<lparr>socket_descriptor = sd, thread_id = None\<rparr>) None)
             (\<lambda>_. Inr (create_status = 0)))"

section \<open>The accept loop\<close>

datatype accept_result =
    Accepted socket "int \<times> int" int int int "arg_event list"
    \<comment> \<open>the connection, the time at which it is served, its descriptor, what \<open>pthread_create\<close> returns and
       sets for it, and the order of the accesses to the arguments\<close>
  | AcceptFails

record server_run =
  run_state :: server_t
  served :: "socket list"

fun accept_loop :: "nat \<Rightarrow> accept_result list \<Rightarrow> server_run \<Rightarrow> stop + int option \<times> server_run" where
  \<comment> \<open>\<open>None\<close> is a server that waits in \<open>accept\<close>, \<open>Some c\<close> a \<open>main\<close> that has returned \<open>c\<close>\<close>
  "accept_loop n [] run = Inr (None, run)"
| "accept_loop n (AcceptFails # evs) run = Inr (Some (- 1), run)"
| "accept_loop n (Accepted s time sd create_status tid sched # evs) run =
     andThen (createAndDetachThread create_status tid sched sd) (\<lambda>status.
     andThen
       (if status then
          threadClientHandler n
            ((run_state run)\<lparr>server_world := (server_world (run_state run))\<lparr>conn := s, clock := time\<rparr>\<rparr>)
        else
          andThen (respond False ''unable to spawn worker thread for this request''
                     ((server_world (run_state run))\<lparr>conn := s, clock := time\<rparr>))
            (\<lambda>w. Inr ((run_state run)\<lparr>server_world := finish w\<rparr>)))
       (\<lambda>srv. accept_loop n evs
                \<lparr>run_state = srv, served = served run @ [conn (server_world srv)]\<rparr>))"

definition main_server ::
  "nat \<Rightarrow> int \<Rightarrow> int \<Rightarrow> int \<Rightarrow> accept_result list \<Rightarrow> world \<Rightarrow> stop + int option \<times> server_run" where
  "main_server n socket_status binding_status listen_status evs w =
     (let run0 = \<lparr>run_state = \<lparr>server_world = w, file_lock_manager = None, lock_heap = []\<rparr>, served = []\<rparr> in
      if socket_status < 0 then Inr (Some (- 1), run0)
      else if binding_status < 0 then Inr (Some (- 1), run0)
      else if listen_status < 0 then Inr (Some (- 1), run0)
      else accept_loop n evs
             (run0\<lparr>run_state := (run_state run0)\<lparr>file_lock_manager := Some createFileLockList\<rparr>\<rparr>))"

definition thread_orders :: "arg_event list list" where
  \<comment> \<open>the orders in which the thread reads before it frees\<close>
  "thread_orders =
     [[ParentWrites, ThreadReads, ThreadFrees], [ThreadReads, ParentWrites, ThreadFrees],
      [ThreadReads, ThreadFrees, ParentWrites]]"

section \<open>Properties\<close>

lemma ready_conn [simp]:
  "server_ready (srv\<lparr>server_world := w\<rparr>) = server_ready srv"
  by (cases "file_lock_manager srv") (simp_all add: server_ready_def)

lemma accept_loop_ready:
  assumes "server_ready (run_state run)" and "\<forall>s \<in> set (served run). is_closed s"
    and "accept_loop n evs run = Inr (code, run')"
  shows "server_ready (run_state run') \<and> (\<forall>s \<in> set (served run'). is_closed s) \<and>
    (code = None \<longrightarrow> length (served run') = length (served run) + length evs)"
  using assms
proof (induction n evs run rule: accept_loop.induct)
  case (3 n s time sd create_status tid sched evs run)
  let ?srv = "(run_state run)\<lparr>server_world := (server_world (run_state run))\<lparr>conn := s, clock := time\<rparr>\<rparr>"
  from "3.prems"(3) obtain srv where create: "createAndDetachThread create_status tid sched sd = Inr True"
    and srv: "threadClientHandler n ?srv = Inr srv"
    and rest: "accept_loop n evs \<lparr>run_state = srv, served = served run @ [conn (server_world srv)]\<rparr> = Inr (code, run')"
    by (auto simp: andThen_eq_Inr_conv createAndDetachThread_def split: if_splits)
  have "server_ready srv \<and> is_closed (conn (server_world srv))"
    using thread_ready [OF _ srv] "3.prems"(1) by simp
  with "3.IH" [OF create, of srv] srv rest "3.prems"(2) show ?case by auto
qed auto

text \<open>
  C22. The server over any number of connections, whatever the clients send: when all the
  threads have ended, each of the sockets has been closed, the lock list is well-formed and every
  lock is free.
\<close>

theorem main_server_serves:
  assumes "main_server n ss bs ls evs w = Inr (None, run)"
  shows "length (served run) = length evs \<and> (\<forall>s \<in> set (served run). is_closed s) \<and>
    server_ready (run_state run)"
proof -
  let ?srv = "\<lparr>server_world = w, file_lock_manager = Some createFileLockList, lock_heap = []\<rparr>"
  from assms have "accept_loop n evs \<lparr>run_state = ?srv, served = []\<rparr> = Inr (None, run)"
    by (simp add: main_server_def Let_def split: if_splits)
  moreover have "server_ready ?srv"
    by (simp add: server_ready_def locks_inv_create all_free_def)
  ultimately show ?thesis
    using accept_loop_ready [of "\<lparr>run_state = ?srv, served = []\<rparr>" n evs None run] by simp
qed



end
