(* ===== verification/Server_Memory.thy ===== *)
theory Server_Memory
  imports Ownership Server
begin

text \<open>
  What the server leaves on the heap: the worker thread and the main thread of theories \<open>Thread_Manager\<close> and \<open>Server\<close> with
  the heap of theory \<open>Ownership\<close>. Nobody frees the request that a thread has received, and the early return of a
  thread does not free its arguments. The nodes of the lock list have a heap of their own (theory \<open>Lock_List\<close>).
\<close>

definition receiveRequest_m :: "socket \<Rightarrow> heap \<Rightarrow> stop + (nat option \<times> socket) \<times> heap" where
  "receiveRequest_m s h =
     andThen (recv MAX_BUFF_SIZE s) (\<lambda>(receiveStatus, bytes, s').
       if receiveStatus < 0 then Inr ((None, s'), h)
       else
         (let buffer = bytes @ replicate (MAX_BUFF_SIZE - length bytes) NUL in
          andThen (cstring_in buffer) (\<lambda>text.
          andThen (deSerializeRequest_m (Some text) h) (\<lambda>(req, h'). Inr ((req, s'), h')))))"

fun receive_all_m :: "socket list \<Rightarrow> heap \<Rightarrow> stop + heap" where
  \<comment> \<open>the threads of several connections, each of which drops its request in the end\<close>
  "receive_all_m [] h = Inr h"
| "receive_all_m (s # ss) h = andThen (receiveRequest_m s h) (\<lambda>(_, h'). receive_all_m ss h')"

lemma finite_live [simp]: "finite (live h)"
  by (rule finite_subset [of _ "{..<length h}"]) (auto dest: live_less)

lemma received_request:
  assumes "receiveRequest s = Inr (Some r, s')"
  shows "\<exists>a h'. receiveRequest_m s h = Inr ((Some a, s'), h') \<and> load_request a h' = Inr r \<and>
    card (live h') = card (live h) + 3 \<and> live h \<subseteq> live h'"
proof -
  from assms obtain b bytes sent where recv: "recv MAX_BUFF_SIZE s = Inr (b, bytes, s')" and b: "\<not> b < 0"
    and str: "cstring_in (bytes @ replicate (MAX_BUFF_SIZE - length bytes) NUL) = Inr sent"
    and dec: "deSerializeRequest (Some sent) = Inr (Some r)"
    by (auto simp: receiveRequest_def Let_def andThen_eq_Inr_conv split: if_splits)
  from decoded_request [OF dec, of h] obtain a h' where
    "deSerializeRequest_m (Some sent) h = Inr (Some a, h')" "load_request a h' = Inr r"
    and three: "card (live h' - live h) = 3" and sub: "live h \<subseteq> live h'" by blast
  moreover have "card (live h') = card (live h) + 3"
    using card_Diff_subset [OF finite_live sub] card_mono [OF finite_live sub] three by simp
  ultimately show ?thesis using recv b str by (simp add: receiveRequest_m_def)
qed

text \<open>
  The server loses memory with every request: after any number of requests that could be decoded, three blocks of each are still
  allocated, the request, its path and another copy of its path.
\<close>

theorem requests_leak:
  assumes "\<forall>s \<in> set ss. \<exists>r s'. receiveRequest s = Inr (Some r, s')"
  shows "\<exists>h'. receive_all_m ss h = Inr h' \<and> card (live h') = card (live h) + 3 * length ss \<and> live h \<subseteq> live h'"
  using assms
proof (induction ss arbitrary: h)
  case (Cons s ss)
  then obtain r s' where "receiveRequest s = Inr (Some r, s')" by auto
  from received_request [OF this, of h] obtain a h1 where one: "receiveRequest_m s h = Inr ((Some a, s'), h1)"
    "card (live h1) = card (live h) + 3" "live h \<subseteq> live h1" by blast
  from Cons obtain h' where "receive_all_m ss h1 = Inr h'" "card (live h') = card (live h1) + 3 * length ss" "live h1 \<subseteq> live h'"
    by fastforce
  with one show ?case by auto
qed simp

theorem requests_leak_witness:
  "\<exists>h'. receive_all_m (replicate 2 \<lparr>inbox = [Arrive ''GET,0,data/a''], send_plan = [], outbox = [], is_closed = False\<rparr>) [] = Inr h' \<and>
     card (live h') = 6"
proof -
  let ?s = "\<lparr>inbox = [Arrive ''GET,0,data/a''], send_plan = [], outbox = [], is_closed = False\<rparr>"
  have "deSerializeRequest (Some ''GET,0,data/a'') = Inr (Some \<lparr>command = GET, remote_path = ''data/a'', data_len = 0\<rparr>)"
    by code_simp
  then have "receiveRequest ?s = Inr (Some \<lparr>command = GET, remote_path = ''data/a'', data_len = 0\<rparr>, ?s\<lparr>inbox := []\<rparr>)"
    using receive_piece [of ?s "''GET,0,data/a''" "[]"] by (simp add: cstr_def MAX_BUFF_SIZE_def)
  then have "\<forall>s \<in> set (replicate 2 ?s). \<exists>r s'. receiveRequest s = Inr (Some r, s')" by auto
  from requests_leak [OF this, of "[]"] show ?thesis by (simp add: live_def)
qed

section \<open>The handlers\<close>

definition respond_m :: "bool \<Rightarrow> string \<Rightarrow> world \<Rightarrow> heap \<Rightarrow> stop + world \<times> heap" where
  "respond_m success msg w h =
     andThen (buildAndSendResponse_m success 0 (Some msg) (conn w) h) (\<lambda>((_, s'), h'). Inr (w\<lparr>conn := s'\<rparr>, h'))"

definition handleWriteRequest_m :: "nat \<Rightarrow> nat \<Rightarrow> world \<Rightarrow> heap \<Rightarrow> stop + world \<times> heap" where
  "handleWriteRequest_m n write_request w h =
     andThen (load_request write_request h) (\<lambda>r.
     andThen (createNestedDirectories (remote_path r) (files w)) (\<lambda>(_, fs1).
     andThen (saveCurrentVersion n (remote_path r) (w\<lparr>files := fs1\<rparr>)) (\<lambda>(status1, w2).
     andThen (if status1 then receiveFileContents n (remote_path r) (data_len r) w2 else Inr (False, w2)) (\<lambda>(status2, w3).
     andThen (buildAndSendResponse_m status2 0 (Some '''') (conn w3) h) (\<lambda>((_, s4), h').
       Inr (w3\<lparr>conn := s4\<rparr>, h'))))))"

definition handleGetRequest_m :: "nat \<Rightarrow> nat \<Rightarrow> world \<Rightarrow> heap \<Rightarrow> stop + world \<times> heap" where
  "handleGetRequest_m n get_request w h =
     andThen (load_request get_request h) (\<lambda>r.
     (let source_path = remote_path r;
          source_length = getFileSize (files w) source_path
      in if source_length < 0 then
           andThen (buildAndSendResponse_m False 0
                     (Some ''unable to open and/or get size of the requested file'') (conn w) h)
             (\<lambda>((_, s1), h'). Inr (w\<lparr>conn := s1\<rparr>, h'))
         else
           andThen (buildAndSendResponse_m True source_length (Some ''OK'') (conn w) h) (\<lambda>((_, s1), h').
           andThen (sendFileContents n source_path source_length (w\<lparr>conn := s1\<rparr>)) (\<lambda>(_, w2).
             Inr (w2, h')))))"

definition handleRemoveRequest_m :: "nat \<Rightarrow> world \<Rightarrow> heap \<Rightarrow> stop + world \<times> heap" where
  "handleRemoveRequest_m remove_request w h =
     andThen (load_request remove_request h) (\<lambda>r.
     (let filepath = remote_path r in
      if length filepath = 0 then respond_m False ''didn't receive file path'' w h
      else
        (case remove filepath (files w) of
           Inl _ \<Rightarrow> respond_m False ''unable to remove file'' w h
         | Inr fs1 \<Rightarrow>
             (let w1 = w\<lparr>files := fs1\<rparr> in
              andThen (extractDirectory (Some filepath) (Some MAX_PATH_LEN)) (\<lambda>dir.
                (case dir of
                   None \<Rightarrow> respond_m False ''unable to remove file version history'' w1 h
                 | Some directory_only \<Rightarrow>
                     andThen (extractBasename (Some filepath) (Some MAX_PATH_LEN)) (\<lambda>base.
                       (case base of
                          None \<Rightarrow> respond_m False ''unable to remove file version history'' w1 h
                        | Some basename_only \<Rightarrow>
                            andThen (store_string MAX_PATH_LEN (directory_only @ VERSION_SUBFOLDER))
                              (\<lambda>version_folder.
                                 (case opendir fs1 version_folder of
                                    None \<Rightarrow> respond_m True ''OK'' w1 h
                                  | Some dir \<Rightarrow>
                                      andThen (remove_versions basename_only version_folder
                                                (dir_entries fs1 dir) True fs1)
                                        (\<lambda>(success, fs2).
                                           if success then respond_m True ''OK'' (w1\<lparr>files := fs2\<rparr>) h
                                           else respond_m False
                                             ''ERROR: unable to remove all prior versions of this file''
                                             (w1\<lparr>files := fs2\<rparr>) h)))))))))))"

definition response_left :: "heap \<Rightarrow> heap \<Rightarrow> bool" where
  \<comment> \<open>at most the text of a response that could not be sent is new\<close>
  "response_left h h' \<longleftrightarrow> live h \<subseteq> live h' \<and> card (live h') \<le> card (live h) + 1"

lemma build_memory:
  assumes "buildAndSendResponse ok len msg s = Inr (sent, s')"
  shows "\<exists>h'. buildAndSendResponse_m ok len msg s h = Inr ((sent, s'), h') \<and> response_left h h'"
  using buildAndSend_heap [OF assms, of h] by (auto simp: response_left_def card_insert_if split: if_splits)

lemma respond_memory:
  assumes "respond ok msg w = Inr w'"
  shows "\<exists>h'. respond_m ok msg w h = Inr (w', h') \<and> response_left h h'"
proof -
  from assms obtain sent s' where "buildAndSendResponse ok 0 (Some msg) (conn w) = Inr (sent, s')" and "w' = w\<lparr>conn := s'\<rparr>"
    by (auto simp: respond_def andThen_eq_Inr_conv)
  with build_memory [OF this(1), of h] show ?thesis by (auto simp: respond_m_def)
qed

lemma write_memory:
  assumes "handleWriteRequest n r w = Inr w'" and "load_request a h = Inr r"
  shows "\<exists>h'. handleWriteRequest_m n a w h = Inr (w', h') \<and> response_left h h'"
proof -
  from assms(1) obtain b fs1 ok w2 ok' w3 sent s4 where
    mk: "createNestedDirectories (remote_path r) (files w) = Inr (b, fs1)"
    and save: "saveCurrentVersion n (remote_path r) (w\<lparr>files := fs1\<rparr>) = Inr (ok, w2)"
    and recv: "(if ok then receiveFileContents n (remote_path r) (data_len r) w2 else Inr (False, w2)) = Inr (ok', w3)"
    and reply: "buildAndSendResponse ok' 0 (Some '''') (conn w3) = Inr (sent, s4)" and w': "w' = w3\<lparr>conn := s4\<rparr>"
    by (auto simp: handleWriteRequest_def andThen_eq_Inr_conv)
  from build_memory [OF reply, of h] mk save recv assms(2) w' show ?thesis by (auto simp: handleWriteRequest_m_def)
qed

lemma get_memory:
  assumes "handleGetRequest n r w = Inr w'" and "load_request a h = Inr r"
  shows "\<exists>h'. handleGetRequest_m n a w h = Inr (w', h') \<and> response_left h h'"
proof -
  let ?len = "getFileSize (files w) (remote_path r)"
  show ?thesis
  proof (cases "?len < 0")
    case True
    with assms(1) obtain sent s1 where "buildAndSendResponse False 0
        (Some ''unable to open and/or get size of the requested file'') (conn w) = Inr (sent, s1)" "w' = w\<lparr>conn := s1\<rparr>"
      by (auto simp: handleGetRequest_def andThen_eq_Inr_conv)
    with build_memory [OF this(1), of h] True assms(2) show ?thesis by (auto simp: handleGetRequest_m_def)
  next
    case False
    with assms(1) obtain sent s1 b where "buildAndSendResponse True ?len (Some ''OK'') (conn w) = Inr (sent, s1)"
      "sendFileContents n (remote_path r) ?len (w\<lparr>conn := s1\<rparr>) = Inr (b, w')"
      by (auto simp: handleGetRequest_def andThen_eq_Inr_conv Let_def)
    with build_memory [OF this(1), of h] False assms(2) show ?thesis by (auto simp: handleGetRequest_m_def Let_def)
  qed
qed

lemma remove_memory:
  assumes run: "handleRemoveRequest r w = Inr w'" and req: "load_request a h = Inr r"
  shows "\<exists>h'. handleRemoveRequest_m a w h = Inr (w', h') \<and> response_left h h'"
proof (cases "remote_path r = '''' \<or> (\<exists>e. remove (remote_path r) (files w) = Inl e)")
  case True
  with run req show ?thesis
      by (auto simp: handleRemoveRequest_def handleRemoveRequest_m_def Let_def intro!: respond_memory)
next
  case False
  then obtain fs1 where rm: "remote_path r \<noteq> ''''" "remove (remote_path r) (files w) = Inr fs1"
    by (cases "remove (remote_path r) (files w)") auto
  with run obtain dir where dir: "extractDirectory (Some (remote_path r)) (Some MAX_PATH_LEN) = Inr dir"
    by (auto simp: handleRemoveRequest_def Let_def andThen_eq_Inr_conv)
  show ?thesis
  proof (cases dir)
    case None
    with run req rm dir show ?thesis
      by (auto simp: handleRemoveRequest_def handleRemoveRequest_m_def Let_def intro!: respond_memory)
  next
    case d: (Some d)
    with run rm dir obtain base where base: "extractBasename (Some (remote_path r)) (Some MAX_PATH_LEN) = Inr base"
      by (auto simp: handleRemoveRequest_def Let_def andThen_eq_Inr_conv)
    show ?thesis
    proof (cases base)
      case None
      with run req rm dir d base show ?thesis
      by (auto simp: handleRemoveRequest_def handleRemoveRequest_m_def Let_def intro!: respond_memory)
    next
      case (Some f)
      note code = handleRemoveRequest_def handleRemoveRequest_m_def Let_def andThen_eq_Inr_conv
      note facts = rm dir d base Some
      have fits: "store_string MAX_PATH_LEN (d @ VERSION_SUBFOLDER) = Inr (d @ VERSION_SUBFOLDER)"
        using run facts by (auto simp: code)
      show ?thesis
      proof (cases "opendir fs1 (d @ VERSION_SUBFOLDER)")
        case None
        with run req facts fits show ?thesis by (auto simp: code intro!: respond_memory)
      next
        case op: (Some k)
        with run facts fits obtain ok fs2 where
          "remove_versions f (d @ VERSION_SUBFOLDER) (dir_entries fs1 k) True fs1 = Inr (ok, fs2)"
          by (auto simp: code)
        with run req facts fits op show ?thesis by (cases ok) (auto simp: code intro!: respond_memory)
      qed
    qed
  qed
qed

section \<open>The worker thread and the main thread\<close>

definition locked_m :: "stop + node_heap \<Rightarrow> (node_heap \<Rightarrow> stop + node_heap) \<Rightarrow> stop + world \<times> heap \<Rightarrow>
    stop + world \<times> node_heap \<times> heap" where
  \<comment> \<open>one branch of the \<open>switch\<close>: the lock, the handler, the unlock\<close>
  "locked_m take_lock give_back handler =
     andThen take_lock (\<lambda>l1.
     andThen handler (\<lambda>(w', h').
     andThen (give_back l1) (\<lambda>l2. Inr (w', l2, h'))))"

definition switch_m :: "nat \<Rightarrow> nat \<Rightarrow> command_type \<Rightarrow> nat \<Rightarrow> node_heap \<Rightarrow> world \<Rightarrow> heap \<Rightarrow>
    stop + world \<times> node_heap \<times> heap" where
  \<comment> \<open>the \<open>switch\<close> over the command of the request\<close>
  "switch_m n request cmd a locks w h =
     (case cmd of
        WRITE \<Rightarrow> locked_m (rwlock_wrlock a locks) (rwlock_unlock a) (handleWriteRequest_m n request w h)
      | RM \<Rightarrow> locked_m (rwlock_wrlock a locks) (rwlock_unlock a) (handleRemoveRequest_m request w h)
      | GET \<Rightarrow> locked_m (rwlock_rdlock a locks) (rwlock_unlock a) (handleGetRequest_m n request w h)
      | LS \<Rightarrow>
          andThen (respond_m False ''optional command isn't implemented yet'' w h) (\<lambda>(w', h'). Inr (w', locks, h'))
      | UNKNOWN \<Rightarrow>
          andThen (respond_m False ''didn't receive valid command'' w h) (\<lambda>(w', h'). Inr (w', locks, h')))"

definition threadClientHandler_m :: "nat \<Rightarrow> nat \<Rightarrow> server_t \<Rightarrow> heap \<Rightarrow> stop + server_t \<times> heap" where
  \<comment> \<open>\<open>args\<close> is freed at the end only, not at the early returns\<close>
  "threadClientHandler_m n args srv h =
     andThen (load args h) (\<lambda>cell.
     (case cell of
        ArgCell sd tid \<Rightarrow>
     andThen (receiveRequest_m (conn (server_world srv)) h) (\<lambda>((req, s1), h1).
       (let w = (server_world srv)\<lparr>conn := s1\<rparr> in
        case req of
          None \<Rightarrow>
            andThen (respond_m False ''unable to receive request'' w h1) (\<lambda>(w', h2).
              Inr (srv\<lparr>server_world := finish w'\<rparr>, h2))
        | Some request \<Rightarrow>
            andThen (load_request request h1) (\<lambda>r.
            andThen (getLockFor (Some (remote_path r)) (file_lock_manager srv) (lock_heap srv))
              (\<lambda>(lockNode, mgr, locks).
                (case lockNode of
                   None \<Rightarrow>
                     andThen (respond_m False ''failed to get file lock'' w h1) (\<lambda>(w', h2).
                       Inr (\<lparr>server_world = finish w', file_lock_manager = mgr, lock_heap = locks\<rparr>, h2))
                 | Some a \<Rightarrow>
                     andThen
                       (switch_m n request (command r) a locks w h1)
                       (\<lambda>(w', locks', h2).
                          andThen (free args h2) (\<lambda>h3.
                            Inr (\<lparr>server_world = finish w', file_lock_manager = mgr, lock_heap = locks'\<rparr>, h3))))))))
      | _ \<Rightarrow> Inl Indeterminate))"

definition createAndDetachThread_m ::
  "int \<Rightarrow> int \<Rightarrow> arg_event list \<Rightarrow> int \<Rightarrow> heap \<Rightarrow> stop + (bool \<times> nat) \<times> heap" where
  \<comment> \<open>\<open>createAndDetachThread\<close> of theory \<open>Server\<close> judges the order of the accesses to the new block\<close>
  "createAndDetachThread_m create_status tid sched sd h =
     (let (args, h1) = malloc (ArgCell sd None) h in
      andThen (createAndDetachThread create_status tid sched sd) (\<lambda>status.
        Inr ((status, args), h1[args := Some (ArgCell sd (Some tid))])))"

fun accept_loop_m :: "nat \<Rightarrow> accept_result list \<Rightarrow> server_run \<Rightarrow> heap \<Rightarrow> stop + (int option \<times> server_run) \<times> heap" where
  "accept_loop_m n [] run h = Inr ((None, run), h)"
| "accept_loop_m n (AcceptFails # evs) run h = Inr ((Some (- 1), run), h)"
| "accept_loop_m n (Accepted s time sd create_status tid sched # evs) run h =
     andThen (createAndDetachThread_m create_status tid sched sd h) (\<lambda>((status, args), h1).
     andThen
       (if status then
          threadClientHandler_m n args
            ((run_state run)\<lparr>server_world := (server_world (run_state run))\<lparr>conn := s, clock := time\<rparr>\<rparr>) h1
        else
          andThen (respond_m False ''unable to spawn worker thread for this request''
                     ((server_world (run_state run))\<lparr>conn := s, clock := time\<rparr>) h1)
            (\<lambda>(w, h2). Inr ((run_state run)\<lparr>server_world := finish w\<rparr>, h2)))
       (\<lambda>(srv, h2). accept_loop_m n evs
                \<lparr>run_state = srv, served = served run @ [conn (server_world srv)]\<rparr> h2))"

definition main_server_m ::
  "nat \<Rightarrow> int \<Rightarrow> int \<Rightarrow> int \<Rightarrow> accept_result list \<Rightarrow> world \<Rightarrow> heap \<Rightarrow> stop + (int option \<times> server_run) \<times> heap" where
  "main_server_m n socket_status binding_status listen_status evs w h =
     (let run0 = \<lparr>run_state = \<lparr>server_world = w, file_lock_manager = None, lock_heap = []\<rparr>, served = []\<rparr> in
      if socket_status < 0 then Inr ((Some (- 1), run0), h)
      else if binding_status < 0 then Inr ((Some (- 1), run0), h)
      else if listen_status < 0 then Inr ((Some (- 1), run0), h)
      else accept_loop_m n evs
             (run0\<lparr>run_state := (run_state run0)\<lparr>file_lock_manager := Some createFileLockList\<rparr>\<rparr>) h)"

subsection \<open>What a thread leaves\<close>

lemma received_nothing:
  assumes "receiveRequest s = Inr (None, s')"
  shows "\<exists>h'. receiveRequest_m s h = Inr ((None, s'), h') \<and> response_left h h' \<and> (\<forall>a \<in> live h. h' ! a = h ! a)"
proof -
  from assms obtain b bytes where recv: "recv MAX_BUFF_SIZE s = Inr (b, bytes, s')"
    by (auto simp: receiveRequest_def andThen_eq_Inr_conv Let_def split: if_splits)
  show ?thesis
  proof (cases "b < 0")
    case True
    with recv show ?thesis by (simp add: receiveRequest_m_def response_left_def)
  next
    case False
    with assms recv obtain sent where
      str: "cstring_in (bytes @ replicate (MAX_BUFF_SIZE - length bytes) NUL) = Inr sent"
      and dec: "deSerializeRequest (Some sent) = Inr None"
      by (auto simp: receiveRequest_def andThen_eq_Inr_conv Let_def)
    obtain i type len path where loop: "request_loop (strtok (CHR '','') sent) 0 None None None = (i, type, len, path)"
      by (cases "request_loop (strtok (CHR '','') sent) 0 None None None") auto
    define copy where "copy = (case path of None \<Rightarrow> [] | Some p \<Rightarrow> [Some (StrCell p)])"
    have "deSerializeRequest_m (Some sent) h = Inr (None, h @ None # copy)"
      using dec loop
      by (auto simp: deSerializeRequest_def deSerializeRequest_m_def heap_defs copy_def createRequestFromParts_def
          createRequestFromParts_m_def list_update_append split: option.splits if_splits)
    moreover have "response_left h (h @ None # copy)"
    proof (cases path)
      case None
      then show ?thesis by (simp add: copy_def response_left_def live_snoc)
    next
      case (Some p)
      have "live (h @ [None, Some (StrCell p)]) = insert (Suc (length h)) (live h)" by (auto simp: live_append less_Suc_eq)
      then show ?thesis using Some by (auto simp: copy_def response_left_def card_insert_if)
    qed
    moreover have "\<forall>a \<in> live h. (h @ None # copy) ! a = h ! a" by (auto simp: nth_append dest: live_less)
    ultimately show ?thesis using recv False str by (simp add: receiveRequest_m_def)
  qed
qed

definition decodes :: "socket \<Rightarrow> bool" where
  \<comment> \<open>the first piece of the connection is a request\<close>
  "decodes s = (case receiveRequest s of Inr (Some r, s') \<Rightarrow> True | _ \<Rightarrow> False)"

lemma locked_memory:
  assumes "andThen take_lock (\<lambda>l1. andThen handler (\<lambda>w'. andThen (give_back l1) (\<lambda>l2. Inr (w', l2)))) = Inr (w', l')"
    and "\<And>w'. handler = Inr w' \<Longrightarrow> \<exists>h'. handler_m = Inr (w', h') \<and> response_left h h'"
  shows "\<exists>h'. locked_m take_lock give_back handler_m = Inr (w', l', h') \<and> response_left h h'"
proof -
  from assms(1) obtain l1 where "take_lock = Inr l1" "handler = Inr w'" "give_back l1 = Inr l'"
    by (auto simp: andThen_eq_Inr_conv)
  with assms(2) show ?thesis by (auto simp: locked_m_def)
qed

lemma live_card: "live h \<subseteq> live h' \<Longrightarrow> card (live h) \<le> card (live h')"
  by (rule card_mono) simp_all

lemma thread_rejects:
  assumes recv: "receiveRequest (conn (server_world srv)) = Inr (None, s1)" and run: "threadClientHandler n srv = Inr srv'"
    and args: "args \<in> live h" "h ! args = Some (ArgCell sd tid)"
  shows "\<exists>h'. threadClientHandler_m n args srv h = Inr (srv', h') \<and> card (live h) \<le> card (live h') \<and> card (live h') \<le> card (live h) + 2"
proof -
  from received_nothing [OF recv, of h] obtain h1 where one: "receiveRequest_m (conn (server_world srv)) h = Inr ((None, s1), h1)"
    "response_left h h1" by blast
  from run recv obtain w' where "respond False ''unable to receive request'' ((server_world srv)\<lparr>conn := s1\<rparr>) = Inr w'"
    and srv': "srv' = srv\<lparr>server_world := finish w'\<rparr>"
    by (auto simp: threadClientHandler_def andThen_eq_Inr_conv Let_def)
  from respond_memory [OF this(1), of h1] obtain h2 where
    two: "respond_m False ''unable to receive request'' ((server_world srv)\<lparr>conn := s1\<rparr>) h1 = Inr (w', h2)" "response_left h1 h2"
    by blast
  have "card (live h) \<le> card (live h2)" using one(2) two(2) by (auto simp: response_left_def intro!: live_card)
  moreover have "load args h = Inr (ArgCell sd tid)" using args by (simp add: load_def live_def)
  ultimately show ?thesis using one two srv' by (auto simp: threadClientHandler_m_def response_left_def)
qed

lemma live_free: "live (h[a := None]) = live h - {a}"
proof -
  have "h[a := None] ! b \<noteq> None \<longleftrightarrow> h ! b \<noteq> None \<and> b \<noteq> a" if "b < length h" for b
    using that by (cases "b = a") simp_all
  then show ?thesis by (auto simp: live_def)
qed

lemma switch_memory:
  assumes run: "(case command r of
        WRITE \<Rightarrow> andThen (rwlock_wrlock k l) (\<lambda>l1. andThen (handleWriteRequest n r w) (\<lambda>w'. andThen (rwlock_unlock k l1) (\<lambda>l2. Inr (w', l2))))
      | RM \<Rightarrow> andThen (rwlock_wrlock k l) (\<lambda>l1. andThen (handleRemoveRequest r w) (\<lambda>w'. andThen (rwlock_unlock k l1) (\<lambda>l2. Inr (w', l2))))
      | GET \<Rightarrow> andThen (rwlock_rdlock k l) (\<lambda>l1. andThen (handleGetRequest n r w) (\<lambda>w'. andThen (rwlock_unlock k l1) (\<lambda>l2. Inr (w', l2))))
      | LS \<Rightarrow> andThen (respond False ''optional command isn't implemented yet'' w) (\<lambda>w'. Inr (w', l))
      | UNKNOWN \<Rightarrow> andThen (respond False ''didn't receive valid command'' w) (\<lambda>w'. Inr (w', l))) = Inr (w', l')"
    and req: "load_request a h = Inr r"
  shows "\<exists>h'. switch_m n a (command r) k l w h = Inr (w', l', h') \<and> response_left h h'"
proof (cases "command r")
  case WRITE
  with run have "andThen (rwlock_wrlock k l) (\<lambda>l1. andThen (handleWriteRequest n r w)
      (\<lambda>w'. andThen (rwlock_unlock k l1) (\<lambda>l2. Inr (w', l2)))) = Inr (w', l')" by simp
  from locked_memory [OF this write_memory [OF _ req]] WRITE show ?thesis by (simp add: switch_m_def)
next
  case RM
  with run have "andThen (rwlock_wrlock k l) (\<lambda>l1. andThen (handleRemoveRequest r w)
      (\<lambda>w'. andThen (rwlock_unlock k l1) (\<lambda>l2. Inr (w', l2)))) = Inr (w', l')" by simp
  from locked_memory [OF this remove_memory [OF _ req]] RM show ?thesis by (simp add: switch_m_def)
next
  case GET
  with run have "andThen (rwlock_rdlock k l) (\<lambda>l1. andThen (handleGetRequest n r w)
      (\<lambda>w'. andThen (rwlock_unlock k l1) (\<lambda>l2. Inr (w', l2)))) = Inr (w', l')" by simp
  from locked_memory [OF this get_memory [OF _ req]] GET show ?thesis by (simp add: switch_m_def)
next
  case LS
  with run have "respond False ''optional command isn't implemented yet'' w = Inr w'" "l' = l" by (auto simp: andThen_eq_Inr_conv)
  with respond_memory [OF this(1), of h] LS show ?thesis by (auto simp: switch_m_def)
next
  case UNKNOWN
  with run have "respond False ''didn't receive valid command'' w = Inr w'" "l' = l" by (auto simp: andThen_eq_Inr_conv)
  with respond_memory [OF this(1), of h] UNKNOWN show ?thesis by (auto simp: switch_m_def)
qed

lemma thread_serves:
  assumes recv: "receiveRequest (conn (server_world srv)) = Inr (Some r, s1)" and run: "threadClientHandler n srv = Inr srv'"
    and args: "args \<in> live h" "h ! args = Some (ArgCell sd tid)"
  shows "\<exists>h'. threadClientHandler_m n args srv h = Inr (srv', h') \<and> card (live h) + 2 \<le> card (live h') \<and> card (live h') \<le> card (live h) + 4"
proof -
  let ?w = "(server_world srv)\<lparr>conn := s1\<rparr>"
  from received_request [OF recv, of h] obtain a h1 where
    one: "receiveRequest_m (conn (server_world srv)) h = Inr ((Some a, s1), h1)" "load_request a h1 = Inr r"
    and grown: "card (live h1) = card (live h) + 3" "live h \<subseteq> live h1" by blast
  have cell: "load args h = Inr (ArgCell sd tid)" using args by (simp add: load_def live_def)
  from run recv obtain node mgr locks where lock:
    "getLockFor (Some (remote_path r)) (file_lock_manager srv) (lock_heap srv) = Inr (node, mgr, locks)"
    by (auto simp: threadClientHandler_def andThen_eq_Inr_conv Let_def)
  show ?thesis
  proof (cases node)
    case None
    with run recv lock obtain w' where "respond False ''failed to get file lock'' ?w = Inr w'"
      and srv': "srv' = \<lparr>server_world = finish w', file_lock_manager = mgr, lock_heap = locks\<rparr>"
      by (auto simp: threadClientHandler_def andThen_eq_Inr_conv Let_def)
    from respond_memory [OF this(1), of h1] obtain h2 where
      two: "respond_m False ''failed to get file lock'' ?w h1 = Inr (w', h2)" "response_left h1 h2" by blast
    have "card (live h1) \<le> card (live h2)" using two(2) by (auto simp: response_left_def intro!: live_card)
    then show ?thesis using cell one two srv' lock None grown by (auto simp: threadClientHandler_m_def response_left_def)
  next
    case (Some k)
    obtain w' locks' h2 where two: "switch_m n a (command r) k locks ?w h1 = Inr (w', locks', h2)" "response_left h1 h2"
      and srv': "srv' = \<lparr>server_world = finish w', file_lock_manager = mgr, lock_heap = locks'\<rparr>"
      using run recv lock Some
      by (auto simp: threadClientHandler_def andThen_eq_Inr_conv [of "case _ of _ \<Rightarrow> _"] Let_def dest!: switch_memory [OF _ one(2)])
    have in2: "args \<in> live h2" using args(1) grown(2) two(2) by (auto simp: response_left_def)
    have "card (live h1) \<le> card (live h2)" using two(2) by (auto simp: response_left_def intro!: live_card)
    moreover have "free args h2 = Inr (h2[args := None])" using in2 by (auto simp: free_def load_def live_def)
    moreover note live_free [of h2 args]
    ultimately show ?thesis
      using cell one two srv' lock Some grown in2 by (auto simp: threadClientHandler_m_def response_left_def card_Diff_singleton)
  qed
qed

subsection \<open>What the server leaves\<close>

fun connections :: "accept_result list \<Rightarrow> socket list" where
  \<comment> \<open>the connections before \<open>accept\<close> fails\<close>
  "connections [] = []"
| "connections (AcceptFails # evs) = []"
| "connections (Accepted s time sd create_status tid sched # evs) = s # connections evs"

lemma thread_memory:
  assumes run: "threadClientHandler n srv = Inr srv'" and args: "args \<in> live h" "h ! args = Some (ArgCell sd tid)"
  shows "\<exists>h'. threadClientHandler_m n args srv h = Inr (srv', h') \<and>
    card (live h) + (if decodes (conn (server_world srv)) then 2 else 0) \<le> card (live h') \<and> card (live h') \<le> card (live h) + 4"
proof -
  from run obtain req s1 where recv: "receiveRequest (conn (server_world srv)) = Inr (req, s1)"
    by (auto simp: threadClientHandler_def andThen_eq_Inr_conv)
  show ?thesis
  proof (cases req)
    case None
    with thread_rejects [OF recv [unfolded None] run args] recv show ?thesis by (auto simp: decodes_def)
  next
    case (Some r)
    with thread_serves [OF recv [unfolded Some] run args] recv show ?thesis by (auto simp: decodes_def)
  qed
qed

lemma accept_loop_memory:
  assumes "accept_loop n evs run = Inr (code, run')"
  shows "\<exists>h'. accept_loop_m n evs run h = Inr ((code, run'), h') \<and>
    card (live h) + length (connections evs) + 2 * length (filter decodes (connections evs)) \<le> card (live h') \<and>
    card (live h') \<le> card (live h) + 5 * length (connections evs)"
  using assms
proof (induction n evs run arbitrary: h rule: accept_loop.induct)
  case (3 n s time sd create_status tid sched evs run)
  let ?srv = "(run_state run)\<lparr>server_world := (server_world (run_state run))\<lparr>conn := s, clock := time\<rparr>\<rparr>"
  let ?h1 = "h @ [Some (ArgCell sd (Some tid))]"
  from "3.prems" obtain srv where create: "createAndDetachThread create_status tid sched sd = Inr True"
    and srv: "threadClientHandler n ?srv = Inr srv"
    and rest: "accept_loop n evs \<lparr>run_state = srv, served = served run @ [conn (server_world srv)]\<rparr> = Inr (code, run')"
    by (auto simp: andThen_eq_Inr_conv createAndDetachThread_def split: if_splits)
  have one: "createAndDetachThread_m create_status tid sched sd h = Inr ((True, length h), ?h1)"
    using create by (simp add: createAndDetachThread_m_def malloc_def)
  have "length h \<in> live ?h1" "?h1 ! length h = Some (ArgCell sd (Some tid))" by (simp_all add: live_snoc)
  from thread_memory [OF srv this] obtain h2 where two: "threadClientHandler_m n (length h) ?srv ?h1 = Inr (srv, h2)"
    "card (live ?h1) + (if decodes s then 2 else 0) \<le> card (live h2)" "card (live h2) \<le> card (live ?h1) + 4" by auto
  have "length h \<notin> live h" by (auto dest: live_less)
  then have grown: "card (live ?h1) = Suc (card (live h))" by (simp add: live_snoc)
  from "3.IH" [OF create, of srv h2] srv rest obtain h' where
    "accept_loop_m n evs \<lparr>run_state = srv, served = served run @ [conn (server_world srv)]\<rparr> h2 = Inr ((code, run'), h')"
    "card (live h2) + length (connections evs) + 2 * length (filter decodes (connections evs)) \<le> card (live h')"
    "card (live h') \<le> card (live h2) + 5 * length (connections evs)" by auto
  with one two grown show ?case by (intro exI [of _ h']) auto
qed auto

text \<open>
  C36. The server loses memory with every connection: a run of the server does over an explicit heap what the model without one
  says, without using freed memory, and each connection leaves one to five blocks allocated, at least three when its request could be decoded.
\<close>

theorem main_server_leaks:
  assumes "main_server n socket_status binding_status listen_status evs w = Inr (code, run)"
    and "0 \<le> socket_status" and "0 \<le> binding_status" and "0 \<le> listen_status"
  shows "\<exists>h. main_server_m n socket_status binding_status listen_status evs w [] = Inr ((code, run), h) \<and>
    length (connections evs) + 2 * length (filter decodes (connections evs)) \<le> card (live h) \<and>
    card (live h) \<le> 5 * length (connections evs)"
  using assms accept_loop_memory [of n evs _ code run "[]"]
  by (simp add: main_server_def main_server_m_def Let_def live_def)

end
