(* ===== verification/Client_Memory.thy ===== *)
theory Client_Memory
  imports Ownership
begin

text \<open>
  What a run of the client leaves on the heap: \<open>argParser\<close> and the \<open>main\<close> of \<open>client/client.c\<close> with the heap of theory
  \<open>Ownership\<close>. The client frees the strings of its command at the end, and nothing else.
\<close>

section \<open>The code\<close>

definition argParser_m :: "string list \<Rightarrow> heap \<Rightarrow> stop + nat option \<times> heap" where
  "argParser_m argv h =
     (let commandType = getCommandType argv in
      if commandType = UNKNOWN then Inl (ExitWith 1)
      else
        andThen (getPathArg argv SERVER_FLAG) (\<lambda>ip_arg.
        andThen (getPathArg argv LOCAL_FLAG) (\<lambda>local_arg.
        andThen (getPathArg argv REMOTE_FLAG) (\<lambda>remote_arg.
        let ip_address = (if ip_arg = None then Some DEFAULT_IP else ip_arg) in
        if commandType = WRITE then
          (if local_arg = None then Inl (ExitWith 1)
           else createCommandStruct_m commandType ip_address local_arg
                  (if remote_arg = None then local_arg else remote_arg) h)
        else if remote_arg = None then Inl (ExitWith 1)
        else if commandType = GET then
          createCommandStruct_m commandType ip_address
            (if local_arg = None then remote_arg else local_arg) remote_arg h
        else createCommandStruct_m commandType ip_address (Some '''') remote_arg h))))"

definition load_string :: "nat \<Rightarrow> heap \<Rightarrow> stop + string" where
  "load_string a h = andThen (load a h) (\<lambda>c. case c of StrCell s \<Rightarrow> Inr s | _ \<Rightarrow> Inl Indeterminate)"

definition load_command :: "nat \<Rightarrow> heap \<Rightarrow> stop + command_t" where
  \<comment> \<open>the struct that a pointer points to\<close>
  "load_command a h =
     andThen (load a h) (\<lambda>c.
       (case c of
          CmdCell t ip loc rem \<Rightarrow>
            andThen (load_string ip h) (\<lambda>i. andThen (load_string loc h) (\<lambda>l. andThen (load_string rem h) (\<lambda>r.
              Inr \<lparr>c_type = t, server_ip = i, local_path = l, cmd_remote_path = r\<rparr>)))
        | _ \<Rightarrow> Inl Indeterminate))"

definition show_result_m :: "nat \<Rightarrow> nat \<Rightarrow> nat \<Rightarrow> world \<Rightarrow> heap \<Rightarrow> stop + string \<times> world" where
  \<comment> \<open>the \<open>switch\<close> at the end of \<open>main\<close>\<close>
  "show_result_m n cmd response w h =
     andThen (load_command cmd h) (\<lambda>c.
     andThen (load_response response h) (\<lambda>res.
       (case c_type c of
          WRITE \<Rightarrow> Inr (displayServerResponse res, w)
        | RM \<Rightarrow> Inr (displayServerResponse res, w)
        | GET \<Rightarrow> handleGetResponse n (local_path c) res w
        | LS \<Rightarrow> Inr ('''', w)
        | UNKNOWN \<Rightarrow> Inr ('''', w))))"

definition main_client_m ::
  "nat \<Rightarrow> string list \<Rightarrow> int \<Rightarrow> int \<Rightarrow> world \<Rightarrow> heap \<Rightarrow> stop + (int \<times> string \<times> world) \<times> heap" where
  \<comment> \<open>\<open>command\<close> is freed after a response that could not be decoded and at the end, not at the other early exits\<close>
  "main_client_m n argv socket_descriptor connect_status w h =
     andThen (argParser_m argv h) (\<lambda>(command, h0).
       (case command of
          None \<Rightarrow> Inr ((- 1, '''', w), h0)
        | Some cmd \<Rightarrow>
            if socket_descriptor < 0 then Inr ((- 1, '''', w), h0)
            else if connect_status < 0 then Inr ((- 1, '''', close_conn w), h0)
            else
              andThen (load_command cmd h0) (\<lambda>c.
              andThen (sendRequest_m n c w h0) (\<lambda>(w1, h1).
              andThen (recv MAX_BUFF_SIZE (conn w1)) (\<lambda>(status, bytes, s2).
                (let w2 = w1\<lparr>conn := s2\<rparr>; buffer = bytes @ replicate (MAX_BUFF_SIZE - length bytes) NUL in
                 if status < 0 then Inr ((- 1, '''', close_conn w2), h1)
                 else
                   andThen (cstring_in buffer) (\<lambda>text.
                   andThen (deSerializeResponse_m (Some text) h1) (\<lambda>(response, h2).
                     (case response of
                        None \<Rightarrow>
                          andThen (freeCommandStruct (Some cmd) h2) (\<lambda>h3. Inr ((- 1, '''', close_conn w2), h3))
                      | Some res \<Rightarrow>
                          andThen (show_result_m n cmd res w2 h2) (\<lambda>(shown, w3).
                          andThen (freeCommandStruct (Some cmd) h2) (\<lambda>h3.
                            Inr ((0, shown, close_conn w3), h3))))))))))))"

section \<open>What is left\<close>

definition cmd_cells :: "nat \<Rightarrow> command_t \<Rightarrow> heap" where
  "cmd_cells a c =
     [Some (CmdCell (c_type c) (Suc a) (Suc (Suc a)) (Suc (Suc (Suc a)))), Some (StrCell (server_ip c)),
      Some (StrCell (local_path c)), Some (StrCell (cmd_remote_path c))]"

lemma card_live: "card (live h) = length (filter (\<lambda>c. c \<noteq> None) h)"
proof -
  have "live h = {i. i < length h \<and> h ! i \<noteq> None}" by (auto simp: live_def)
  then show ?thesis by (simp add: length_filter_conv_card)
qed

lemma createCommandStruct_heap:
  assumes "createCommandStruct t (Some ip) l r = Inr (Some c)"
  shows "createCommandStruct_m t (Some ip) l r h = Inr (Some (length h), h @ cmd_cells (length h) c)"
  using assms by (auto simp: createCommandStruct_def createCommandStruct_m_eq cmd_cells_def andThen_eq_Inr_conv)

lemma argParser_heap:
  assumes "argParser argv = Inr (Some c)"
  shows "argParser_m argv h = Inr (Some (length h), h @ cmd_cells (length h) c)"
proof -
  from assms obtain ip_arg local_arg remote_arg where args: "getPathArg argv SERVER_FLAG = Inr ip_arg"
    "getPathArg argv LOCAL_FLAG = Inr local_arg" "getPathArg argv REMOTE_FLAG = Inr remote_arg"
    by (auto simp: argParser_def Let_def andThen_eq_Inr_conv split: if_splits)
  obtain ip where ip: "(if ip_arg = None then Some DEFAULT_IP else ip_arg) = Some ip" by (cases ip_arg) simp_all
  show ?thesis
    using assms args ip
    by (auto simp: argParser_def argParser_m_def Let_def createCommandStruct_heap simp del: createCommandStruct_Some split: if_splits)
qed

lemma load_command_cells: "load_command (length h) (h @ cmd_cells (length h) c @ cs) = Inr c"
  by (simp add: load_command_def load_string_def cmd_cells_def heap_defs)

lemma free_command_cells:
  "freeCommandStruct (Some (length h)) (h @ cmd_cells (length h) c @ cs) =
   Inr (h @ [Some (CmdCell (c_type c) (Suc (length h)) (Suc (Suc (length h))) (Suc (Suc (Suc (length h))))), None, None, None] @ cs)"
  by (simp add: freeCommandStruct_def cmd_cells_def heap_defs list_update_append)

lemma argParser_not_None: "argParser argv = Inr p \<Longrightarrow> p \<noteq> None"
  by (auto simp: argParser_def createCommandStruct_def Let_def andThen_eq_Inr_conv split: if_splits option.splits)

lemma show_result_heap:
  assumes "load_command a h = Inr c" and "load_response b h = Inr res"
  shows "show_result_m n a b w h =
    (case c_type c of
       WRITE \<Rightarrow> Inr (displayServerResponse res, w)
     | RM \<Rightarrow> Inr (displayServerResponse res, w)
     | GET \<Rightarrow> handleGetResponse n (local_path c) res w
     | LS \<Rightarrow> Inr ('''', w)
     | UNKNOWN \<Rightarrow> Inr ('''', w))"
  using assms by (simp add: show_result_m_def)

lemma client_exits_early:
  assumes "main_client n argv sd cs w = Inr (code, shown, w')" and "argParser argv = Inr (Some c)" and "sd < 0 \<or> cs < 0"
  shows "code = - 1 \<and> main_client_m n argv sd cs w [] = Inr ((code, shown, w'), cmd_cells 0 c)"
  using assms argParser_heap [OF assms(2), of "[]"] by (auto simp: main_client_def main_client_m_def)

lemma client_no_response:
  assumes run: "main_client n argv sd cs w = Inr (code, shown, w')" and parsed: "argParser argv = Inr (Some c)"
    and ok: "\<not> sd < 0" "\<not> cs < 0" and sent: "sendRequest n c w = Inr w1"
    and none: "receiveResponse (conn w1) = Inr (None, s2)"
  shows "code = - 1 \<and> (\<exists>h. main_client_m n argv sd cs w [] = Inr ((code, shown, w'), h) \<and> card (live h) \<le> 5)"
proof -
  have res: "code = - 1" "shown = ''''" "w' = close_conn (w1\<lparr>conn := s2\<rparr>)"
    using run parsed ok sent none by (simp_all add: main_client_def)
  note parser = argParser_heap [OF parsed, of "[]"]
  obtain out where send: "sendRequest_m n c w (cmd_cells 0 c) = Inr (w1, cmd_cells 0 c @ [None, None, Some (StrCell out)])"
    using sendRequest_heap [OF sent] by blast
  let ?h1 = "cmd_cells 0 c @ [None, None, Some (StrCell out)]"
  have cmd: "load_command 0 (cmd_cells 0 c) = Inr c" using load_command_cells [of "[]" c "[]"] by simp
  from none obtain st bytes where recv: "recv MAX_BUFF_SIZE (conn w1) = Inr (st, bytes, s2)"
    by (auto simp: receiveResponse_def Let_def andThen_eq_Inr_conv split: if_splits)
  show ?thesis
  proof (cases "st < 0")
    case True
    have "main_client_m n argv sd cs w [] = Inr ((- 1, '''', close_conn (w1\<lparr>conn := s2\<rparr>)), ?h1)"
      using parser ok cmd send recv True by (simp add: main_client_m_def)
    with res show ?thesis by (simp add: card_live cmd_cells_def)
  next
    case False
    with none recv obtain t where str: "cstring_in (bytes @ replicate (MAX_BUFF_SIZE - length bytes) NUL) = Inr t"
      and dec: "deSerializeResponse (Some t) = Inr None"
      by (auto simp: receiveResponse_def Let_def andThen_eq_Inr_conv)
    from undecoded_response_heap [OF dec, of ?h1] obtain ds where
      d: "deSerializeResponse_m (Some t) ?h1 = Inr (None, ?h1 @ ds)" "length (filter (\<lambda>c. c \<noteq> None) ds) \<le> 1" by blast
    let ?h3 = "[Some (CmdCell (c_type c) 1 2 3), None, None, None, None, None, Some (StrCell out)] @ ds"
    have "freeCommandStruct (Some 0) (?h1 @ ds) = Inr ?h3"
      using free_command_cells [of "[]" c "[None, None, Some (StrCell out)] @ ds"] by (simp add: numeral_eq_Suc)
    then have "main_client_m n argv sd cs w [] = Inr ((- 1, '''', close_conn (w1\<lparr>conn := s2\<rparr>)), ?h3)"
      using parser ok cmd send recv False str d(1) by (simp add: main_client_m_def)
    with res d(2) show ?thesis by (simp add: card_live)
  qed
qed

lemma client_response:
  assumes run: "main_client n argv sd cs w = Inr (code, shown, w')" and parsed: "argParser argv = Inr (Some c)"
    and ok: "\<not> sd < 0" "\<not> cs < 0" and sent: "sendRequest n c w = Inr w1"
    and some: "receiveResponse (conn w1) = Inr (Some r, s2)"
  shows "code = 0 \<and> (\<exists>h. main_client_m n argv sd cs w [] = Inr ((code, shown, w'), h) \<and> card (live h) = 5)"
proof -
  note parser = argParser_heap [OF parsed, of "[]"]
  obtain out where send: "sendRequest_m n c w (cmd_cells 0 c) = Inr (w1, cmd_cells 0 c @ [None, None, Some (StrCell out)])"
    using sendRequest_heap [OF sent] by blast
  let ?h1 = "cmd_cells 0 c @ [None, None, Some (StrCell out)]"
  have cmd: "load_command 0 (cmd_cells 0 c) = Inr c" using load_command_cells [of "[]" c "[]"] by simp
  from some obtain st bytes t where recv: "recv MAX_BUFF_SIZE (conn w1) = Inr (st, bytes, s2)" "\<not> st < 0"
    and str: "cstring_in (bytes @ replicate (MAX_BUFF_SIZE - length bytes) NUL) = Inr t"
    and dec: "deSerializeResponse (Some t) = Inr (Some r)"
    by (auto simp: receiveResponse_def Let_def andThen_eq_Inr_conv split: if_splits)
  let ?ds = "\<lambda>m. [None, Some (StrCell m), Some (ResCell (Some (status r)) 10 (Some (res_data_len r))), Some (StrCell (message r))]"
  from decoded_response_heap [OF dec, of ?h1] obtain m where
    d: "deSerializeResponse_m (Some t) ?h1 = Inr (Some 9, ?h1 @ ?ds m)"
    by (auto simp: cmd_cells_def eval_nat_numeral)
  let ?h3 = "[Some (CmdCell (c_type c) 1 2 3), None, None, None, None, None, Some (StrCell out)] @ ?ds m"
  have freed: "freeCommandStruct (Some 0) (?h1 @ ?ds m) = Inr ?h3"
    using free_command_cells [of "[]" c "[None, None, Some (StrCell out)] @ ?ds m"] by (simp add: numeral_eq_Suc)
  have "load_command 0 (?h1 @ ?ds m) = Inr c" "load_response 9 (?h1 @ ?ds m) = Inr r"
    using load_command_cells [of "[]" c "[None, None, Some (StrCell out)] @ ?ds m"]
    by (simp_all add: load_response_def cmd_cells_def heap_defs)
  note shown = show_result_heap [OF this]
  have "code = 0 \<and> main_client_m n argv sd cs w [] = Inr ((code, shown, w'), ?h3)"
    using run parsed parser ok sent some cmd send recv str d freed shown
    by (cases "c_type c") (auto simp: main_client_def main_client_m_def andThen_eq_Inr_conv)
  then show ?thesis by (simp add: card_live)
qed

text \<open>
  C37. The memory of a run of the client: over an explicit heap it does what the model without one says, and uses no block after
  it has been freed; when it ends with 0, exactly five blocks are still allocated, the struct of the command, the text of the request,
  the response, its message and another copy of the message; when it ends with -1, at most five.
\<close>

theorem main_client_leaks:
  assumes "main_client n argv sd cs w = Inr (code, shown, w')"
  shows "\<exists>h. main_client_m n argv sd cs w [] = Inr ((code, shown, w'), h) \<and>
    card (live h) \<le> 5 \<and> (code = 0 \<longrightarrow> card (live h) = 5)"
proof -
  from assms obtain p where parsed: "argParser argv = Inr p" by (auto simp: main_client_def andThen_eq_Inr_conv)
  with argParser_not_None obtain c where c: "argParser argv = Inr (Some c)" by blast
  show ?thesis
  proof (cases "sd < 0 \<or> cs < 0")
    case True
    with client_exits_early [OF assms c] show ?thesis by (simp add: card_live cmd_cells_def)
  next
    case False
    with assms c obtain w1 r s2 where sent: "sendRequest n c w = Inr w1" and got: "receiveResponse (conn w1) = Inr (r, s2)"
      by (auto simp: main_client_def andThen_eq_Inr_conv)
    show ?thesis
    proof (cases r)
      case None
      with client_no_response [OF assms c _ _ sent] got False show ?thesis by auto
    next
      case (Some a)
      with client_response [OF assms c _ _ sent] got False show ?thesis by auto
    qed
  qed
qed

end
