(* ===== verification/Client_Runs.thy ===== *)
theory Client_Runs
  imports Client
begin

text \<open>
  Concrete runs of the client, one for each theorem about \<open>main\<close>.
\<close>

section \<open>The client\<close>

definition demo_home :: "bytes \<Rightarrow> filesys" where
  "demo_home c =
     \<lparr>nodes = [([], Dir), ([''home''], Dir), ([''home'', ''data''], Dir), ([''home'', ''data'', ''b''], File c)],
      cwd = [''home''], readonly = [], space = 100, dir_end = 9223372036854775807\<rparr>"

definition demo_client :: "bytes \<Rightarrow> net_in list \<Rightarrow> world" where
  "demo_client c evs =
     \<lparr>files = demo_home c, conn = \<lparr>inbox = evs, send_plan = [], outbox = [], is_closed = False\<rparr>, clock = (0, 0)\<rparr>"

lemma demo_client_fields [simp]:
  "files (demo_client c evs) = demo_home c" "inbox (conn (demo_client c evs)) = evs"
  "outbox (conn (demo_client c evs)) = []" "sends_whole (conn (demo_client c evs))"
  "cwd (demo_home c) = [''home'']" "readonly (demo_home c) = []" "space (demo_home c) = 100"
  by (simp_all add: demo_client_def demo_home_def sends_whole_def)

lemma demo_home_node:
  "node_at (demo_home c) = map_of [([], Dir), ([''home''], Dir), ([''home'', ''data''], Dir), ([''home'', ''data'', ''b''], File c)]"
  by (simp add: node_at_def demo_home_def fun_eq_iff)

lemma demo_home_wf [simp]: "wf_fs (demo_home c)"
proof -
  have "nodes (demo_home c) = [([], Dir), ([''home''], Dir), ([''home'', ''data''], Dir), ([''home'', ''data'', ''b''], File c)]"
    by (simp add: demo_home_def)
  then show ?thesis by (intro wf_fsI) (auto simp: demo_home_node plain_def)
qed

definition demo_argv :: "string \<Rightarrow> string list" where
  "demo_argv c = [''rfs'', c, ''--local'', ''b'', ''--remote'', ''b'']"

definition demo_command :: "command_type \<Rightarrow> command_t" where
  "demo_command t = \<lparr>c_type = t, server_ip = ''127.0.0.1'', local_path = ''data/b'', cmd_remote_path = ''data/b''\<rparr>"

lemma demo_parsed:
  "argParser (demo_argv ''WRITE'') = Inr (Some (demo_command WRITE))"
  "argParser (demo_argv ''GET'') = Inr (Some (demo_command GET))"
  by code_simp+

lemma demo_command_fields [simp]:
  "c_type (demo_command t) = t" "local_path (demo_command t) = ''data/b''"
  "cmd_remote_path (demo_command t) = ''data/b''"
  by (simp_all add: demo_command_def)

lemma demo_path: "rel_path [''data'', ''b'']"
  by (simp add: rel_path_def plain_def)

lemma demo_size: "length c = 5 \<Longrightarrow> \<not> power_of_ten (length c)"
proof -
  have "\<not> power_of_ten 5" by code_simp
  then show "length c = 5 \<Longrightarrow> \<not> power_of_ten (length c)" by simp
qed

theorem main_client_write_witness:
  "\<exists>s'. main_client 3 (demo_argv ''WRITE'') 3 0 (demo_client ''hello'' [Arrive ''1,0,NULL'']) =
      Inr (0, newline @ ''SUCCESS'' @ newline, (demo_client ''hello'' [Arrive ''1,0,NULL''])\<lparr>conn := s'\<rparr>) \<and>
    outbox s' = ''WRITE,5,data/bhello'' \<and> is_closed s'"
proof -
  let ?w = "demo_client ''hello'' [Arrive ''1,0,NULL'']"
  have enc: "request_text (request_of (demo_command WRITE) (int (length ''hello''))) = ''WRITE,5,data/b''"
    by code_simp
  have "length ''hello'' = 5" by simp
  from main_client_write [OF demo_parsed(1), of 3 0 ?w, OF _ _ _ _ demo_path _ _ _ demo_size [OF this],
      of 3 True "''NULL''" "[]"] enc
  show ?thesis
    by (simp add: demo_home_node MAX_BUFF_SIZE_def cstr_def displayServerResponse_def)
qed

theorem main_client_get_witness:
  "\<exists>w'. main_client 9 (demo_argv ''GET'') 3 0
        (demo_client ''old'' [Arrive ''1,5,OK'', Arrive ''he'', Arrive ''llo'', PeerClosed]) = Inr (0, '''', w') \<and>
    node_at (files w') [''home'', ''data'', ''b''] = Some (File ''hello'') \<and>
    outbox (conn w') = ''GET,0,data/b'' \<and> is_closed (conn w')"
proof -
  let ?w = "demo_client ''old'' [Arrive ''1,5,OK'', Arrive ''he'', Arrive ''llo'', PeerClosed]"
  have "request_text (request_of (demo_command GET) 0) = ''GET,0,data/b''" and "show_int 5 = ''5''"
    by code_simp+
  then show ?thesis
    using main_client_get [OF demo_parsed(2), of 3 0 ?w "[''data'', ''b'']" "[''he'', ''llo'']" "[PeerClosed]" 9] demo_path
    by (auto simp: demo_home_node MAX_BUFF_SIZE_def LONG_MAX_def)
qed

theorem main_client_get_coalesced_witness:
  "main_client 9 (demo_argv ''GET'') 3 0 (demo_client ''old'' [Arrive ''1,5,OKhello'', PeerClosed]) = Inl OutOfFuel"
proof -
  let ?w = "demo_client ''old'' [Arrive ''1,5,OKhello'', PeerClosed]"
  have "show_int 5 = ''5''" by code_simp
  then show ?thesis
    using main_client_get_coalesced [OF demo_parsed(2), of 3 0 ?w "[''data'', ''b'']" "''hello''" "[]" 9] demo_path
    by (simp add: demo_home_node MAX_BUFF_SIZE_def LONG_MAX_def)
qed

end
