(* ===== verification/Workers.thy ===== *)
theory Workers
  imports Thread_Manager "HOL-Library.Transitive_Closure_Table"
begin

text \<open>
  All worker threads of the server at once: a step relation on the file system, the lock list and
  the threads, each of them at a point of \<open>threadClientHandler\<close>. Between two points only calls
  lie that no other thread can disturb: \<open>getLockFor\<close> runs under the mutex, a lock is taken or
  given back in one step. A handler is one step, too; what the theory shows about the locks is
  that no other thread with the same path can be inside a handler at the same time, unless both are reading.
\<close>

section \<open>Points of a thread and steps of the server\<close>

datatype phase =
    Receiving
  | Got request_t
  | Waiting request_t nat
  | Holding request_t nat
  | Ran request_t nat
  | Ended

record system =
  sys_files :: filesys
  sys_clock :: "int \<times> int"
  sys_locks :: "file_lock_list \<times> node_heap"
  threads :: "(phase \<times> socket) list"

definition writes :: "request_t \<Rightarrow> bool" where
  "writes r \<longleftrightarrow> command r = WRITE \<or> command r = RM"

definition run_handler :: "nat \<Rightarrow> request_t \<Rightarrow> world \<Rightarrow> stop + world" where
  "run_handler n r w =
     (case command r of
        WRITE \<Rightarrow> handleWriteRequest n r w
      | RM \<Rightarrow> handleRemoveRequest r w
      | GET \<Rightarrow> handleGetRequest n r w
      | LS \<Rightarrow> respond False ''optional command isn't implemented yet'' w
      | UNKNOWN \<Rightarrow> respond False ''didn't receive valid command'' w)"

definition sys_world :: "system \<Rightarrow> socket \<Rightarrow> world" where
  "sys_world sys s = \<lparr>files = sys_files sys, conn = s, clock = sys_clock sys\<rparr>"

inductive step :: "nat \<Rightarrow> system \<Rightarrow> system \<Rightarrow> bool" for n :: nat where
  accept: "step n sys (sys\<lparr>threads := threads sys @ [(Receiving, s)]\<rparr>)"
| tick: "step n sys (sys\<lparr>sys_clock := t\<rparr>)"
| receive:
    "i < length (threads sys) \<Longrightarrow> threads sys ! i = (Receiving, s) \<Longrightarrow>
     receiveRequest s = Inr (Some r, s') \<Longrightarrow>
     step n sys (sys\<lparr>threads := (threads sys)[i := (Got r, s')]\<rparr>)"
| receive_bad:
    "i < length (threads sys) \<Longrightarrow> threads sys ! i = (Receiving, s) \<Longrightarrow>
     receiveRequest s = Inr (None, s') \<Longrightarrow>
     respond False ''unable to receive request'' (sys_world sys s') = Inr w \<Longrightarrow>
     step n sys (sys\<lparr>threads := (threads sys)[i := (Ended, close_socket (conn w))]\<rparr>)"
| find_lock:
    "i < length (threads sys) \<Longrightarrow> threads sys ! i = (Got r, s) \<Longrightarrow>
     get_lock (remote_path r) (sys_locks sys) = Inr (a, locks') \<Longrightarrow>
     step n sys (sys\<lparr>sys_locks := locks', threads := (threads sys)[i := (Waiting r a, s)]\<rparr>)"
| write_lock:
    "i < length (threads sys) \<Longrightarrow> threads sys ! i = (Waiting r a, s) \<Longrightarrow> writes r \<Longrightarrow>
     rwlock_wrlock a (snd (sys_locks sys)) = Inr h' \<Longrightarrow>
     step n sys (sys\<lparr>sys_locks := (fst (sys_locks sys), h'),
                     threads := (threads sys)[i := (Holding r a, s)]\<rparr>)"
| read_lock:
    "i < length (threads sys) \<Longrightarrow> threads sys ! i = (Waiting r a, s) \<Longrightarrow> command r = GET \<Longrightarrow>
     rwlock_rdlock a (snd (sys_locks sys)) = Inr h' \<Longrightarrow>
     step n sys (sys\<lparr>sys_locks := (fst (sys_locks sys), h'),
                     threads := (threads sys)[i := (Holding r a, s)]\<rparr>)"
| no_lock:
    "i < length (threads sys) \<Longrightarrow> threads sys ! i = (Waiting r a, s) \<Longrightarrow>
     \<not> writes r \<Longrightarrow> command r \<noteq> GET \<Longrightarrow> run_handler n r (sys_world sys s) = Inr w \<Longrightarrow>
     step n sys (sys\<lparr>threads := (threads sys)[i := (Ended, close_socket (conn w))]\<rparr>)"
| handle:
    "i < length (threads sys) \<Longrightarrow> threads sys ! i = (Holding r a, s) \<Longrightarrow>
     run_handler n r (sys_world sys s) = Inr w \<Longrightarrow>
     step n sys (sys\<lparr>sys_files := files w, threads := (threads sys)[i := (Ran r a, conn w)]\<rparr>)"
| unlock:
    "i < length (threads sys) \<Longrightarrow> threads sys ! i = (Ran r a, s) \<Longrightarrow>
     rwlock_unlock a (snd (sys_locks sys)) = Inr h' \<Longrightarrow>
     step n sys (sys\<lparr>sys_locks := (fst (sys_locks sys), h'),
                     threads := (threads sys)[i := (Ended, close_socket s)]\<rparr>)"

definition boot :: "filesys \<Rightarrow> int \<times> int \<Rightarrow> system" where
  "boot fs t = \<lparr>sys_files = fs, sys_clock = t, sys_locks = (createFileLockList, []), threads = []\<rparr>"

definition reachable :: "nat \<Rightarrow> system \<Rightarrow> bool" where
  "reachable n sys \<longleftrightarrow> (\<exists>fs t. (step n)\<^sup>*\<^sup>* (boot fs t) sys)"

section \<open>Changing the state of one lock\<close>

definition same_nodes :: "node_heap \<Rightarrow> node_heap \<Rightarrow> bool" where
  "same_nodes h h' \<longleftrightarrow> length h' = length h \<and>
     (\<forall>a < length h. map_option (\<lambda>n. (filename n, next_lock n)) (h' ! a) =
                     map_option (\<lambda>n. (filename n, next_lock n)) (h ! a))"

lemma same_nodes_update:
  "h ! a = Some n \<Longrightarrow> same_nodes h (h[a := Some (n\<lparr>lock := x\<rparr>)])"
  by (cases "a < length h") (auto simp: same_nodes_def nth_list_update list_update_beyond)

lemma chain_same_nodes: "same_nodes h h' \<Longrightarrow> chain h p as \<Longrightarrow> chain h' p as"
  by (induction as arbitrary: p) (force simp: same_nodes_def split: option.splits)+

lemma name_same_nodes: "same_nodes h h' \<Longrightarrow> a < length h \<Longrightarrow> name_at h' a = name_at h a"
  by (auto simp: same_nodes_def name_at_def split: option.splits)

lemma locks_same_nodes:
  assumes "locks_inv (l, h)" and "same_nodes h h'"
  shows "locks_inv (l, h') \<and> addresses (l, h') = addresses (l, h) \<and>
    locks_table (l, h') = locks_table (l, h)"
proof -
  let ?as = "addresses (l, h)"
  have inv: "list_inv l h ?as" using assms(1) by (simp add: locks_inv_def)
  have below: "a < length h" if "a \<in> set ?as" for a
    using inv chain_addr [of h "head_node l" ?as a] that by (simp add: list_inv_def shape_def)
  have names: "map (name_at h') ?as = map (name_at h) ?as"
    using name_same_nodes [OF assms(2) below] by simp
  have inv': "list_inv l h' ?as"
    using inv chain_same_nodes [OF assms(2)] unfolding list_inv_def shape_def names by blast
  have "lock_map h' ?as f = lock_map h ?as f" for f
    unfolding lock_map_def by (rule find_cong_set) (simp add: name_same_nodes [OF assms(2) below])
  with inv' addresses_inv [OF inv'] show ?thesis
    by (simp add: locks_inv_def locks_table_def fun_eq_iff)
qed

lemma length_filter_update:
  assumes "i < length xs"
  shows "length (filter P (xs[i := x])) + (if P (xs ! i) then 1 else 0) =
    length (filter P xs) + (if P x then 1 else 0)"
  using assms
proof (induction xs arbitrary: i)
  case (Cons y ys)
  then show ?case by (cases i) auto
qed simp

section \<open>The invariant\<close>

text \<open>
  The lock of a node is in the state that the threads inside their handlers demand, and a
  thread that waits for a node or uses it has the node that the table gives for its path.
\<close>

fun holds :: "(request_t \<Rightarrow> bool) \<Rightarrow> nat \<Rightarrow> phase \<times> socket \<Rightarrow> bool" where
  "holds P a (Holding r b, s) \<longleftrightarrow> a = b \<and> P r"
| "holds P a (Ran r b, s) \<longleftrightarrow> a = b \<and> P r"
| "holds P a _ \<longleftrightarrow> False"

definition reads :: "request_t \<Rightarrow> bool" where
  "reads r \<longleftrightarrow> command r = GET"

definition holders :: "(request_t \<Rightarrow> bool) \<Rightarrow> nat \<Rightarrow> (phase \<times> socket) list \<Rightarrow> nat" where
  "holders P a ts = length (filter (holds P a) ts)"

definition lock_agrees :: "node_heap \<Rightarrow> (phase \<times> socket) list \<Rightarrow> nat \<Rightarrow> bool" where
  "lock_agrees h ts a \<longleftrightarrow>
     (case h ! a of
        None \<Rightarrow> False
      | Some n \<Rightarrow>
          holders writes a ts = (if writer (lock n) then 1 else 0) \<and>
          holders reads a ts = readers (lock n) \<and> (writer (lock n) \<longrightarrow> readers (lock n) = 0))"

fun phase_ok :: "(string \<Rightarrow> nat option) \<Rightarrow> phase \<Rightarrow> bool" where
  "phase_ok tab (Got r) \<longleftrightarrow> remote_path r \<noteq> ''''"
| "phase_ok tab (Waiting r a) \<longleftrightarrow> tab (remote_path r) = Some a"
| "phase_ok tab (Holding r a) \<longleftrightarrow> tab (remote_path r) = Some a \<and> (writes r \<or> reads r)"
| "phase_ok tab (Ran r a) \<longleftrightarrow> tab (remote_path r) = Some a \<and> (writes r \<or> reads r)"
| "phase_ok tab _ \<longleftrightarrow> True"

definition sys_inv :: "system \<Rightarrow> bool" where
  "sys_inv sys \<longleftrightarrow>
     locks_inv (sys_locks sys) \<and>
     (\<forall>t \<in> set (threads sys). phase_ok (locks_table (sys_locks sys)) (fst t)) \<and>
     (\<forall>a \<in> set (addresses (sys_locks sys)). lock_agrees (snd (sys_locks sys)) (threads sys) a)"

lemma holdsD: "holds P a t \<Longrightarrow> \<exists>r. (fst t = Holding r a \<or> fst t = Ran r a) \<and> P r"
  by (cases "(P, a, t)" rule: holds.cases) auto

lemma writes_not_reads: "writes r \<Longrightarrow> \<not> reads r"
  by (auto simp: writes_def reads_def)

lemma sys_inv_thread:
  "sys_inv sys \<Longrightarrow> i < length (threads sys) \<Longrightarrow> threads sys ! i = (p, s) \<Longrightarrow>
   phase_ok (locks_table (sys_locks sys)) p"
  by (metis fst_conv nth_mem sys_inv_def)

lemma table_address: "locks_inv s \<Longrightarrow> locks_table s f = Some a \<Longrightarrow> a \<in> set (addresses s)"
  by (auto simp: ran_locks_table [symmetric] ran_def)

lemma address_node: "locks_inv s \<Longrightarrow> a \<in> set (addresses s) \<Longrightarrow> a < length (snd s) \<and> snd s ! a \<noteq> None"
  using chain_addr by (auto simp: locks_inv_def list_inv_def shape_def)

lemma holders_update:
  "i < length ts \<Longrightarrow>
   holders P a (ts[i := t]) + (if holds P a (ts ! i) then 1 else 0) =
   holders P a ts + (if holds P a t then 1 else 0)"
  unfolding holders_def by (rule length_filter_update)

lemma holders_same:
  "i < length ts \<Longrightarrow> holds P a (ts ! i) = holds P a t \<Longrightarrow> holders P a (ts[i := t]) = holders P a ts"
  using holders_update [of i ts P a t] by (auto split: if_splits)

lemma lock_agrees_same:
  assumes "i < length ts" and "\<And>P. holds P a (ts ! i) = holds P a t"
  shows "lock_agrees h (ts[i := t]) a = lock_agrees h ts a"
proof -
  have "holders P a (ts[i := t]) = holders P a ts" for P
    using assms by (rule holders_same)
  then show ?thesis by (cases "h ! a") (simp_all add: lock_agrees_def)
qed

lemma lock_agrees_heap:
  assumes "map_option lock (h' ! a) = map_option lock (h ! a)"
  shows "lock_agrees h' ts a = lock_agrees h ts a"
proof (cases "h ! a")
  case None
  with assms show ?thesis by (simp add: lock_agrees_def)
next
  case (Some n)
  with assms obtain m where "h' ! a = Some m" and "lock m = lock n" by auto
  with Some show ?thesis by (simp add: lock_agrees_def)
qed

lemma phases_update:
  assumes "\<forall>t \<in> set ts. phase_ok tab (fst t)" and "phase_ok tab (fst t)"
  shows "\<forall>t \<in> set (ts[i := t]). phase_ok tab (fst t)"
  using assms by (auto dest: set_update_subset_insert [THEN subsetD])

text \<open>A thread moves on without a lock being taken or given back.\<close>

lemma sys_inv_move:
  assumes "sys_inv sys" and "i < length (threads sys)"
    and "\<And>P a. holds P a (threads sys ! i) = holds P a (p, s)"
    and "phase_ok (locks_table (sys_locks sys)) p"
  shows "sys_inv (sys\<lparr>sys_files := fs, threads := (threads sys)[i := (p, s)]\<rparr>)"
  using assms(1,4) lock_agrees_same [OF assms(2,3)] phases_update [of "threads sys" _ "(p, s)" i]
  by (simp add: sys_inv_def)

text \<open>A thread takes or gives back the lock of node \<open>a\<close>.\<close>

lemma sys_inv_lock:
  assumes inv: "sys_inv sys" and i: "i < length (threads sys)"
    and a: "a \<in> set (addresses (sys_locks sys))"
    and node: "snd (sys_locks sys) ! a = Some nd"
    and h': "h' = (snd (sys_locks sys))[a := Some (nd\<lparr>lock := x\<rparr>)]"
    and other: "\<And>P b. b \<noteq> a \<Longrightarrow> holds P b (threads sys ! i) = holds P b (p, s)"
    and agrees: "lock_agrees h' ((threads sys)[i := (p, s)]) a"
    and phase: "phase_ok (locks_table (sys_locks sys)) p"
  shows "sys_inv (sys\<lparr>sys_locks := (fst (sys_locks sys), h'), threads := (threads sys)[i := (p, s)]\<rparr>)"
proof -
  obtain l h where lh: "sys_locks sys = (l, h)" by force
  have same: "same_nodes h h'" using same_nodes_update [of h a nd x] node h' by (simp add: lh)
  have linv: "locks_inv (l, h)" using inv by (simp add: sys_inv_def lh)
  note keep = locks_same_nodes [OF linv same]
  have "lock_agrees h' ((threads sys)[i := (p, s)]) b" if b: "b \<in> set (addresses (l, h))" for b
  proof (cases "b = a")
    case False
    then have "lock_agrees h' ((threads sys)[i := (p, s)]) b = lock_agrees h (threads sys) b"
      using lock_agrees_same [OF i other] lock_agrees_heap [of h' b h] by (simp add: h' lh)
    with b inv show ?thesis by (simp add: sys_inv_def lh)
  qed (simp add: agrees)
  with keep inv phase phases_update [of "threads sys" _ "(p, s)" i] show ?thesis
    by (simp add: sys_inv_def lh)
qed

lemma sys_inv_find:
  assumes inv: "sys_inv sys" and i: "i < length (threads sys)" and got: "threads sys ! i = (Got r, s)"
    and get: "get_lock (remote_path r) (sys_locks sys) = Inr (a, locks')"
  shows "sys_inv (sys\<lparr>sys_locks := locks', threads := (threads sys)[i := (Waiting r a, s)]\<rparr>)"
proof -
  let ?tab = "locks_table (sys_locks sys)"
  have linv: "locks_inv (sys_locks sys)" using inv by (simp add: sys_inv_def)
  have path: "remote_path r \<noteq> ''''" using sys_inv_thread [OF inv i got] by simp
  from get_lock_table [OF linv path] get have linv': "locks_inv locks'"
    and tab: "locks_table locks' = ?tab(remote_path r \<mapsto> a)"
    and cs: "?tab (remote_path r) = Some a \<or> ?tab (remote_path r) = None \<and> a \<notin> ran ?tab"
    and old: "\<forall>b \<in> set (addresses (sys_locks sys)).
      map_option lock (snd locks' ! b) = map_option lock (snd (sys_locks sys) ! b)"
    and new: "?tab (remote_path r) = None \<Longrightarrow> map_option lock (snd locks' ! a) = Some rwlock_init"
    by auto
  have ok: "phase_ok (locks_table locks') p" if "phase_ok ?tab p" for p
    using that cs unfolding tab by (cases p) (auto simp: ran_def)
  have phases: "\<forall>t \<in> set ((threads sys)[i := (Waiting r a, s)]). phase_ok (locks_table locks') (fst t)"
    using inv ok by (intro phases_update) (auto simp: sys_inv_def tab)
  have agrees: "lock_agrees (snd locks') ((threads sys)[i := (Waiting r a, s)]) b"
    if b: "b \<in> set (addresses locks')" for b
  proof (cases "b \<in> set (addresses (sys_locks sys))")
    case True
    then have "lock_agrees (snd (sys_locks sys)) (threads sys) b" using inv by (simp add: sys_inv_def)
    with old True lock_agrees_heap [of "snd locks'" b "snd (sys_locks sys)"]
      lock_agrees_same [OF i, of b "(Waiting r a, s)"] got
    show ?thesis by simp
  next
    case False
    with b have "b = a" and fresh: "?tab (remote_path r) = None"
      using cs unfolding ran_locks_table [OF linv', symmetric] ran_locks_table [OF linv, symmetric] tab
      by (auto simp: ran_def split: if_splits)
    have none: "\<not> holds P b t" if "t \<in> set (threads sys)" for P t
    proof
      assume "holds P b t"
      then obtain r' where "fst t = Holding r' b \<or> fst t = Ran r' b" using holdsD by blast
      moreover have "phase_ok ?tab (fst t)" using inv that by (simp add: sys_inv_def)
      ultimately have "?tab (remote_path r') = Some b" by auto
      then show False using table_address [OF linv] False by blast
    qed
    then have "holders P b ((threads sys)[i := (Waiting r a, s)]) = 0" for P
      using i got by (simp add: holders_same) (simp add: holders_def filter_empty_conv)
    with new [OF fresh] \<open>b = a\<close> show ?thesis
      by (auto simp: lock_agrees_def rwlock_init_def split: option.splits)
  qed
  show ?thesis using linv' phases agrees by (simp add: sys_inv_def)
qed

section \<open>Every step keeps the invariant\<close>

inductive_cases stepE: "step n sys sys'"

lemma wrlockE:
  assumes "rwlock_wrlock a h = Inr h'"
  obtains nd where "h ! a = Some nd" and "readers (lock nd) = 0" and "\<not> writer (lock nd)"
    and "h' = h[a := Some (nd\<lparr>lock := (lock nd)\<lparr>writer := True\<rparr>\<rparr>)]" and "a < length h"
  using assms by (auto simp: rwlock_wrlock_def andThen_eq_Inr_conv deref_Inr split: if_splits)

lemma rdlockE:
  assumes "rwlock_rdlock a h = Inr h'"
  obtains nd where "h ! a = Some nd" and "\<not> writer (lock nd)"
    and "h' = h[a := Some (nd\<lparr>lock := (lock nd)\<lparr>readers := readers (lock nd) + 1\<rparr>\<rparr>)]" and "a < length h"
  using assms by (auto simp: rwlock_rdlock_def andThen_eq_Inr_conv deref_Inr split: if_splits)

lemma unlockE:
  assumes "rwlock_unlock a h = Inr h'"
  obtains nd where "h ! a = Some nd" and "a < length h" and "writer (lock nd)"
      and "h' = h[a := Some (nd\<lparr>lock := (lock nd)\<lparr>writer := False\<rparr>\<rparr>)]"
  | nd where "h ! a = Some nd" and "a < length h" and "\<not> writer (lock nd)" and "0 < readers (lock nd)"
      and "h' = h[a := Some (nd\<lparr>lock := (lock nd)\<lparr>readers := readers (lock nd) - 1\<rparr>\<rparr>)]"
proof -
  from assms obtain nd where nd: "h ! a = Some nd" "a < length h"
    by (auto simp: rwlock_unlock_def andThen_eq_Inr_conv deref_Inr)
  then have "deref h (Some a) = Inr (a, nd)" by (simp add: deref_Inr)
  with assms nd that show thesis
    by (cases "writer (lock nd)") (auto simp: rwlock_unlock_def split: if_splits)
qed

lemma take_write_lock:
  assumes inv: "sys_inv sys" and i: "i < length (threads sys)" and at: "threads sys ! i = (Waiting r a, s)"
    and w: "writes r" and lock: "rwlock_wrlock a (snd (sys_locks sys)) = Inr h'"
  shows "sys_inv (sys\<lparr>sys_locks := (fst (sys_locks sys), h'), threads := (threads sys)[i := (Holding r a, s)]\<rparr>)"
proof -
  have linv: "locks_inv (sys_locks sys)" using inv by (simp add: sys_inv_def)
  have tab: "locks_table (sys_locks sys) (remote_path r) = Some a" using sys_inv_thread [OF inv i at] by simp
  note addr = table_address [OF linv tab]
  from lock obtain nd where nd: "snd (sys_locks sys) ! a = Some nd" "readers (lock nd) = 0"
    "\<not> writer (lock nd)" "a < length (snd (sys_locks sys))"
    and h': "h' = (snd (sys_locks sys))[a := Some (nd\<lparr>lock := (lock nd)\<lparr>writer := True\<rparr>\<rparr>)]"
    by (rule wrlockE)
  have "lock_agrees (snd (sys_locks sys)) (threads sys) a" using inv addr by (simp add: sys_inv_def)
  then have "lock_agrees h' ((threads sys)[i := (Holding r a, s)]) a"
    using nd h' at w writes_not_reads [OF w] holders_update [OF i, of writes a "(Holding r a, s)"]
      holders_same [OF i, of reads a "(Holding r a, s)"]
    by (simp add: lock_agrees_def)
  then show ?thesis
    using tab w by (intro sys_inv_lock [OF inv i addr nd(1) h']) (simp_all add: at)
qed

lemma take_read_lock:
  assumes inv: "sys_inv sys" and i: "i < length (threads sys)" and at: "threads sys ! i = (Waiting r a, s)"
    and r: "reads r" and lock: "rwlock_rdlock a (snd (sys_locks sys)) = Inr h'"
  shows "sys_inv (sys\<lparr>sys_locks := (fst (sys_locks sys), h'), threads := (threads sys)[i := (Holding r a, s)]\<rparr>)"
proof -
  have linv: "locks_inv (sys_locks sys)" using inv by (simp add: sys_inv_def)
  have tab: "locks_table (sys_locks sys) (remote_path r) = Some a" using sys_inv_thread [OF inv i at] by simp
  note addr = table_address [OF linv tab]
  from lock obtain nd where nd: "snd (sys_locks sys) ! a = Some nd" "\<not> writer (lock nd)"
    "a < length (snd (sys_locks sys))"
    and h': "h' = (snd (sys_locks sys))[a := Some (nd\<lparr>lock := (lock nd)\<lparr>readers := readers (lock nd) + 1\<rparr>\<rparr>)]"
    by (rule rdlockE)
  have "lock_agrees (snd (sys_locks sys)) (threads sys) a" using inv addr by (simp add: sys_inv_def)
  moreover have "\<not> writes r" using r writes_not_reads by blast
  ultimately have "lock_agrees h' ((threads sys)[i := (Holding r a, s)]) a"
    using nd h' at r holders_update [OF i, of reads a "(Holding r a, s)"]
      holders_same [OF i, of writes a "(Holding r a, s)"]
    by (simp add: lock_agrees_def)
  then show ?thesis
    using tab r by (intro sys_inv_lock [OF inv i addr nd(1) h']) (simp_all add: at)
qed

lemma give_lock_back:
  assumes inv: "sys_inv sys" and i: "i < length (threads sys)" and at: "threads sys ! i = (Ran r a, s)"
    and lock: "rwlock_unlock a (snd (sys_locks sys)) = Inr h'"
  shows "sys_inv (sys\<lparr>sys_locks := (fst (sys_locks sys), h'), threads := (threads sys)[i := (Ended, s')]\<rparr>)"
proof -
  have linv: "locks_inv (sys_locks sys)" using inv by (simp add: sys_inv_def)
  have tab: "locks_table (sys_locks sys) (remote_path r) = Some a" and r: "writes r \<or> reads r"
    using sys_inv_thread [OF inv i at] by simp_all
  note addr = table_address [OF linv tab]
  have agree: "lock_agrees (snd (sys_locks sys)) (threads sys) a" using inv addr by (simp add: sys_inv_def)
  note count = holders_update [OF i, of writes a "(Ended, s')"] holders_update [OF i, of reads a "(Ended, s')"]
  from lock show ?thesis
  proof (cases rule: unlockE)
    case (1 nd)
    then have "holders writes a (threads sys) = 1" "holders reads a (threads sys) = 0"
      using agree by (simp_all add: lock_agrees_def)
    with count at r writes_not_reads have "lock_agrees h' ((threads sys)[i := (Ended, s')]) a"
      using 1 agree by (auto simp: lock_agrees_def split: if_splits)
    then show ?thesis
      by (intro sys_inv_lock [OF inv i addr 1(1,4)]) (simp_all add: at)
  next
    case (2 nd)
    then have "holders writes a (threads sys) = 0" using agree by (simp add: lock_agrees_def)
    with count at r writes_not_reads have "lock_agrees h' ((threads sys)[i := (Ended, s')]) a"
      using 2 agree by (auto simp: lock_agrees_def split: if_splits)
    then show ?thesis
      by (intro sys_inv_lock [OF inv i addr 2(1,5)]) (simp_all add: at)
  qed
qed

lemma sys_inv_accept: "sys_inv sys \<Longrightarrow> sys_inv (sys\<lparr>threads := threads sys @ [(Receiving, s)]\<rparr>)"
proof -
  assume inv: "sys_inv sys"
  have "holders P a (threads sys @ [(Receiving, s)]) = holders P a (threads sys)" for P a
    by (simp add: holders_def)
  then have "lock_agrees h (threads sys @ [(Receiving, s)]) a = lock_agrees h (threads sys) a" for h a
    by (cases "h ! a") (simp_all add: lock_agrees_def)
  with inv show ?thesis by (simp add: sys_inv_def)
qed

lemma sys_inv_step:
  assumes "sys_inv sys" and "step n sys sys'"
  shows "sys_inv sys'"
  using assms(2)
proof (cases rule: step.cases)
  case (accept s)
  with assms(1) sys_inv_accept show ?thesis by simp
next
  case (tick t)
  with assms(1) show ?thesis by (simp add: sys_inv_def)
next
  case (receive i s r s')
  then show ?thesis
    using sys_inv_move [OF assms(1) receive(2), of "Got r" s' "sys_files sys"] receiveRequest_path
    by simp
next
  case (receive_bad i s s' w)
  then show ?thesis
    using sys_inv_move [OF assms(1) receive_bad(2), of Ended _ "sys_files sys"] by simp
next
  case (find_lock i r s a locks')
  with assms(1) show ?thesis using sys_inv_find by simp
next
  case (write_lock i r a s h')
  with assms(1) show ?thesis using take_write_lock by simp
next
  case (read_lock i r a s h')
  with assms(1) show ?thesis using take_read_lock by (simp add: reads_def)
next
  case (no_lock i r a s w)
  then show ?thesis
    using sys_inv_move [OF assms(1) no_lock(2), of Ended _ "sys_files sys"] by simp
next
  case (handle i r a s w)
  then show ?thesis
    using sys_inv_move [OF assms(1) handle(2), of "Ran r a" _ "files w"] sys_inv_thread [OF assms(1) handle(2,3)]
    by simp
next
  case (unlock i r a s h')
  with assms(1) show ?thesis using give_lock_back by simp
qed

lemma sys_inv_boot: "sys_inv (boot fs t)"
  by (simp add: sys_inv_def boot_def locks_inv_create)

lemma sys_inv_reachable: "reachable n sys \<Longrightarrow> sys_inv sys"
proof -
  assume "reachable n sys"
  then obtain fs t where "(step n)\<^sup>*\<^sup>* (boot fs t) sys" by (auto simp: reachable_def)
  then show ?thesis
    by (induction rule: rtranclp_induct) (auto simp: sys_inv_boot intro: sys_inv_step)
qed

section \<open>What the locks guarantee\<close>

fun inside :: "phase \<Rightarrow> request_t option" where
  \<comment> \<open>the request of a thread between taking its lock and giving it back\<close>
  "inside (Holding r a) = Some r"
| "inside (Ran r a) = Some r"
| "inside _ = None"

lemma holders_positive: "i < length ts \<Longrightarrow> holds P a (ts ! i) \<Longrightarrow> 0 < holders P a ts"
  by (auto simp: holders_def length_greater_0_conv filter_empty_conv intro: nth_mem)

lemma holders_two:
  assumes "i < length ts" and "j < length ts" and "i \<noteq> j" and "holds P a (ts ! i)" and "holds P a (ts ! j)"
  shows "2 \<le> holders P a ts"
proof -
  let ?ts = "ts[i := (Ended, snd (ts ! i))]"
  have "holders P a ?ts + 1 = holders P a ts"
    using holders_update [OF assms(1), of P a "(Ended, snd (ts ! i))"] assms(4) by simp
  moreover have "0 < holders P a ?ts"
    using holders_positive [of j ?ts P a] assms by simp
  ultimately show ?thesis by linarith
qed

lemma inside_exclusive:
  assumes inv: "sys_inv sys" and "i < length (threads sys)" and "j < length (threads sys)" and "i \<noteq> j"
    and "inside (fst (threads sys ! i)) = Some r" and "inside (fst (threads sys ! j)) = Some r'"
    and "remote_path r = remote_path r'"
  shows "command r = GET \<and> command r' = GET"
proof -
  have linv: "locks_inv (sys_locks sys)" using inv by (simp add: sys_inv_def)
  have ph: "inside p = Some q \<Longrightarrow> (\<exists>a. p = Holding q a \<or> p = Ran q a)" for p q
    by (cases p) auto
  obtain a s b s' where ti: "threads sys ! i = (Holding r a, s) \<or> threads sys ! i = (Ran r a, s)"
    and tj: "threads sys ! j = (Holding r' b, s') \<or> threads sys ! j = (Ran r' b, s')"
    using ph [OF assms(5)] ph [OF assms(6)] by (metis prod.collapse)
  have tab: "locks_table (sys_locks sys) (remote_path r) = Some a" "writes r \<or> reads r"
    using ti sys_inv_thread [OF inv assms(2)] by auto
  have tab': "locks_table (sys_locks sys) (remote_path r') = Some b" "writes r' \<or> reads r'"
    using tj sys_inv_thread [OF inv assms(3)] by auto
  from tab tab' assms(7) have "b = a" by simp
  have agree: "lock_agrees (snd (sys_locks sys)) (threads sys) a"
    using inv table_address [OF linv tab(1)] by (simp add: sys_inv_def)
  have hold: "holds P a (threads sys ! i) = P r" "holds P a (threads sys ! j) = P r'" for P
    using ti tj \<open>b = a\<close> by auto
  have two: "holders writes a (threads sys) \<le> 1"
    and none: "0 < holders writes a (threads sys) \<Longrightarrow> holders reads a (threads sys) = 0"
    using agree by (auto simp: lock_agrees_def split: option.splits if_splits)
  have "\<not> writes r \<and> \<not> writes r'"
    using holders_two [OF assms(2-4), of writes a] two none hold tab(2) tab'(2)
      holders_positive [OF assms(2), of writes a] holders_positive [OF assms(3), of writes a]
      holders_positive [OF assms(2), of reads a] holders_positive [OF assms(3), of reads a]
    by (metis Suc_1 not_less_eq_eq less_irrefl)
  with tab(2) tab'(2) show ?thesis by (simp add: reads_def)
qed

text \<open>
  C14. Mutual exclusion: in every reachable state, two different threads that are inside their
  handlers with the same path are both serving \<open>GET\<close>.
\<close>

theorem workers_exclusion:
  assumes "reachable n sys" and "i < length (threads sys)" and "j < length (threads sys)" and "i \<noteq> j"
    and "inside (fst (threads sys ! i)) = Some r" and "inside (fst (threads sys ! j)) = Some r'"
    and "remote_path r = remote_path r'"
  shows "command r = GET \<and> command r' = GET"
  by (rule inside_exclusive [OF sys_inv_reachable [OF assms(1)] assms(2-7)])

text \<open>
  C15. No deadlock: in every reachable state in which a thread waits for its lock, some thread
  can go on: either the lock can be taken, or a thread has run its handler and can give its lock back, or a
  thread is inside its handler.
\<close>

theorem workers_no_deadlock:
  assumes "reachable n sys" and "i < length (threads sys)" and "threads sys ! i = (Waiting r a, s)"
    and "writes r \<or> command r = GET"
  shows "(\<exists>h'. rwlock_wrlock a (snd (sys_locks sys)) = Inr h' \<and> writes r \<or>
               rwlock_rdlock a (snd (sys_locks sys)) = Inr h' \<and> command r = GET) \<or>
         (\<exists>j < length (threads sys). \<exists>q s'.
            threads sys ! j = (Ran q a, s') \<and> (\<exists>h'. rwlock_unlock a (snd (sys_locks sys)) = Inr h') \<or>
            threads sys ! j = (Holding q a, s'))"
proof -
  note inv = sys_inv_reachable [OF assms(1)]
  have linv: "locks_inv (sys_locks sys)" using inv by (simp add: sys_inv_def)
  have tab: "locks_table (sys_locks sys) (remote_path r) = Some a"
    using sys_inv_thread [OF inv assms(2,3)] by simp
  note addr = table_address [OF linv tab]
  from address_node [OF linv addr] obtain nd where nd: "a < length (snd (sys_locks sys))"
    "snd (sys_locks sys) ! a = Some nd" by auto
  have agree: "lock_agrees (snd (sys_locks sys)) (threads sys) a" using inv addr by (simp add: sys_inv_def)
  show ?thesis
  proof (cases "readers (lock nd) = 0 \<and> \<not> writer (lock nd)")
    case True
    with nd assms(4) show ?thesis by (auto simp: rwlock_wrlock_def rwlock_rdlock_def deref_def)
  next
    case False
    with agree nd have "0 < holders writes a (threads sys) \<or> 0 < holders reads a (threads sys)"
      by (auto simp: lock_agrees_def)
    then obtain P t where "t \<in> set (threads sys)" "holds P a t"
      by (auto simp: holders_def length_greater_0_conv filter_empty_conv)
    then obtain j q where "j < length (threads sys)" "fst (threads sys ! j) = Holding q a \<or> fst (threads sys ! j) = Ran q a"
      using holdsD by (metis in_set_conv_nth)
    moreover have "\<exists>h'. rwlock_unlock a (snd (sys_locks sys)) = Inr h'"
      using False nd by (auto simp: rwlock_unlock_def deref_def)
    ultimately show ?thesis by (metis prod.collapse)
  qed
qed

section \<open>One thread by itself\<close>

lemma respond_files: "respond ok msg w = Inr w' \<Longrightarrow> files w' = files w"
  by (auto simp: respond_def andThen_eq_Inr_conv)

lemma threadClientHandler_request:
  \<comment> \<open>the handler of a thread in terms of \<open>run_handler\<close>\<close>
  assumes "receiveRequest (conn (server_world srv)) = Inr (Some r, s1)"
    and "file_lock_manager srv = Some l" and "get_lock (remote_path r) (l, lock_heap srv) = Inr (a, l', h)"
    and "threadClientHandler n srv = Inr srv'"
  shows "\<exists>w'. run_handler n r ((server_world srv)\<lparr>conn := s1\<rparr>) = Inr w' \<and>
    srv' = \<lparr>server_world = finish w', file_lock_manager = Some l', lock_heap = h\<rparr> \<and>
    (writes r \<longrightarrow> (\<exists>h1. rwlock_wrlock a h = Inr h1 \<and> rwlock_unlock a h1 = Inr h)) \<and>
    (command r = GET \<longrightarrow> (\<exists>h1. rwlock_rdlock a h = Inr h1 \<and> rwlock_unlock a h1 = Inr h))"
proof -
  from assms(3) have "getLockFor (Some (remote_path r)) (Some l) (lock_heap srv) = Inr (Some a, Some l', h)"
    by (auto simp: get_lock_def andThen_eq_Inr_conv split: option.splits)
  with assms(1,2,4) show ?thesis
    by (cases "command r")
      (auto simp: threadClientHandler_def Let_def andThen_eq_Inr_conv run_handler_def writes_def
        dest: wrlock_unlock rdlock_unlock)
qed

lemma waiting_serial:
  \<comment> \<open>a thread that has found its lock, up to its end\<close>
  assumes at: "i < length (threads sys)" "threads sys ! i = (Waiting r a, s1)" and h: "sys_locks sys = (l', h)"
    and run: "run_handler n r (sys_world sys s1) = Inr w'"
    and wr: "writes r \<Longrightarrow> \<exists>h1. rwlock_wrlock a h = Inr h1 \<and> rwlock_unlock a h1 = Inr h"
    and rd: "command r = GET \<Longrightarrow> \<exists>h1. rwlock_rdlock a h = Inr h1 \<and> rwlock_unlock a h1 = Inr h"
  shows "(step n)\<^sup>*\<^sup>* sys
    (sys\<lparr>sys_files := files w', threads := (threads sys)[i := (Ended, close_socket (conn w'))]\<rparr>)"
proof (cases "writes r \<or> command r = GET")
  case False
  have "files w' = sys_files sys"
    using run False respond_files by (cases "command r") (auto simp: run_handler_def writes_def sys_world_def)
  with no_lock [of i sys r a s1 n w'] False run at show ?thesis by (simp add: r_into_rtranclp)
next
  case True
  then obtain h1 where un: "rwlock_unlock a h1 = Inr h"
    and lk: "writes r \<and> rwlock_wrlock a h = Inr h1 \<or> command r = GET \<and> rwlock_rdlock a h = Inr h1"
    using wr rd by blast
  let ?hold = "sys\<lparr>sys_locks := (l', h1), threads := (threads sys)[i := (Holding r a, s1)]\<rparr>"
  let ?ran = "sys\<lparr>sys_locks := (l', h1), sys_files := files w', threads := (threads sys)[i := (Ran r a, conn w')]\<rparr>"
  let ?last = "sys\<lparr>sys_files := files w', sys_locks := (l', h), threads := (threads sys)[i := (Ended, close_socket (conn w'))]\<rparr>"
  have "step n sys ?hold"
    using lk write_lock [of i sys r a s1 h1 n] read_lock [of i sys r a s1 h1 n] at h by auto
  moreover have "step n ?hold ?ran"
    using handle [of i ?hold r a s1 n w'] run at by (simp add: sys_world_def)
  moreover have "step n ?ran ?last"
    using unlock [of i ?ran r a "conn w'" h n] un at by simp
  ultimately have "(step n)\<^sup>*\<^sup>* sys ?last" by (meson converse_rtranclp_into_rtranclp r_into_rtranclp)
  moreover have "?last = sys\<lparr>sys_files := files w', threads := (threads sys)[i := (Ended, close_socket (conn w'))]\<rparr>"
    using h by simp
  ultimately show ?thesis by simp
qed

text \<open>
  C16. The step relation contains what one thread does by itself: a run of
  \<open>threadClientHandler\<close> that ends is a sequence of steps of its thread, from the point where
  it receives to its end, with the same files, the same lock list and the same bytes on its socket.
\<close>

theorem thread_serial:
  assumes "threadClientHandler n srv = Inr srv'" and "file_lock_manager srv = Some l"
    and "locks_inv (l, lock_heap srv)"
    and "sys_files sys = files (server_world srv)" and "sys_clock sys = clock (server_world srv)"
    and "sys_locks sys = (l, lock_heap srv)"
    and "i < length (threads sys)" and "threads sys ! i = (Receiving, conn (server_world srv))"
  shows "\<exists>sys' l'. (step n)\<^sup>*\<^sup>* sys sys' \<and> sys_files sys' = files (server_world srv') \<and>
    file_lock_manager srv' = Some l' \<and> sys_locks sys' = (l', lock_heap srv') \<and>
    threads sys' = (threads sys)[i := (Ended, conn (server_world srv'))]"
proof -
  from assms(1) obtain req s1 where req: "receiveRequest (conn (server_world srv)) = Inr (req, s1)"
    by (auto simp: threadClientHandler_def andThen_eq_Inr_conv)
  let ?w = "(server_world srv)\<lparr>conn := s1\<rparr>"
  have w: "sys_world sys s1 = ?w" using assms(4,5) by (simp add: sys_world_def)
  show ?thesis
  proof (cases req)
    case None
    with req assms(1) obtain w' where w': "respond False ''unable to receive request'' ?w = Inr w'"
      and srv': "srv' = srv\<lparr>server_world := finish w'\<rparr>"
      by (auto simp: threadClientHandler_def andThen_eq_Inr_conv)
    let ?sys = "sys\<lparr>threads := (threads sys)[i := (Ended, close_socket (conn w'))]\<rparr>"
    have "step n sys ?sys"
      using receive_bad [OF assms(7,8) req [unfolded None]] w w' by simp
    then show ?thesis
      using srv' assms(2,4,6) respond_files [OF w']
      by (intro exI [of _ ?sys] exI [of _ l]) (simp add: finish_def)
  next
    case (Some r)
    note req' = req [unfolded Some]
    note path = receiveRequest_path(1) [OF req']
    from get_lock_table [OF assms(3) path] obtain a l' h where
      get: "get_lock (remote_path r) (l, lock_heap srv) = Inr (a, l', h)" by auto
    from threadClientHandler_request [OF req' assms(2) get assms(1)] obtain w' where
      run: "run_handler n r ?w = Inr w'"
      and srv': "srv' = \<lparr>server_world = finish w', file_lock_manager = Some l', lock_heap = h\<rparr>"
      and wr: "writes r \<Longrightarrow> \<exists>h1. rwlock_wrlock a h = Inr h1 \<and> rwlock_unlock a h1 = Inr h"
      and rd: "command r = GET \<Longrightarrow> \<exists>h1. rwlock_rdlock a h = Inr h1 \<and> rwlock_unlock a h1 = Inr h"
      by blast
    let ?at = "\<lambda>p lk s. sys\<lparr>sys_locks := lk, threads := (threads sys)[i := (p, s)]\<rparr>"
    let ?sys = "sys\<lparr>sys_locks := (l', h), sys_files := files w', threads := (threads sys)[i := (Ended, close_socket (conn w'))]\<rparr>"
    have "step n sys (?at (Got r) (sys_locks sys) s1)"
      using receive [OF assms(7,8) req'] by simp
    moreover have "step n (?at (Got r) (sys_locks sys) s1) (?at (Waiting r a) (l', h) s1)"
      using find_lock [of i "?at (Got r) (sys_locks sys) s1" r s1 a "(l', h)" n] get assms(6,7) by simp
    moreover have "(step n)\<^sup>*\<^sup>* (?at (Waiting r a) (l', h) s1) ?sys"
      using waiting_serial [of i "?at (Waiting r a) (l', h) s1" r a s1 l' h n w'] run wr rd w assms(7)
      by (simp add: sys_world_def)
    ultimately have "(step n)\<^sup>*\<^sup>* sys ?sys" by (meson converse_rtranclp_into_rtranclp)
    then show ?thesis using srv' by (intro exI [of _ ?sys] exI [of _ l']) (simp add: finish_def)
  qed
qed

text \<open>On a server without other threads a request gets its lock, and the handler decides.\<close>

lemma free_locks:
  assumes "a < length h" and "map_option lock (h ! a) = Some rwlock_init"
  shows "\<exists>h1. rwlock_wrlock a h = Inr h1 \<and> rwlock_unlock a h1 = Inr h"
    and "\<exists>h1. rwlock_rdlock a h = Inr h1 \<and> rwlock_unlock a h1 = Inr h"
proof -
  obtain nd where nd: "h ! a = Some nd" "lock nd = rwlock_init" using assms(2) by auto
  have same: "h[a := Some (nd\<lparr>lock := lock nd\<rparr>)] = h" using nd(1) by (simp add: list_update_same_conv assms(1))
  show "\<exists>h1. rwlock_wrlock a h = Inr h1 \<and> rwlock_unlock a h1 = Inr h"
    and "\<exists>h1. rwlock_rdlock a h = Inr h1 \<and> rwlock_unlock a h1 = Inr h"
    using same assms(1) nd
    by (auto simp: rwlock_wrlock_def rwlock_rdlock_def rwlock_unlock_def deref_def rwlock_init_def)
qed

lemma thread_run:
  assumes "server_ready srv" and "receiveRequest (conn (server_world srv)) = Inr (Some r, s1)"
    and "run_handler n r ((server_world srv)\<lparr>conn := s1\<rparr>) = Inr w'"
  shows "\<exists>srv'. threadClientHandler n srv = Inr srv' \<and> server_world srv' = finish w' \<and> server_ready srv'"
proof -
  from assms(1) obtain l where l: "file_lock_manager srv = Some l"
    and inv: "locks_inv (l, lock_heap srv)" and free: "all_free (l, lock_heap srv)"
    by (auto simp: server_ready_def split: option.splits)
  note path = receiveRequest_path(1) [OF assms(2)]
  from get_lock_table [OF inv path] obtain a l' h where
    get: "get_lock (remote_path r) (l, lock_heap srv) = Inr (a, l', h)" and inv': "locks_inv (l', h)"
    and tab: "locks_table (l', h) (remote_path r) = Some a"
    by auto
  have "all_free (l', h)" using get_lock_free [OF inv path free get] .
  then have a: "a < length h" "map_option lock (h ! a) = Some rwlock_init"
    using table_address [OF inv' tab] address_node [OF inv', of a] by (auto simp: all_free_def)
  from get have "getLockFor (Some (remote_path r)) (Some l) (lock_heap srv) = Inr (Some a, Some l', h)"
    by (auto simp: get_lock_def andThen_eq_Inr_conv split: option.splits)
  with assms(2,3) l free_locks [OF a] have
    run: "threadClientHandler n srv = Inr \<lparr>server_world = finish w', file_lock_manager = Some l', lock_heap = h\<rparr>"
    by (cases "command r") (auto simp: threadClientHandler_def run_handler_def)
  with thread_ready [OF assms(1) run] show ?thesis by auto
qed

end
