(* ===== verification/Version_History.thy ===== *)
theory Version_History
  imports Request_Handler
begin

text \<open>
  The promise of the README that the server keeps every version of a file: a series of uploads
  of one file as an abstract store with a current value and a value for each time, and the
  handler of \<open>WRITE\<close> as an implementation of it.
\<close>

section \<open>Names of versions\<close>

lemma show_nat_inject: "show_nat m = show_nat n \<Longrightarrow> m = n"
  by (metis digits_value_show_nat)

lemma show_int_inject: "show_int i = show_int j \<Longrightarrow> i = j"
proof -
  assume eq: "show_int i = show_int j"
  have "hd (show_nat n) \<noteq> CHR ''-''" for n using hd_show_nat_isdigit isdigit_not_special by blast
  then have neg: "CHR ''-'' # show_nat m \<noteq> show_nat n" "show_nat n \<noteq> CHR ''-'' # show_nat m" for m n
    by (metis list.sel(1))+
  show ?thesis
    using eq neg show_nat_inject [of "nat i" "nat j"] show_nat_inject [of "nat (- i)" "nat (- j)"]
    by (auto simp: show_int_def split: if_splits)
qed

lemma show_int_no_underscore: "CHR ''_'' \<notin> set (show_int i)"
proof -
  have "\<not> isdigit (CHR ''_'')" by (simp add: isdigit_def)
  then have "CHR ''_'' \<notin> set (show_nat n)" for n using show_nat_isdigit by blast
  then show ?thesis by (simp add: show_int_def)
qed

lemma version_name_inject [simp]: "version_name f s = version_name f t \<longleftrightarrow> s = t"
proof
  assume "version_name f s = version_name f t"
  then have eq: "show_int (fst s) @ CHR ''_'' # show_int (snd s) = show_int (fst t) @ CHR ''_'' # show_int (snd t)"
    by (simp add: version_name_def)
  have "takeWhile (\<lambda>c. c \<noteq> CHR ''_'') (show_int i @ CHR ''_'' # r) = show_int i" for i r
    using show_int_no_underscore by (intro takeWhile_append_stop) auto
  with eq have "show_int (fst s) = show_int (fst t)" by metis
  moreover from this eq have "show_int (snd s) = show_int (snd t)" by simp
  ultimately show "s = t" using show_int_inject by (simp add: prod_eq_iff)
qed simp

section \<open>A store with versions\<close>

fun write_all :: "('t \<Rightarrow> 'b \<Rightarrow> 's \<Rightarrow> 's option) \<Rightarrow> ('t \<times> 'b) list \<Rightarrow> 's \<Rightarrow> 's option" where
  "write_all store [] s = Some s"
| "write_all store ((t, b) # ws) s =
     (case store t b s of None \<Rightarrow> None | Some s' \<Rightarrow> write_all store ws s')"

locale version_store =
  fixes store :: "'t \<Rightarrow> 'b \<Rightarrow> 's \<Rightarrow> 's option"
    and current :: "'s \<Rightarrow> 'b option"
    and version :: "'s \<Rightarrow> 't \<Rightarrow> 'b option"
    and can_write :: "('t \<times> 'b) list \<Rightarrow> 's \<Rightarrow> bool"
  assumes write_step: "can_write ((t, b) # ws) s \<Longrightarrow> current s = Some old \<Longrightarrow>
    \<exists>s'. store t b s = Some s' \<and> can_write ws s' \<and> current s' = Some b \<and>
         version s' = (version s)(t \<mapsto> old)"
begin

lemma history:
  assumes "can_write ws s" and "current s = Some b" and "distinct (map fst ws)"
  shows "\<exists>s'. write_all store ws s = Some s' \<and> current s' = Some (last (b # map snd ws)) \<and>
    (\<forall>i < length ws. version s' (fst (ws ! i)) = Some ((b # map snd ws) ! i)) \<and>
    (\<forall>t. t \<notin> fst ` set ws \<longrightarrow> version s' t = version s t)"
  using assms
proof (induction ws arbitrary: s b)
  case (Cons w ws)
  obtain t c where w: "w = (t, c)" by force
  from write_step [of t c ws s b] Cons.prems obtain s1 where s1: "store t c s = Some s1" "can_write ws s1"
    "current s1 = Some c" "version s1 = (version s)(t \<mapsto> b)"
    by (auto simp: w)
  from Cons.IH [OF s1(2,3)] Cons.prems(3) obtain s2 where s2: "write_all store ws s1 = Some s2"
    "current s2 = Some (last (c # map snd ws))"
    "\<forall>i < length ws. version s2 (fst (ws ! i)) = Some ((c # map snd ws) ! i)"
    "\<forall>u. u \<notin> fst ` set ws \<longrightarrow> version s2 u = version s1 u"
    by (auto simp: w)
  have "version s2 t = Some b" using s2(4) s1(4) Cons.prems(3) by (simp add: w image_iff)
  then have "version s2 (fst ((w # ws) ! i)) = Some ((b # map snd (w # ws)) ! i)" if "i < length (w # ws)" for i
    using s2(3) that by (cases i) (simp_all add: w)
  with s1 s2 show ?case by (intro exI [of _ s2]) (simp add: w)
qed simp

end

section \<open>Uploads to the server\<close>

definition upload :: "filesys \<Rightarrow> int \<times> int \<Rightarrow> bytes \<Rightarrow> world" where
  \<comment> \<open>the world of a handler: one connection over which the bytes come\<close>
  "upload fs t b =
     \<lparr>files = fs, conn = \<lparr>inbox = [Arrive b], send_plan = [], outbox = [], is_closed = False\<rparr>, clock = t\<rparr>"

definition write_file :: "nat \<Rightarrow> string list \<Rightarrow> string \<Rightarrow> int \<times> int \<Rightarrow> bytes \<Rightarrow> filesys \<Rightarrow> filesys option" where
  \<comment> \<open>the files after an upload to \<open>ds/f\<close> that is answered with success\<close>
  "write_file n ds f t b fs =
     (case handleWriteRequest n \<lparr>command = WRITE, remote_path = join (ds @ [f]), data_len = int (length b)\<rparr>
             (upload fs t b) of
        Inl _ \<Rightarrow> None
      | Inr w \<Rightarrow> if outbox (conn w) = ''1,0,NULL'' then Some (files w) else None)"

definition file_content :: "filesys \<Rightarrow> key \<Rightarrow> bytes option" where
  "file_content fs k = (case node_at fs k of Some (File c) \<Rightarrow> Some c | _ \<Rightarrow> None)"

definition current_file :: "string list \<Rightarrow> string \<Rightarrow> filesys \<Rightarrow> bytes option" where
  "current_file ds f fs = file_content fs (cwd fs @ ds @ [f])"

definition version_file :: "string list \<Rightarrow> string \<Rightarrow> filesys \<Rightarrow> int \<times> int \<Rightarrow> bytes option" where
  "version_file ds f fs t = file_content fs (version_key fs ds (version_name f t))"

fun space_needed :: "nat \<Rightarrow> bytes list \<Rightarrow> nat" where
  "space_needed old [] = 0"
| "space_needed old (b # bs) = old + length b + space_needed (length b) bs"

definition can_upload :: "nat \<Rightarrow> string list \<Rightarrow> string \<Rightarrow> ((int \<times> int) \<times> bytes) list \<Rightarrow> filesys \<Rightarrow> bool" where
  "can_upload n ds f ws fs \<longleftrightarrow>
     wf_fs fs \<and>
     (case current_file ds f fs of
        None \<Rightarrow> False
      | Some old \<Rightarrow> length old < n * MAX_BUFF_SIZE \<and> space_needed (length old) (map snd ws) \<le> space fs) \<and>
     (\<forall>(t, b) \<in> set ws. can_receive n ds f [b] (upload fs t b) \<and> can_save n ds f (length b) (upload fs t b))"

section \<open>The handler of WRITE implements the store\<close>

lemma upload_fields [simp]:
  "files (upload fs t b) = fs" "clock (upload fs t b) = t" "inbox (conn (upload fs t b)) = [Arrive b]"
  "outbox (conn (upload fs t b)) = []"
  by (simp_all add: upload_def)

lemma file_content_eq_Some: "file_content fs k = Some c \<longleftrightarrow> node_at fs k = Some (File c)"
  by (auto simp: file_content_def split: option.splits node.splits)

lemma dir_key_prefix: "k \<in> set (dir_keys base ds) \<Longrightarrow> length k \<le> length base + length ds"
  by (auto simp: set_dir_keys)

lemma write_step_files:
  assumes "can_upload n ds f ((t, b) # ws) fs" and "current_file ds f fs = Some old"
  shows "\<exists>fs'. write_file n ds f t b fs = Some fs' \<and> wf_fs fs' \<and> same_env fs fs' \<and>
    space fs' = space fs - length old - length b \<and>
    node_at fs' = (node_at fs)(versions_key fs ds \<mapsto> Dir,
      version_key fs ds (version_name f t) \<mapsto> File old, cwd fs @ ds @ [f] \<mapsto> File b)"
proof -
  let ?w = "upload fs t b"
  let ?r = "\<lparr>command = WRITE, remote_path = join (ds @ [f]), data_len = int (length b)\<rparr>"
  have wf: "wf_fs (files ?w)" and rec: "can_receive n ds f [b] ?w" and len: "length old < n * MAX_BUFF_SIZE"
    and sp: "length old + length (concat [b]) \<le> space (files ?w)"
    using assms by (auto simp: can_upload_def)
  have save: "can_save n ds f (length old) ?w"
    using assms(1) len by (simp add: can_upload_def can_save_def Let_def)
  have node: "node_at (files ?w) (cwd (files ?w) @ ds @ [f]) = Some (File old)"
    using assms(2) by (simp add: current_file_def file_content_eq_Some)
  obtain fs' ps' where "handleWriteRequest n ?r ?w =
      Inr (?w\<lparr>files := fs', conn := (conn ?w)\<lparr>inbox := map Arrive ps' @ [], outbox := ''1,0,NULL''\<rparr>\<rparr>)"
    and "wf_fs fs'" "same_env fs fs'" "space fs' = space fs - length old - length b"
    "node_at fs' = (node_at fs)(versions_key fs ds \<mapsto> Dir,
      version_key fs ds (version_name f t) \<mapsto> File old, cwd fs @ ds @ [f] \<mapsto> File b)"
    using write_existing_fits [OF wf rec save node, of "[]" ?r] sp by auto
  then show ?thesis by (intro exI [of _ fs']) (simp add: write_file_def)
qed

lemma can_receive_after:
  assumes "can_receive n ds f ps (upload fs t b)" and "same_env fs fs'"
    and "node_at fs' = (node_at fs)(versions_key fs ds \<mapsto> Dir, version_key fs ds v \<mapsto> File old, cwd fs @ ds @ [f] \<mapsto> File c)"
  shows "can_receive n ds f ps (upload fs' t b)"
proof -
  have "k \<noteq> versions_key fs ds \<and> k \<noteq> version_key fs ds v \<and> k \<noteq> cwd fs @ ds @ [f]"
    if "k \<in> set (dir_keys (cwd fs) ds)" for k
    using dir_key_prefix [OF that] by (auto simp: versions_key_def version_key_def)
  then have "\<forall>k \<in> set (dir_keys (cwd fs) ds). node_at fs' k = node_at fs k" using assms(3) by simp
  with assms(1,2) show ?thesis
    by (simp add: can_receive_def same_env_def can_make_dirs_def upload_def)
qed

lemma can_save_after:
  assumes "can_save n ds f l (upload fs t b)" and "same_env fs fs'" and "f \<noteq> ''.versions''"
    and "node_at fs' = (node_at fs)(versions_key fs ds \<mapsto> Dir, version_key fs ds v \<mapsto> File old, cwd fs @ ds @ [f] \<mapsto> File c)"
  shows "can_save n ds f l (upload fs' t b)"
proof -
  have key: "k \<noteq> version_key fs ds v \<and> k \<noteq> cwd fs @ ds @ [f]"
    if "k \<in> set (dir_keys (cwd fs) (ds @ [''.versions'']))" for k
    using that assms(3) dir_key_prefix [of k "cwd fs" ds]
    by (auto simp: dir_keys_snoc versions_key_def version_key_def)
  have "can_make_dirs (dir_keys (cwd fs) (ds @ [''.versions''])) fs" using assms(1) by (simp add: can_save_def Let_def)
  then have "can_make_dirs (dir_keys (cwd fs) (ds @ [''.versions''])) fs'"
    using key assms(2,4) by (simp add: can_make_dirs_def same_env_def)
  moreover have "version_key fs' ds x = version_key fs ds x" for x
    using assms(2) by (simp add: version_key_def same_env_def)
  moreover have "node_at fs (version_key fs ds (version_name f t)) \<noteq> Some Dir"
    using assms(1) by (simp add: can_save_def Let_def)
  then have "node_at fs' (version_key fs ds (version_name f t)) \<noteq> Some Dir"
    using assms(4) by (simp add: versions_key_def version_key_def)
  ultimately show ?thesis
    using assms(1,2) by (simp add: can_save_def same_env_def Let_def)
qed

interpretation uploads: version_store "write_file n ds f" "current_file ds f" "version_file ds f" "can_upload n ds f"
  for n ds f
proof
  fix t b ws fs old
  assume can: "can_upload n ds f ((t, b) # ws) fs" and old: "current_file ds f fs = Some old"
  from write_step_files [OF this] obtain fs' where run: "write_file n ds f t b fs = Some fs'"
    and wf: "wf_fs fs'" and env: "same_env fs fs'" and sp: "space fs' = space fs - length old - length b"
    and node: "node_at fs' = (node_at fs)(versions_key fs ds \<mapsto> Dir,
      version_key fs ds (version_name f t) \<mapsto> File old, cwd fs @ ds @ [f] \<mapsto> File b)"
    by blast
  have cwd: "cwd fs' = cwd fs" using env by (simp add: same_env_def)
  have dot: "f \<noteq> ''.versions''"
    using can old last_dir_key [of "ds @ [''.versions'']" "cwd fs"]
    by (force simp: can_upload_def can_save_def can_make_dirs_def Let_def current_file_def file_content_eq_Some)
  have cur: "current_file ds f fs' = Some b"
    by (simp add: current_file_def file_content_eq_Some cwd node)
  have "version_file ds f fs' s = ((version_file ds f fs)(t \<mapsto> old)) s" for s
    by (simp add: version_file_def file_content_def version_key_def versions_key_def cwd node)
  then have ver: "version_file ds f fs' = (version_file ds f fs)(t \<mapsto> old)" by (rule ext)
  have "can_upload n ds f ws fs'"
    using can old wf sp cur can_receive_after [OF _ env node] can_save_after [OF _ env dot node]
    by (fastforce simp: can_upload_def can_save_def Let_def)
  with run cur ver show "\<exists>fs'. write_file n ds f t b fs = Some fs' \<and> can_upload n ds f ws fs' \<and>
      current_file ds f fs' = Some b \<and> version_file ds f fs' = (version_file ds f fs)(t \<mapsto> old)"
    by blast
qed

text \<open>
  C13. The whole history is kept: after any series of uploads of one file at different times,
  each answered with success, the file holds the last contents, and for each upload the
  version named after its time holds the contents that the file had before it; versions of other
  times are untouched.
\<close>

theorem versions_kept:
  assumes "can_upload n ds f ws fs" and "current_file ds f fs = Some b" and "distinct (map fst ws)"
  shows "\<exists>fs'. write_all (write_file n ds f) ws fs = Some fs' \<and>
    current_file ds f fs' = Some (last (b # map snd ws)) \<and>
    (\<forall>i < length ws. version_file ds f fs' (fst (ws ! i)) = Some ((b # map snd ws) ! i)) \<and>
    (\<forall>t. t \<notin> fst ` set ws \<longrightarrow> version_file ds f fs' t = version_file ds f fs t)"
  using uploads.history [OF assms] .

end
