(* ===== verification/Stored_Files.thy ===== *)
theory Stored_Files
  imports Workers Server Version_History
begin

text \<open>
  What the whole server promises, as an abstract store of files with versions, and that
  \<open>main\<close> of the server implements it for every sequence of requests.
\<close>

section \<open>Sequences of operations against a contract\<close>

fun run_acts :: "('e \<Rightarrow> 's \<Rightarrow> stop + 's \<times> 'r) \<Rightarrow> 'e list \<Rightarrow> 's \<Rightarrow> stop + 's \<times> 'r list" where
  "run_acts act [] s = Inr (s, [])"
| "run_acts act (e # es) s =
     andThen (act e s) (\<lambda>(s', r). andThen (run_acts act es s') (\<lambda>(s'', rs). Inr (s'', r # rs)))"

fun run_spec :: "('x \<Rightarrow> 'a \<Rightarrow> 'a \<times> 'r) \<Rightarrow> 'x list \<Rightarrow> 'a \<Rightarrow> 'a \<times> 'r list" where
  "run_spec sp [] a = (a, [])"
| "run_spec sp (x # xs) a = (case sp x a of (a', r) \<Rightarrow> case run_spec sp xs a' of (a'', rs) \<Rightarrow> (a'', r # rs))"

fun allowed :: "('x \<Rightarrow> 'a \<Rightarrow> bool) \<Rightarrow> ('x \<Rightarrow> 'a \<Rightarrow> 'a \<times> 'r) \<Rightarrow> 'x list \<Rightarrow> 'a \<Rightarrow> bool" where
  \<comment> \<open>each operation is allowed in the state that the ones before it leave\<close>
  "allowed can sp [] a = True"
| "allowed can sp (x # xs) a \<longleftrightarrow> can x a \<and> allowed can sp xs (fst (sp x a))"

locale simulation =
  fixes act :: "'e \<Rightarrow> 's \<Rightarrow> stop + 's \<times> 'r"
    and sp :: "'x \<Rightarrow> 'a \<Rightarrow> 'a \<times> 'r"
    and abs :: "'s \<Rightarrow> 'a"
    and good :: "'s \<Rightarrow> bool"
    and can :: "'x \<Rightarrow> 'a \<Rightarrow> bool"
    and carries :: "'x \<Rightarrow> 'e \<Rightarrow> bool"
  assumes act_spec: "good s \<Longrightarrow> can x (abs s) \<Longrightarrow> carries x e \<Longrightarrow>
    \<exists>s'. act e s = Inr (s', snd (sp x (abs s))) \<and> good s' \<and> abs s' = fst (sp x (abs s))"
begin

lemma run_simulates:
  assumes "good s" and "allowed can sp xs (abs s)" and "list_all2 carries xs es"
  shows "\<exists>s'. run_acts act es s = Inr (s', snd (run_spec sp xs (abs s))) \<and> good s' \<and>
    abs s' = fst (run_spec sp xs (abs s))"
  using assms(3,1,2)
proof (induction arbitrary: s rule: list_all2_induct)
  case (Cons x xs e es)
  from act_spec [OF Cons.prems(1) _ Cons.hyps(1)] Cons.prems(2) obtain s1 where
    s1: "act e s = Inr (s1, snd (sp x (abs s)))" "good s1" "abs s1 = fst (sp x (abs s))"
    by auto
  with Cons.IH [of s1] Cons.prems(2) show ?case by (auto simp: split_def)
qed simp

end

section \<open>What the server promises\<close>

datatype file_op = Put string bytes | Fetch string | Delete string | Listing string

record store =
  current :: "string \<Rightarrow> bytes option"
  versions :: "string \<Rightarrow> bytes option"  \<comment> \<open>by the names of the versions\<close>
  room :: nat

fun op_file :: "file_op \<Rightarrow> string" where
  "op_file (Put f b) = f"
| "op_file (Fetch f) = f"
| "op_file (Delete f) = f"
| "op_file (Listing f) = f"

fun op_bytes :: "file_op \<Rightarrow> bytes" where
  "op_bytes (Put f b) = b"
| "op_bytes _ = []"

fun op_command :: "file_op \<Rightarrow> command_type" where
  "op_command (Put f b) = WRITE"
| "op_command (Fetch f) = GET"
| "op_command (Delete f) = RM"
| "op_command (Listing f) = LS"

fun spec :: "int \<times> int \<Rightarrow> file_op \<Rightarrow> store \<Rightarrow> store \<times> bytes" where
  \<comment> \<open>the new state and the answer\<close>
  "spec t (Put f b) st =
     (case current st f of
        None \<Rightarrow> (st\<lparr>current := (current st)(f \<mapsto> b), room := room st - length b\<rparr>, ''1,0,NULL'')
      | Some old \<Rightarrow>
          (st\<lparr>current := (current st)(f \<mapsto> b), versions := (versions st)(version_name f t \<mapsto> old),
              room := room st - length old - length b\<rparr>, ''1,0,NULL''))"
| "spec t (Fetch f) st =
     (st, case current st f of
            None \<Rightarrow> ''0,0,unable to open and/or get size of the requested file''
          | Some c \<Rightarrow> ''1,'' @ show_int (int (length c)) @ '',OK'' @ c)"
| "spec t (Delete f) st =
     (case current st f of
        None \<Rightarrow> (st, ''0,0,unable to remove file'')
      | Some _ \<Rightarrow>
          (st\<lparr>current := (current st)(f := None),
              versions := (\<lambda>v. if prefix f v then None else versions st v)\<rparr>, ''1,0,OK''))"
| "spec t (Listing f) st = (st, ''0,0,optional command isn't implemented yet'')"

abbreviation spec_at :: "(int \<times> int) \<times> file_op \<Rightarrow> store \<Rightarrow> store \<times> bytes" where
  "spec_at x \<equiv> spec (fst x) (snd x)"

section \<open>The folder that implements it\<close>

definition abs_store :: "string list \<Rightarrow> filesys \<Rightarrow> store" where
  "abs_store ds fs =
     \<lparr>current = (\<lambda>f. file_content fs (cwd fs @ ds @ [f])),
      versions = (\<lambda>v. file_content fs (version_key fs ds v)), room = space fs\<rparr>"

definition folder_ok :: "string list \<Rightarrow> filesys \<Rightarrow> bool" where
  \<comment> \<open>the folder \<open>ds\<close> exists and has only regular files in it, but for the version folder, which
     has only regular files, too, with names that are not too long\<close>
  "folder_ok ds fs \<longleftrightarrow>
     wf_fs fs \<and> readonly fs = [] \<and> ds \<noteq> [] \<and> (\<forall>c \<in> set ds. plain c) \<and>
     node_at fs (cwd fs @ ds) = Some Dir \<and>
     (\<forall>f. f \<noteq> ''.versions'' \<longrightarrow> node_at fs (cwd fs @ ds @ [f]) \<noteq> Some Dir) \<and>
     (\<forall>c. node_at fs (versions_key fs ds) \<noteq> Some (File c)) \<and>
     (\<forall>v. node_at fs (version_key fs ds v) \<noteq> Some Dir) \<and>
     (\<forall>v. node_at fs (version_key fs ds v) \<noteq> None \<longrightarrow> length (join (ds @ [''.versions'', v])) < MAX_PATH_LEN)"

definition op_request :: "string list \<Rightarrow> file_op \<Rightarrow> request_t" where
  "op_request ds x =
     \<lparr>command = op_command x, remote_path = join (ds @ [op_file x]), data_len = int (length (op_bytes x))\<rparr>"

definition can_serve :: "nat \<Rightarrow> string list \<Rightarrow> int \<times> int \<Rightarrow> file_op \<Rightarrow> store \<Rightarrow> bool" where
  "can_serve n ds t x st \<longleftrightarrow>
     plain (op_file x) \<and> op_file x \<noteq> ''.versions'' \<and> CHR '','' \<notin> set (join (ds @ [op_file x])) \<and>
     length (request_text (op_request ds x)) < MAX_BUFF_SIZE \<and>
     length (join (ds @ [''.versions'', version_name (op_file x) t])) < MAX_PATH_LEN \<and>
     (case x of
        Put f b \<Rightarrow>
          length b \<le> n \<and> int (length b) \<le> LONG_MAX \<and>
          (case current st f of
             None \<Rightarrow> length b \<le> room st
           | Some old \<Rightarrow> length old < n * MAX_BUFF_SIZE \<and> length old + length b \<le> room st)
      | Fetch f \<Rightarrow>
          (case current st f of
             None \<Rightarrow> True
           | Some c \<Rightarrow> \<not> power_of_ten (length c) \<and> length c < n * MAX_BUFF_SIZE)
      | _ \<Rightarrow> True)"

lemma abs_store_fields [simp]:
  "current (abs_store ds fs) f = file_content fs (cwd fs @ ds @ [f])"
  "versions (abs_store ds fs) v = file_content fs (version_key fs ds v)"
  "room (abs_store ds fs) = space fs"
  by (simp_all add: abs_store_def)

lemma abs_store_eqI:
  assumes "same_env fs fs'" and "\<And>f. file_content fs' (cwd fs @ ds @ [f]) = current st f"
    and "\<And>v. file_content fs' (version_key fs ds v) = versions st v" and "space fs' = room st"
  shows "abs_store ds fs' = (st :: store)"
  using assms by (cases st) (simp add: abs_store_def same_env_def version_key_def fun_eq_iff)

lemma folder_okD:
  assumes "folder_ok ds fs"
  shows "wf_fs fs" "readonly fs = []" "ds \<noteq> []" "\<forall>c \<in> set ds. plain c" "node_at fs (cwd fs @ ds) = Some Dir"
    "f \<noteq> ''.versions'' \<Longrightarrow> node_at fs (cwd fs @ ds @ [f]) \<noteq> Some Dir"
    "node_at fs (versions_key fs ds) \<noteq> Some (File c)" "node_at fs (version_key fs ds v) \<noteq> Some Dir"
    "node_at fs (version_key fs ds v) \<noteq> None \<Longrightarrow> length (join (ds @ [''.versions'', v])) < MAX_PATH_LEN"
  using assms by (auto simp: folder_ok_def)

lemma folder_dirs:
  assumes "folder_ok ds fs" and "k \<in> set (dir_keys (cwd fs) ds)"
  shows "node_at fs k = Some Dir"
proof -
  from assms(2) obtain i where i: "i \<le> length ds" "k = cwd fs @ take i ds" by (auto simp: set_dir_keys)
  have "node_at fs (k @ drop i ds) = Some Dir" using folder_okD(5) [OF assms(1)] by (simp add: i)
  then show ?thesis
    using wf_fs_prefix_dir [OF folder_okD(1) [OF assms(1)], of k "drop i ds"] by (cases "drop i ds = []") auto
qed

lemma folder_can_make:
  assumes "folder_ok ds fs"
  shows "can_make_dirs (dir_keys (cwd fs) ds) fs"
    and "can_make_dirs (dir_keys (cwd fs) (ds @ [''.versions''])) fs"
proof -
  show "can_make_dirs (dir_keys (cwd fs) ds) fs"
    using folder_dirs [OF assms] by (simp add: can_make_dirs_def)
  then show "can_make_dirs (dir_keys (cwd fs) (ds @ [''.versions''])) fs"
    using folder_okD(2,7) [OF assms]
    by (auto simp: can_make_dirs_def dir_keys_snoc versions_key_def) (metis node.exhaust)
qed

lemma folder_ok_update:
  \<comment> \<open>how the handlers change the tree\<close>
  assumes "folder_ok ds fs" and "wf_fs fs'" and "same_env fs fs'"
    and "node_at fs' (cwd fs @ ds) = Some Dir"
    and "\<And>f. f \<noteq> ''.versions'' \<Longrightarrow> node_at fs' (cwd fs @ ds @ [f]) \<noteq> Some Dir"
    and "\<And>c. node_at fs' (versions_key fs ds) \<noteq> Some (File c)"
    and "\<And>v. node_at fs' (version_key fs ds v) = node_at fs (version_key fs ds v) \<or>
      node_at fs' (version_key fs ds v) = None \<or>
      (\<exists>c. node_at fs' (version_key fs ds v) = Some (File c)) \<and> length (join (ds @ [''.versions'', v])) < MAX_PATH_LEN"
  shows "folder_ok ds fs'"
proof -
  have keys: "version_key fs' ds v = version_key fs ds v" "versions_key fs' ds = versions_key fs ds" for v
    using assms(3) by (simp_all add: same_env_def version_key_def versions_key_def)
  have v: "node_at fs' (version_key fs ds v) \<noteq> Some Dir" for v
    using assms(7) [of v] folder_okD(8) [OF assms(1), of v] by auto
  have l: "length (join (ds @ [''.versions'', v])) < MAX_PATH_LEN"
    if "node_at fs' (version_key fs ds v) \<noteq> None" for v
    using assms(7) [of v] folder_okD(9) [OF assms(1), of v] that by auto
  show ?thesis
    using assms(2-6) folder_okD(2-4) [OF assms(1)] v l
    by (simp add: folder_ok_def keys) (simp add: same_env_def)
qed

section \<open>The handlers implement the operations\<close>

definition refines :: "nat \<Rightarrow> string list \<Rightarrow> file_op \<Rightarrow> world \<Rightarrow> bool" where
  "refines n ds x w \<longleftrightarrow>
     (\<exists>fs' s'. run_handler n (op_request ds x) w = Inr (w\<lparr>files := fs', conn := s'\<rparr>) \<and>
       folder_ok ds fs' \<and> abs_store ds fs' = fst (spec (clock w) x (abs_store ds (files w))) \<and>
       outbox s' = outbox (conn w) @ snd (spec (clock w) x (abs_store ds (files w))))"

lemma refinesI:
  assumes "run_handler n (op_request ds x) w = Inr (w\<lparr>files := fs', conn := s'\<rparr>)" and "folder_ok ds fs'"
    and "abs_store ds fs' = fst (spec (clock w) x (abs_store ds (files w)))"
    and "outbox s' = outbox (conn w) @ snd (spec (clock w) x (abs_store ds (files w)))"
  shows "refines n ds x w"
  using assms unfolding refines_def by blast

lemma unchanged_refinesI:
  assumes "run_handler n (op_request ds x) w = Inr (w\<lparr>conn := s'\<rparr>)" and "folder_ok ds (files w)"
    and "spec (clock w) x (abs_store ds (files w)) = (abs_store ds (files w), answer)"
    and "outbox s' = outbox (conn w) @ answer"
  shows "refines n ds x w"
  using assms by (intro refinesI [where fs' = "files w" and s' = s']) simp_all

lemma op_request_fields [simp]:
  "command (op_request ds x) = op_command x" "remote_path (op_request ds x) = join (ds @ [op_file x])"
  "data_len (op_request ds x) = int (length (op_bytes x))"
  by (simp_all add: op_request_def)

lemma file_content_None:
  "file_content fs k = None \<longleftrightarrow> node_at fs k = None \<or> node_at fs k = Some Dir"
  by (auto simp: file_content_def split: option.splits node.splits)

lemma file_content_updates:
  "node_at fs' = (node_at fs)(d \<mapsto> Dir, k \<mapsto> File b, k' \<mapsto> File b') \<Longrightarrow>
   file_content fs' l = (if l = k' then Some b' else if l = k then Some b else if l = d then None else file_content fs l)"
  by (simp add: file_content_def)

lemma current_plain:
  assumes "folder_ok ds fs" and "f \<noteq> ''.versions''"
  shows "node_at fs (cwd fs @ ds @ [f]) =
    (case file_content fs (cwd fs @ ds @ [f]) of None \<Rightarrow> None | Some c \<Rightarrow> Some (File c))"
  using folder_okD(6) [OF assms(1,2)] by (auto simp: file_content_def split: option.splits node.splits)

lemma put_new_refines:
  assumes ok: "folder_ok ds (files w)" and can: "can_serve n ds (clock w) (Put f b) (abs_store ds (files w))"
    and rec: "can_receive n ds f ps w" and net: "inbox (conn w) = map Arrive ps @ evs" "concat ps = b"
    and None: "node_at (files w) (cwd (files w) @ ds @ [f]) = None"
  shows "refines n ds (Put f b) w"
proof -
  let ?fs = "files w" and ?r = "op_request ds (Put f b)"
  note D = folder_okD [OF ok]
  have f: "f \<noteq> ''.versions''" using can by (simp add: can_serve_def)
  have cur: "file_content ?fs (cwd ?fs @ ds @ [f]) = None" using None by (simp add: file_content_None)
  with can have sp: "length (concat ps) \<le> space ?fs" using net(2) by (simp add: can_serve_def)
  obtain fs' ps' where run: "handleWriteRequest n ?r w = Inr (w\<lparr>files := fs', conn := (conn w)\<lparr>inbox := map Arrive ps' @ evs,
      outbox := outbox (conn w) @ ''1,0,NULL''\<rparr>\<rparr>)"
    and fs': "wf_fs fs'" "same_env ?fs fs'" "space fs' = space ?fs - length b"
    and node: "\<forall>k. node_at fs' k = (if k = cwd ?fs @ ds @ [f] then Some (File b)
       else if k \<in> set (dir_keys (cwd ?fs) ds) then Some Dir else node_at ?fs k)"
    using write_new [OF D(1) rec None net(1), of ?r] net(2) sp by auto
  have node': "node_at fs' = (node_at ?fs)(cwd ?fs @ ds @ [f] \<mapsto> File b)"
    using node folder_dirs [OF ok] by (auto simp: fun_eq_iff)
  have "folder_ok ds fs'"
    using D(5-8) f by (intro folder_ok_update [OF ok fs'(1,2)]) (auto simp: node' versions_key_def version_key_def)
  moreover have "abs_store ds fs' = fst (spec (clock w) (Put f b) (abs_store ds ?fs))"
    using cur fs'(3) by (intro abs_store_eqI [OF fs'(2)]) (auto simp: node' file_content_def version_key_def)
  ultimately show ?thesis using run cur by (intro refinesI, simp add: run_handler_def) simp_all
qed

lemma put_existing_refines:
  assumes ok: "folder_ok ds (files w)" and can: "can_serve n ds (clock w) (Put f b) (abs_store ds (files w))"
    and rec: "can_receive n ds f ps w" and net: "inbox (conn w) = map Arrive ps @ evs" "concat ps = b"
    and old: "node_at (files w) (cwd (files w) @ ds @ [f]) = Some (File old)"
  shows "refines n ds (Put f b) w"
proof -
  let ?fs = "files w" and ?r = "op_request ds (Put f b)"
  note D = folder_okD [OF ok]
  have f: "plain f" "f \<noteq> ''.versions''" and len: "length (join (ds @ [''.versions'', version_name f (clock w)])) < MAX_PATH_LEN"
    using can by (simp_all add: can_serve_def)
  have pl: "\<forall>c \<in> set (ds @ [f]). plain c" using D(4) f(1) by simp
  have cur: "file_content ?fs (cwd ?fs @ ds @ [f]) = Some old" using old by (simp add: file_content_eq_Some)
  with can have sp: "length old + length (concat ps) \<le> space ?fs" and m: "length old < n * MAX_BUFF_SIZE"
    using net(2) by (simp_all add: can_serve_def)
  have save: "can_save n ds f (length old) w"
    using D(2,3,8) pl len folder_can_make(2) [OF ok] m by (simp add: can_save_def Let_def)
  obtain fs' ps' where run: "handleWriteRequest n ?r w = Inr (w\<lparr>files := fs', conn := (conn w)\<lparr>inbox := map Arrive ps' @ evs,
      outbox := outbox (conn w) @ ''1,0,NULL''\<rparr>\<rparr>)"
    and fs': "wf_fs fs'" "same_env ?fs fs'" "space fs' = space ?fs - length old - length b"
    and node: "node_at fs' = (node_at ?fs)(versions_key ?fs ds \<mapsto> Dir,
       version_key ?fs ds (version_name f (clock w)) \<mapsto> File old, cwd ?fs @ ds @ [f] \<mapsto> File b)"
    using write_existing_fits [OF D(1) rec save old net(1), of ?r] net(2) sp by auto
  have no_file: "file_content ?fs (versions_key ?fs ds) = None"
    using D(7) by (simp add: file_content_None) (metis node.exhaust option.exhaust)
  have "folder_ok ds fs'"
    using D(5-8) f(2) len by (intro folder_ok_update [OF ok fs'(1,2)]) (auto simp: node versions_key_def version_key_def)
  moreover have "abs_store ds fs' = fst (spec (clock w) (Put f b) (abs_store ds ?fs))"
    using cur fs'(3) no_file
    by (intro abs_store_eqI [OF fs'(2)])
      (auto simp: file_content_updates [OF node] version_key_def versions_key_def)
  ultimately show ?thesis using run cur by (intro refinesI, simp add: run_handler_def) simp_all
qed

lemma put_refines:
  assumes ok: "folder_ok ds (files w)" and can: "can_serve n ds (clock w) (Put f b) (abs_store ds (files w))"
    and net: "sends_whole (conn w)" "inbox (conn w) = map Arrive ps @ evs" "concat ps = b"
  shows "refines n ds (Put f b) w"
proof -
  note D = folder_okD [OF ok]
  have f: "plain f" "f \<noteq> ''.versions''" and len: "length (join (ds @ [''.versions'', version_name f (clock w)])) < MAX_PATH_LEN"
    and n: "length b \<le> n" using can by (simp_all add: can_serve_def)
  have "\<forall>c \<in> set (ds @ [f]). plain c" using D(4) f(1) by simp
  then have rec: "can_receive n ds f ps w"
    using short_path(1) [OF D(3) len] folder_can_make(1) [OF ok] D(2) n net(1,3) by (simp add: can_receive_def)
  show ?thesis
  proof (cases "node_at (files w) (cwd (files w) @ ds @ [f])")
    case None
    then show ?thesis by (rule put_new_refines [OF ok can rec net(2,3)])
  next
    case (Some nd)
    with D(6) [OF f(2)] obtain old where "node_at (files w) (cwd (files w) @ ds @ [f]) = Some (File old)" by (cases nd) auto
    then show ?thesis by (rule put_existing_refines [OF ok can rec net(2,3)])
  qed
qed

lemma fetch_refines:
  assumes ok: "folder_ok ds (files w)" and can: "can_serve n ds (clock w) (Fetch f) (abs_store ds (files w))"
    and net: "sends_whole (conn w)"
  shows "refines n ds (Fetch f) w"
proof -
  let ?fs = "files w" and ?r = "op_request ds (Fetch f)"
  note D = folder_okD [OF ok]
  have f: "plain f" "f \<noteq> ''.versions''" using can by (simp_all add: can_serve_def)
  have rel: "rel_path (ds @ [f])" using D(4) f(1) by (simp add: rel_path_def)
  show ?thesis
  proof (cases "file_content ?fs (cwd ?fs @ ds @ [f])")
    case None
    then have "getFileSize ?fs (join (ds @ [f])) = - 1"
      using getFileSize_join [OF D(1) rel] current_plain [OF ok f(2)] by simp
    then have "run_handler n ?r w = Inr (w\<lparr>conn := (conn w)\<lparr>outbox := outbox (conn w) @
        ''0,0,unable to open and/or get size of the requested file''\<rparr>\<rparr>)"
      using net by (simp add: run_handler_def handleGetRequest_def buildAndSend_zero)
    from unchanged_refinesI [OF this ok] None show ?thesis by simp
  next
    case (Some c)
    then have "node_at ?fs (cwd ?fs @ ds @ [f]) = Some (File c)" by (simp add: file_content_eq_Some)
    with get_file [OF D(1) rel, of ?r c n] net can Some obtain s' where
      "handleGetRequest n ?r w = Inr (w\<lparr>conn := s'\<rparr>)"
      "outbox s' = outbox (conn w) @ ''1,'' @ show_int (int (length c)) @ '',OK'' @ c"
      by (auto simp: can_serve_def)
    then have "run_handler n ?r w = Inr (w\<lparr>conn := s'\<rparr>)"
      by (simp add: run_handler_def)
    from unchanged_refinesI [OF this ok] \<open>outbox s' = _\<close> Some show ?thesis by simp
  qed
qed

lemma remove_missing:
  assumes "wf_fs (files w)" and "rel_path cs" and "remote_path r = join cs"
    and "node_at (files w) (cwd (files w) @ cs) = None" and "sends_whole (conn w)"
  shows "handleRemoveRequest r w =
    Inr (w\<lparr>conn := (conn w)\<lparr>outbox := outbox (conn w) @ ''0,0,unable to remove file''\<rparr>\<rparr>)"
  using remove_join [OF assms(1,2)] rel_path_join_nonempty [OF assms(2)] assms(3-5)
  by (simp add: handleRemoveRequest_def respond_whole)

lemma folder_ok_drop:
  assumes "folder_ok ds fs" and "wf_fs fs'" and "same_env fs fs'"
    and "\<And>k. node_at fs' k = (if k = cwd fs @ ds @ [f] \<or> (\<exists>v. k = version_key fs ds v \<and> P v) then None else node_at fs k)"
    and "f \<noteq> ''.versions''"
  shows "folder_ok ds fs'"
  using folder_okD(5-8) [OF assms(1)] assms(5)
  by (intro folder_ok_update [OF assms(1-3)]) (auto simp: assms(4) versions_key_def version_key_def)

lemma delete_file:
  assumes ok: "folder_ok ds (files w)" and pl: "\<forall>c \<in> set (ds @ [f]). plain c" and f: "f \<noteq> ''.versions''"
    and len: "length (join (ds @ [f])) < MAX_PATH_LEN" "length (join (ds @ [''.versions''])) < MAX_PATH_LEN"
    and r: "remote_path r = join (ds @ [f])" and c: "node_at (files w) (cwd (files w) @ ds @ [f]) = Some (File c)"
    and net: "sends_whole (conn w)"
  shows "\<exists>fs'. handleRemoveRequest r w = Inr (w\<lparr>files := fs', conn := (conn w)\<lparr>outbox := outbox (conn w) @ ''1,0,OK''\<rparr>\<rparr>) \<and>
    wf_fs fs' \<and> same_env (files w) fs' \<and> space fs' = space (files w) \<and>
    (\<forall>k. node_at fs' k = (if k = cwd (files w) @ ds @ [f] \<or> (\<exists>v. k = version_key (files w) ds v \<and> prefix f v) then None
       else node_at (files w) k))"
proof -
  let ?fs = "files w" and ?k = "cwd (files w) @ ds @ [f]"
  note D = folder_okD [OF ok]
  have rw: "?k \<notin> set (readonly ?fs)" using D(2) by simp
  show ?thesis
  proof (cases "node_at ?fs (versions_key ?fs ds) = Some Dir")
    case False
    have vnone: "node_at ?fs (version_key ?fs ds v) = None" for v
      using wf_fs_prefix_dir [OF D(1), of "versions_key ?fs ds" "[v]"] False
      by (cases "node_at ?fs (version_key ?fs ds v)") (auto simp: versions_key_def version_key_def)
    have "rel_path (ds @ [f])" using pl by (simp add: rel_path_def)
    then have rm: "remove (join (ds @ [f])) ?fs = Inr (drop_node ?k ?fs)"
      using remove_join [OF D(1)] c rw by simp
    from remove_plain [OF D(1,3) pl len r D(6) [OF f] rw False net] c
    show ?thesis
      using wf_remove [OF rm D(1)] vnone
      by (intro exI [of _ "drop_node ?k ?fs"]) (auto simp: same_env_def)
  next
    case True
    have "removable ds f ?fs"
      using D(2,9) set_children [OF D(1)] by (fastforce simp: removable_def versions_key_def version_key_def)
    from remove_with_versions [OF D(1,3) pl len r c rw True this net] obtain fs' where
      "handleRemoveRequest r w = Inr (w\<lparr>files := fs', conn := (conn w)\<lparr>outbox := outbox (conn w) @ ''1,0,OK''\<rparr>\<rparr>)"
      "wf_fs fs'" "same_env ?fs fs'" "space fs' = space ?fs" and
      node: "\<forall>k. node_at fs' k = (if k = ?k then None
         else if \<exists>v c. k = version_key ?fs ds v \<and> prefix f v \<and> node_at ?fs k = Some (File c) then None
         else node_at ?fs k)"
      by blast
    moreover have "node_at fs' k = (if k = ?k \<or> (\<exists>v. k = version_key ?fs ds v \<and> prefix f v) then None else node_at ?fs k)" for k
      using D(8) node by (auto) (metis node.exhaust option.exhaust)
    ultimately show ?thesis by blast
  qed
qed

lemma delete_refines:
  assumes ok: "folder_ok ds (files w)" and can: "can_serve n ds (clock w) (Delete f) (abs_store ds (files w))"
    and net: "sends_whole (conn w)"
  shows "refines n ds (Delete f) w"
proof -
  let ?fs = "files w" and ?r = "op_request ds (Delete f)"
  let ?k = "cwd ?fs @ ds @ [f]" and ?s' = "(conn w)\<lparr>outbox := outbox (conn w) @ ''1,0,OK''\<rparr>"
  let ?spec = "spec (clock w) (Delete f) (abs_store ds ?fs)"
  note D = folder_okD [OF ok]
  have f: "plain f" "f \<noteq> ''.versions''" and len: "length (join (ds @ [''.versions'', version_name f (clock w)])) < MAX_PATH_LEN"
    using can by (simp_all add: can_serve_def)
  have pl: "\<forall>c \<in> set (ds @ [f]). plain c" using D(4) f(1) by simp
  have r: "remote_path ?r = join (ds @ [f])" by simp
  show ?thesis
  proof (cases "file_content ?fs ?k")
    case None
    then have "node_at ?fs ?k = None" using current_plain [OF ok f(2)] by simp
    moreover have "rel_path (ds @ [f])" using pl by (simp add: rel_path_def)
    ultimately have "run_handler n ?r w =
        Inr (w\<lparr>conn := (conn w)\<lparr>outbox := outbox (conn w) @ ''0,0,unable to remove file''\<rparr>\<rparr>)"
      using remove_missing [OF D(1) _ r _ net] by (simp add: run_handler_def)
    from unchanged_refinesI [OF this ok] None show ?thesis by simp
  next
    case (Some c)
    then have c: "node_at ?fs ?k = Some (File c)" by (simp add: file_content_eq_Some)
    from delete_file [OF ok pl f(2) short_path(1,2) [OF D(3) len] r c net]
    obtain fs' where run: "handleRemoveRequest ?r w = Inr (w\<lparr>files := fs', conn := ?s'\<rparr>)"
      and fs': "wf_fs fs'" "same_env ?fs fs'" "space fs' = space ?fs"
      and node: "\<And>k. node_at fs' k =
        (if k = ?k \<or> (\<exists>v. k = version_key ?fs ds v \<and> prefix f v) then None else node_at ?fs k)"
      by blast
    have "abs_store ds fs' = fst ?spec"
      using Some fs'(3) by (intro abs_store_eqI [OF fs'(2)]) (auto simp: node file_content_def version_key_def)
    with run Some folder_ok_drop [OF ok fs'(1,2) node f(2)] show ?thesis
      by (intro refinesI, simp add: run_handler_def) simp_all
  qed
qed

lemma handler_refines:
  assumes "folder_ok ds (files w)" and "can_serve n ds (clock w) x (abs_store ds (files w))"
    and "sends_whole (conn w)" and "inbox (conn w) = map Arrive ps @ evs" and "concat ps = op_bytes x"
  shows "refines n ds x w"
proof (cases x)
  case (Put f b)
  with assms put_refines show ?thesis by simp
next
  case (Fetch f)
  with assms fetch_refines show ?thesis by simp
next
  case (Delete f)
  with assms delete_refines show ?thesis by simp
next
  case (Listing f)
  have "run_handler n (op_request ds x) w =
      Inr (w\<lparr>conn := (conn w)\<lparr>outbox := outbox (conn w) @ ''0,0,optional command isn't implemented yet''\<rparr>\<rparr>)"
    using assms(3) by (simp add: Listing run_handler_def respond_whole)
  from unchanged_refinesI [OF this assms(1)] show ?thesis by (simp add: Listing)
qed

section \<open>The server implements the store\<close>

definition server_store :: "string list \<Rightarrow> server_t \<Rightarrow> store" where
  "server_store ds srv = abs_store ds (files (server_world srv))"

definition server_ok :: "string list \<Rightarrow> server_t \<Rightarrow> bool" where
  "server_ok ds srv \<longleftrightarrow> server_ready srv \<and> folder_ok ds (files (server_world srv))"

definition carries :: "string list \<Rightarrow> (int \<times> int) \<times> file_op \<Rightarrow> accept_result \<Rightarrow> bool" where
  \<comment> \<open>a connection over which the request and then, in any pieces, the bytes of the operation come; the main
     thread is done with the arguments of the thread before the thread frees them\<close>
  "carries ds x e \<longleftrightarrow>
     (\<exists>ps evs sd tid sched. concat ps = op_bytes (snd x) \<and> sched \<in> set thread_orders \<and> last sched = ThreadFrees \<and>
        e = Accepted \<lparr>inbox = Arrive (request_text (op_request ds (snd x))) # map Arrive ps @ evs,
                       send_plan = [], outbox = [], is_closed = False\<rparr> (fst x) sd 0 tid sched)"

definition serve_event :: "nat \<Rightarrow> accept_result \<Rightarrow> server_t \<Rightarrow> stop + server_t \<times> bytes" where
  \<comment> \<open>one round of \<open>accept_loop\<close> and what it sends\<close>
  "serve_event n e srv =
     andThen (accept_loop n [e] \<lparr>run_state = srv, served = []\<rparr>) (\<lambda>(_, run).
       Inr (run_state run, concat (map outbox (served run))))"

lemma thread_refines:
  assumes ok: "server_ok ds srv" and can: "can_serve n ds (clock (server_world srv)) x (server_store ds srv)"
    and box: "inbox (conn (server_world srv)) = Arrive (request_text (op_request ds x)) # map Arrive ps @ evs"
    and net: "concat ps = op_bytes x" "sends_whole (conn (server_world srv))"
  shows "\<exists>srv'. threadClientHandler n srv = Inr srv' \<and> server_ok ds srv' \<and>
    server_store ds srv' = fst (spec (clock (server_world srv)) x (server_store ds srv)) \<and>
    outbox (conn (server_world srv')) =
      outbox (conn (server_world srv)) @ snd (spec (clock (server_world srv)) x (server_store ds srv))"
proof -
  let ?w = "server_world srv"
  let ?s1 = "(conn ?w)\<lparr>inbox := map Arrive ps @ evs\<rparr>"
  let ?w1 = "?w\<lparr>conn := ?s1\<rparr>"
  have ready: "server_ready srv" and folder: "folder_ok ds (files ?w)" using ok by (simp_all add: server_ok_def)
  have pl: "\<forall>c \<in> set (ds @ [op_file x]). plain c"
    using folder_okD(4) [OF folder] can by (simp add: can_serve_def)
  have long: "int (length (op_bytes x)) \<le> LONG_MAX"
    using can by (cases x) (simp_all add: can_serve_def LONG_MAX_def)
  have path: "join (ds @ [op_file x]) \<noteq> ''''"
    using pl by (intro rel_path_join_nonempty) (simp add: rel_path_def)
  have recv: "receiveRequest (conn ?w) = Inr (Some (op_request ds x), ?s1)"
    using receive_request [OF box] can long path cstr_join [OF pl] by (cases x) (simp_all add: can_serve_def)
  have "refines n ds x ?w1"
    using folder can net by (intro handler_refines) (simp_all add: server_store_def)
  then obtain fs' s' where run: "run_handler n (op_request ds x) ?w1 = Inr (?w1\<lparr>files := fs', conn := s'\<rparr>)"
    and fs': "folder_ok ds fs'" "abs_store ds fs' = fst (spec (clock ?w) x (abs_store ds (files ?w)))"
    and out: "outbox s' = outbox (conn ?w) @ snd (spec (clock ?w) x (abs_store ds (files ?w)))"
    by (auto simp: refines_def)
  from thread_run [OF ready recv run] fs' out show ?thesis
    by (auto simp: server_ok_def server_store_def finish_def close_socket_def)
qed

lemma serve_event_refines:
  assumes ok: "server_ok ds srv" and can: "can_serve n ds (fst x) (snd x) (server_store ds srv)"
    and ev: "carries ds x e"
  shows "\<exists>srv'. serve_event n e srv = Inr (srv', snd (spec (fst x) (snd x) (server_store ds srv))) \<and>
    server_ok ds srv' \<and> server_store ds srv' = fst (spec (fst x) (snd x) (server_store ds srv))"
proof -
  from ev obtain ps evs sd tid sched where ps: "concat ps = op_bytes (snd x)"
    and sched: "sched \<in> set thread_orders" "last sched = ThreadFrees"
    and e: "e = Accepted \<lparr>inbox = Arrive (request_text (op_request ds (snd x))) # map Arrive ps @ evs,
                           send_plan = [], outbox = [], is_closed = False\<rparr> (fst x) sd 0 tid sched"
    unfolding carries_def by blast
  let ?s = "\<lparr>inbox = Arrive (request_text (op_request ds (snd x))) # map Arrive ps @ evs,
              send_plan = [], outbox = [], is_closed = False\<rparr>"
  let ?srv = "srv\<lparr>server_world := (server_world srv)\<lparr>conn := ?s, clock := fst x\<rparr>\<rparr>"
  have create: "createAndDetachThread 0 tid sched sd = Inr True"
    using sched by (auto simp: thread_orders_def createAndDetachThread_def)
  from ok can have "server_ok ds ?srv" "server_store ds ?srv = server_store ds srv"
    by (simp_all add: server_ok_def server_store_def)
  with thread_refines [of ds ?srv n "snd x" ps evs] can ps obtain srv' where
    "threadClientHandler n ?srv = Inr srv'" "server_ok ds srv'"
    "server_store ds srv' = fst (spec (fst x) (snd x) (server_store ds srv))"
    "outbox (conn (server_world srv')) = snd (spec (fst x) (snd x) (server_store ds srv))"
    by (auto simp: sends_whole_def)
  then show ?thesis by (simp add: serve_event_def e create)
qed

interpretation serving: simulation "serve_event n" spec_at "server_store ds" "server_ok ds"
  "\<lambda>x. can_serve n ds (fst x) (snd x)" "carries ds"
  for n ds
  by unfold_locales (rule serve_event_refines)

lemma accept_loop_acts:
  assumes "run_acts (serve_event n) es srv = Inr (srv', rs)" and "AcceptFails \<notin> set es"
  shows "\<exists>run. accept_loop n es \<lparr>run_state = srv, served = ss\<rparr> = Inr (None, run) \<and> run_state run = srv' \<and>
    map outbox (served run) = map outbox ss @ rs"
  using assms
proof (induction es arbitrary: srv rs ss)
  case (Cons e es)
  from Cons.prems obtain s time sd cs tid sched where e: "e = Accepted s time sd cs tid sched" by (cases e) auto
  from Cons.prems(1) obtain srv1 rs' where one: "serve_event n e srv = Inr (srv1, hd rs)"
    and rest: "run_acts (serve_event n) es srv1 = Inr (srv', rs')" and rs: "rs = hd rs # rs'"
    by (auto simp: andThen_eq_Inr_conv)
  from one have "accept_loop n (e # es) \<lparr>run_state = srv, served = ss\<rparr> =
      accept_loop n es \<lparr>run_state = srv1, served = ss @ [conn (server_world srv1)]\<rparr> \<and>
      outbox (conn (server_world srv1)) = hd rs"
    by (auto simp: serve_event_def e andThen_eq_Inr_conv)
  with Cons.IH [OF rest, of "ss @ [conn (server_world srv1)]"] Cons.prems(2) rs show ?case by auto
qed simp

lemma server_store_run:
  assumes "folder_ok ds (files w)" and "0 \<le> ss" and "0 \<le> bs" and "0 \<le> ls"
    and "allowed (\<lambda>x. can_serve n ds (fst x) (snd x)) spec_at xs (abs_store ds (files w))"
    and "list_all2 (carries ds) xs evs"
  shows "\<exists>run. main_server n ss bs ls evs w = Inr (None, run) \<and>
    map outbox (served run) = snd (run_spec spec_at xs (abs_store ds (files w))) \<and>
    abs_store ds (files (server_world (run_state run))) =
      fst (run_spec spec_at xs (abs_store ds (files w)))"
proof -
  let ?srv = "\<lparr>server_world = w, file_lock_manager = Some createFileLockList, lock_heap = []\<rparr>"
  have "server_ready ?srv" by (simp add: server_ready_def locks_inv_create all_free_def)
  with assms(1) have "server_ok ds ?srv" and st: "server_store ds ?srv = abs_store ds (files w)"
    by (simp_all add: server_ok_def server_store_def)
  from serving.run_simulates [OF this(1), of n xs evs] assms(5,6) obtain srv' where
    run: "run_acts (serve_event n) evs ?srv =
      Inr (srv', snd (run_spec spec_at xs (abs_store ds (files w))))"
    and final: "server_store ds srv' = fst (run_spec spec_at xs (abs_store ds (files w)))"
    unfolding st by blast
  have "AcceptFails \<notin> set evs"
    using assms(6) by (induction rule: list_all2_induct) (auto simp: carries_def)
  from accept_loop_acts [OF run this, of "[]"] assms(2-4) final show ?thesis
    by (auto simp: main_server_def Let_def server_store_def)
qed

text \<open>
  C1. The server implements a store of files with versions: started in a folder that is in order, and
  over any sequence of connections whose requests it has room for, however the bytes come in
  pieces, the server gives to each client exactly the answer that the specification \<open>spec\<close> gives, and leaves
  a folder that holds the files and the versions that it says.
\<close>

theorem main_server_implements_store:
  assumes "folder_ok ds (files w)" and "0 \<le> ss" and "0 \<le> bs" and "0 \<le> ls"
    and "allowed (\<lambda>x. can_serve n ds (fst x) (snd x)) spec_at xs (abs_store ds (files w))"
    and "list_all2 (carries ds) xs evs"
  shows "\<exists>run. main_server n ss bs ls evs w = Inr (None, run) \<and>
    map outbox (served run) = snd (run_spec spec_at xs (abs_store ds (files w))) \<and>
    abs_store ds (files (server_world (run_state run))) =
      fst (run_spec spec_at xs (abs_store ds (files w)))"
  using assms by (rule server_store_run)

fun last_put :: "string \<Rightarrow> ((int \<times> int) \<times> file_op) list \<Rightarrow> bytes option \<Rightarrow> bytes option" where
  \<comment> \<open>what the history \<open>xs\<close> leaves under the name \<open>f\<close>\<close>
  "last_put f [] c = c"
| "last_put f ((t, Put g b) # xs) c = last_put f xs (if g = f then Some b else c)"
| "last_put f ((t, Delete g) # xs) c = last_put f xs (if g = f then None else c)"
| "last_put f ((t, Fetch g) # xs) c = last_put f xs c"
| "last_put f ((t, Listing g) # xs) c = last_put f xs c"

lemma spec_last_put:
  "current (fst (run_spec spec_at xs st)) f = last_put f xs (current st f)"
proof (induction f xs "current st f" arbitrary: st rule: last_put.induct)
  case (2 f t g b xs)
  then show ?case by (auto simp: split_def split: option.splits)
next
  case (3 f t g xs)
  then show ?case by (auto simp: split_def split: option.splits)
qed (simp_all add: split_def)


section \<open>Independent requests\<close>

lemma rsplit_dot:
  assumes "f @ CHR ''.'' # x = g @ CHR ''.'' # y" and "CHR ''.'' \<notin> set x" and "CHR ''.'' \<notin> set y"
  shows "f = g \<and> x = y"
proof -
  from assms(1) have "rev x @ CHR ''.'' # rev f = rev y @ CHR ''.'' # rev g"
    by (metis append.assoc append_Cons append_Nil rev.simps(2) rev_append)
  moreover have "takeWhile (\<lambda>c. c \<noteq> CHR ''.'') (rev z @ CHR ''.'' # r) = rev z" if "CHR ''.'' \<notin> set z" for z r
    using that by (intro takeWhile_append_stop) auto
  ultimately have "rev x = rev y" using assms(2,3) by metis
  with assms(1) show ?thesis by simp
qed

lemma show_int_no_dot: "CHR ''.'' \<notin> set (show_int i)"
proof -
  have "\<not> isdigit (CHR ''.'')" by (simp add: isdigit_def)
  then have "CHR ''.'' \<notin> set (show_nat n)" for n using show_nat_isdigit by blast
  then show ?thesis by (simp add: show_int_def)
qed

lemma version_name_file: "version_name f s = version_name g t \<Longrightarrow> f = g"
  using rsplit_dot [of f "show_int (fst s) @ ''_'' @ show_int (snd s)" g "show_int (fst t) @ ''_'' @ show_int (snd t)"]
    show_int_no_dot by (simp add: version_name_def)

fun independent :: "(int \<times> int) \<times> file_op \<Rightarrow> (int \<times> int) \<times> file_op \<Rightarrow> bool" where
  \<comment> \<open>different names, and no \<open>RM\<close> takes the version with it that the other one makes\<close>
  "independent (s, Delete f) (t, Put g b) \<longleftrightarrow> f \<noteq> g \<and> \<not> prefix f (version_name g t)"
| "independent (s, Put g b) (t, Delete f) \<longleftrightarrow> f \<noteq> g \<and> \<not> prefix f (version_name g s)"
| "independent (s, x) (t, y) \<longleftrightarrow> op_file x \<noteq> op_file y"

lemma store_eqI:
  "current a = current b \<Longrightarrow> versions a = versions b \<Longrightarrow> room a = room b \<Longrightarrow> a = (b :: store)"
  by (cases a; cases b) simp

lemma spec_current:
  "current (fst (spec t x st)) g =
   (if g = op_file x then (case x of Put f b \<Rightarrow> Some b | Delete f \<Rightarrow> None | _ \<Rightarrow> current st g) else current st g)"
  by (cases x) (auto split: option.splits)

lemma spec_versions:
  "versions (fst (spec t x st)) v =
   (case x of
      Put f b \<Rightarrow> if current st f \<noteq> None \<and> v = version_name f t then current st f else versions st v
    | Delete f \<Rightarrow> if current st f \<noteq> None \<and> prefix f v then None else versions st v
    | _ \<Rightarrow> versions st v)"
  by (cases x) (auto split: option.splits)

lemma spec_room:
  "room (fst (spec t x st)) =
   (case x of
      Put f b \<Rightarrow> room st - (case current st f of None \<Rightarrow> 0 | Some old \<Rightarrow> length old) - length b
    | _ \<Rightarrow> room st)"
  by (cases x) (auto split: option.splits)

lemma spec_answer: "current st (op_file x) = current st' (op_file x) \<Longrightarrow> snd (spec t x st) = snd (spec t x st')"
  by (cases x) (auto split: option.splits)

lemma independent_names: "independent x y \<Longrightarrow> op_file (snd x) \<noteq> op_file (snd y)"
  by (cases "(x, y)" rule: independent.cases) auto

lemma spec_commute:
  assumes "independent x y"
  shows "fst (spec_at y (fst (spec_at x st))) = fst (spec_at x (fst (spec_at y st)))"
    and "snd (spec_at y (fst (spec_at x st))) = snd (spec_at y st)"
    and "snd (spec_at x (fst (spec_at y st))) = snd (spec_at x st)"
proof -
  note names = independent_names [OF assms]
  obtain s u t z where xy: "x = (s, u)" "y = (t, z)" by (metis prod.exhaust)
  have vn: "version_name f s \<noteq> version_name g t" if "f \<noteq> g" for f g s t
    using that version_name_file by blast
  have "versions (fst (spec_at y (fst (spec_at x st)))) v = versions (fst (spec_at x (fst (spec_at y st)))) v" for v
    using assms names vn
    by (cases u; cases z) (auto simp: xy spec_versions spec_current simp del: spec.simps)
  moreover have "room (fst (spec_at y (fst (spec_at x st)))) = room (fst (spec_at x (fst (spec_at y st))))"
    using assms names
    by (cases u; cases z) (auto simp: xy spec_room spec_current simp del: spec.simps)
  moreover have "current (fst (spec_at y (fst (spec_at x st)))) f = current (fst (spec_at x (fst (spec_at y st)))) f" for f
    using names by (cases u; cases z) (auto simp: xy spec_current simp del: spec.simps)
  ultimately show "fst (spec_at y (fst (spec_at x st))) = fst (spec_at x (fst (spec_at y st)))"
    by (intro store_eqI ext)
  show "snd (spec_at y (fst (spec_at x st))) = snd (spec_at y st)"
    and "snd (spec_at x (fst (spec_at y st))) = snd (spec_at x st)"
    using names by (auto intro!: spec_answer simp: spec_current simp del: spec.simps)
qed


end
