(* ===== verification/Handler_Runs.thy ===== *)
theory Handler_Runs
  imports Request_Handler
begin

text \<open>
  Concrete runs of the handlers of theory \<open>Request_Handler\<close>: one small server, on which each of
  the theorems about the handlers applies.
\<close>

section \<open>Concrete runs\<close>

text \<open>
  A server started in \<open>/srv\<close> with the files \<open>data/a\<close> and \<open>data/ab\<close>, one version of each and
  \<open>room\<close> bytes of space, when the events \<open>evs\<close> come from the client at time 7.8.
\<close>

definition demo_files :: "nat \<Rightarrow> key list \<Rightarrow> filesys" where
  "demo_files room ro =
     \<lparr>nodes =
        [([], Dir), ([''srv''], Dir), ([''srv'', ''data''], Dir),
         ([''srv'', ''data'', ''a''], File ''first''),
         ([''srv'', ''data'', ''ab''], File ''other''),
         ([''srv'', ''data'', ''.versions''], Dir),
         ([''srv'', ''data'', ''.versions'', ''a.1_2''], File ''v''),
         ([''srv'', ''data'', ''.versions'', ''ab.1_2''], File ''w'')],
      cwd = [''srv''], readonly = ro, space = room, dir_end = 9223372036854775807\<rparr>"

definition demo_world :: "nat \<Rightarrow> key list \<Rightarrow> net_in list \<Rightarrow> world" where
  "demo_world room ro evs =
     \<lparr>files = demo_files room ro,
      conn = \<lparr>inbox = evs, send_plan = [], outbox = [], is_closed = False\<rparr>, clock = (7, 8)\<rparr>"

definition demo_request :: "command_type \<Rightarrow> string \<Rightarrow> int \<Rightarrow> request_t" where
  "demo_request c p l = \<lparr>command = c, remote_path = p, data_len = l\<rparr>"

lemma demo_fields [simp]:
  "files (demo_world room ro evs) = demo_files room ro"
  "clock (demo_world room ro evs) = (7, 8)"
  "inbox (conn (demo_world room ro evs)) = evs"
  "outbox (conn (demo_world room ro evs)) = []"
  "sends_whole (conn (demo_world room ro evs))"
  "cwd (demo_files room ro) = [''srv'']" "readonly (demo_files room ro) = ro"
  "space (demo_files room ro) = room" "dir_end (demo_files room ro) = 9223372036854775807"
  "remote_path (demo_request c p l) = p" "data_len (demo_request c p l) = l"
  "command (demo_request c p l) = c"
  by (simp_all add: demo_world_def demo_files_def demo_request_def sends_whole_def)

lemma demo_node:
  "node_at (demo_files room ro) = map_of
        [([], Dir), ([''srv''], Dir), ([''srv'', ''data''], Dir),
         ([''srv'', ''data'', ''a''], File ''first''),
         ([''srv'', ''data'', ''ab''], File ''other''),
         ([''srv'', ''data'', ''.versions''], Dir),
         ([''srv'', ''data'', ''.versions'', ''a.1_2''], File ''v''),
         ([''srv'', ''data'', ''.versions'', ''ab.1_2''], File ''w'')]"
  by (simp add: node_at_def demo_files_def fun_eq_iff)

lemma demo_wf [simp]: "wf_fs (demo_files room ro)"
proof -
  have "wf_fs (demo_files 0 [])" by code_simp
  moreover have "wf_fs (demo_files room ro) = wf_fs (demo_files 0 [])"
    by (rule wf_fs_cong) (simp_all add: demo_files_def)
  ultimately show ?thesis by simp
qed

lemma demo_version [simp]: "version_name f (7, 8) = f @ ''.7_8''"
proof -
  have "version_name [] (7, 8) = ''.7_8''" by code_simp
  then show ?thesis by (simp add: version_name_def)
qed

lemma demo_plain [simp]: "plain ''data''" "plain ''a''" "plain ''ab''" "plain ''b''" "plain ''new''"
  by (simp_all add: plain_def)

lemmas demo_simps = demo_node versions_key_def version_key_def MAX_PATH_LEN_def MAX_BUFF_SIZE_def

lemma demo_can_save: "k \<le> 9 \<Longrightarrow> can_save 9 [''data''] ''a'' k (demo_world room [] evs)"
  by (simp add: can_save_def can_make_dirs_def demo_simps)

lemma demo_can_receive:
  "length (concat ps) \<le> 9 \<Longrightarrow> can_receive 9 [''data''] ''a'' ps (demo_world room [] evs)"
  by (simp add: can_receive_def can_make_dirs_def demo_simps)

lemma demo_can_receive_new:
  "length (concat ps) \<le> 9 \<Longrightarrow> can_receive 9 [''data'', ''new''] ''b'' ps (demo_world room [] evs)"
  by (simp add: can_receive_def can_make_dirs_def demo_simps)

theorem handleWriteRequest_new_witness:
  "\<exists>fs' ps'. handleWriteRequest 9 (demo_request WRITE ''data/new/b'' 5)
        (demo_world 50 [] [Arrive ''by'', Arrive '''', Arrive ''tes'', PeerClosed]) =
      Inr ((demo_world 50 [] [Arrive ''by'', Arrive '''', Arrive ''tes'', PeerClosed])\<lparr>files := fs',
        conn := (conn (demo_world 50 [] [Arrive ''by'', Arrive '''', Arrive ''tes'', PeerClosed]))
          \<lparr>inbox := map Arrive ps' @ [PeerClosed], outbox := ''1,0,NULL''\<rparr>\<rparr>) \<and>
    node_at fs' [''srv'', ''data'', ''new'', ''b''] = Some (File ''bytes'')"
proof -
  let ?w = "demo_world 50 [] [Arrive ''by'', Arrive '''', Arrive ''tes'', PeerClosed]"
  have "can_receive 9 [''data'', ''new''] ''b'' [''by'', '''', ''tes''] ?w"
    by (simp add: demo_can_receive_new)
  moreover have "node_at (files ?w) (cwd (files ?w) @ [''data'', ''new''] @ [''b'']) = None"
    by (simp add: demo_node)
  ultimately show ?thesis
    using handleWriteRequest_new [of ?w 9 "[''data'', ''new'']" "''b''" "[''by'', '''', ''tes'']" "[PeerClosed]"
        "demo_request WRITE ''data/new/b'' 5"]
    by force
qed

theorem handleWriteRequest_existing_witness:
  "\<exists>w'. handleWriteRequest 9 (demo_request WRITE ''data/a'' 6)
        (demo_world 50 [] [Arrive ''sec'', Arrive ''ond'']) = Inr w' \<and>
    outbox (conn w') = ''1,0,NULL'' \<and>
    node_at (files w') [''srv'', ''data'', ''a''] = Some (File ''second'') \<and>
    node_at (files w') [''srv'', ''data'', ''.versions'', ''a.7_8''] = Some (File ''first'') \<and>
    node_at (files w') [''srv'', ''data'', ''.versions'', ''a.1_2''] = Some (File ''v'')"
proof -
  let ?w = "demo_world 50 [] [Arrive ''sec'', Arrive ''ond'']"
  obtain fs' ps' where "handleWriteRequest 9 (demo_request WRITE ''data/a'' 6) ?w =
      Inr (?w\<lparr>files := fs', conn := (conn ?w)\<lparr>inbox := map Arrive ps' @ [], outbox := ''1,0,NULL''\<rparr>\<rparr>)"
    and "node_at fs' = (node_at (files ?w))
      ([''srv'', ''data'', ''.versions''] \<mapsto> Dir,
       [''srv'', ''data'', ''.versions'', ''a.7_8''] \<mapsto> File ''first'',
       [''srv'', ''data'', ''a''] \<mapsto> File ''second'')"
    using handleWriteRequest_existing [of ?w 9 "[''data'']" "''a''" "[''sec'', ''ond'']" "''first''"
        "[]" "demo_request WRITE ''data/a'' 6"]
    by (simp add: demo_simps demo_can_receive demo_can_save) blast
  then show ?thesis by (simp add: demo_node)
qed


theorem handleGetRequest_file_witness:
  "\<exists>s'. handleGetRequest 1 (demo_request GET ''data/a'' 0) (demo_world 0 [] []) =
      Inr ((demo_world 0 [] [])\<lparr>conn := s'\<rparr>) \<and> outbox s' = ''1,5,OKfirst''"
proof -
  have "show_int 5 = ''5''" by code_simp
  moreover have "\<not> power_of_ten (Suc (Suc (Suc (Suc (Suc 0)))))" by code_simp
  ultimately show ?thesis
    using handleGetRequest_file [of "demo_world 0 [] []" "[''data'', ''a'']" "demo_request GET ''data/a'' 0" "''first''" 1]
    by (auto simp: demo_simps rel_path_def)
qed

theorem handleGetRequest_missing_witness:
  "handleGetRequest 1 (demo_request GET ''data/b'' 0) (demo_world 0 [] []) =
   Inr ((demo_world 0 [] [])\<lparr>conn := (conn (demo_world 0 [] []))\<lparr>outbox :=
     ''0,0,unable to open and/or get size of the requested file''\<rparr>\<rparr>)"
  using handleGetRequest_missing [of "demo_world 0 [] []" "[''data'', ''b'']" "demo_request GET ''data/b'' 0" 1]
  by (simp add: demo_simps rel_path_def)

theorem handleGetRequest_overflow_witness:
  "handleGetRequest 1 (demo_request GET ''data/.versions/a.1_2'' 0) (demo_world 0 [] []) = Inl BufferOverflow"
  using handleGetRequest_overflow [of "demo_world 0 [] []" "[''data'', ''.versions'', ''a.1_2'']"
      "demo_request GET ''data/.versions/a.1_2'' 0" "''v''" 0 1]
  by (simp add: demo_simps rel_path_def plain_def)

theorem handleGetRequest_directory_witness:
  "handleGetRequest 1000 (demo_request GET ''data'' 0) (demo_world 0 [] []) = Inl OutOfFuel"
proof -
  have "\<not> power_of_ten 9223372036854775807" by (simp add: power_of_ten_def ceil_log10.simps)
  then show ?thesis
    using handleGetRequest_directory [of "demo_world 0 [] []" "[''data'']" "demo_request GET ''data'' 0" 1000]
    by (simp add: demo_simps rel_path_def)
qed

lemma demo_removable: "removable [''data''] ''a'' (demo_files room [])"
  by (simp add: removable_def children_def demo_files_def demo_simps)

theorem handleRemoveRequest_versions_witness:
  "\<exists>w'. handleRemoveRequest (demo_request RM ''data/a'' 0) (demo_world 0 [] []) = Inr w' \<and>
     outbox (conn w') = ''1,0,OK'' \<and>
     node_at (files w') [''srv'', ''data'', ''a''] = None \<and>
     node_at (files w') [''srv'', ''data'', ''.versions'', ''a.1_2''] = None \<and>
     node_at (files w') [''srv'', ''data'', ''ab''] = Some (File ''other'')"
proof -
  let ?w = "demo_world 0 [] []"
  obtain fs' where run: "handleRemoveRequest (demo_request RM ''data/a'' 0) ?w =
      Inr (?w\<lparr>files := fs', conn := (conn ?w)\<lparr>outbox := ''1,0,OK''\<rparr>\<rparr>)"
    and node: "\<And>k. node_at fs' k =
      (if k = [''srv'', ''data'', ''a''] then None
       else if \<exists>v c. k = [''srv'', ''data'', ''.versions'', v] \<and> prefix ''a'' v \<and>
         node_at (files ?w) k = Some (File c) then None
       else node_at (files ?w) k)"
    using handleRemoveRequest_versions [of ?w "[''data'']" "''a''" "demo_request RM ''data/a'' 0" "''first''"]
      demo_removable by (auto simp: demo_simps)
  from run show ?thesis by (simp add: node) (simp add: demo_simps)
qed

theorem handleRemoveRequest_plain_witness:
  "handleRemoveRequest (demo_request RM ''data/.versions/a.1_2'' 0) (demo_world 0 [] []) =
   Inr ((demo_world 0 [] [])\<lparr>
     files := drop_node [''srv'', ''data'', ''.versions'', ''a.1_2''] (demo_files 0 []),
     conn := (conn (demo_world 0 [] []))\<lparr>outbox := ''1,0,OK''\<rparr>\<rparr>)"
  using handleRemoveRequest_plain [of "demo_world 0 [] []" "[''data'', ''.versions'']" "''a.1_2''"
      "demo_request RM ''data/.versions/a.1_2'' 0"]
  by (simp add: demo_simps plain_def)

theorem handleRemoveRequest_other_versions_witness:
  "\<exists>w'. handleRemoveRequest (demo_request RM ''data/a'' 0) (demo_world 0 [] []) = Inr w' \<and>
     node_at (files w') [''srv'', ''data'', ''ab''] = Some (File ''other'') \<and>
     node_at (files w') [''srv'', ''data'', ''.versions'', ''ab.1_2''] = None"
proof -
  have "version_name ''ab'' (1, 2) = ''ab.1_2''" by code_simp
  then show ?thesis
    using handleRemoveRequest_other_versions [of "demo_world 0 [] []" "[''data'']" "''a''"
        "demo_request RM ''data/a'' 0" "''first''" "''b''" "''other''" "(1, 2)" "''w''"] demo_removable
    by (simp add: demo_simps)
qed

definition demo_long :: string where
  "demo_long = replicate 250 CHR ''x''"

lemma demo_long [simp]: "plain demo_long" "length demo_long = 250"
  by (auto simp: plain_def demo_long_def list_eq_iff_nth_eq)

theorem handleWriteRequest_long_version_witness:
  "handleWriteRequest 1 (demo_request WRITE (''data/'' @ demo_long) 0)
     ((demo_world 0 [] [])\<lparr>files := put_node [''srv'', ''data'', demo_long] (File []) (demo_files 0 [])\<rparr>) =
   Inl BufferOverflow"
proof -
  have "wf_fs (put_node [''srv'', ''data'', demo_long] (File []) (demo_files 0 []))"
  proof (rule wf_fs_put)
    have "demo_long \<noteq> ''a''" "demo_long \<noteq> ''ab''" "demo_long \<noteq> ''.versions''"
      by (auto dest: arg_cong [where f = length])
    then show "node_at (demo_files 0 []) [''srv'', ''data'', demo_long] = Some Dir \<Longrightarrow> File [] = Dir"
      by (simp add: demo_node)
  qed (simp_all add: demo_node)
  then show ?thesis
    using handleWriteRequest_long_version [of
        "(demo_world 0 [] [])\<lparr>files := put_node [''srv'', ''data'', demo_long] (File []) (demo_files 0 [])\<rparr>"
        "[''data'']" demo_long "demo_request WRITE (''data/'' @ demo_long) 0" 1]
    by (simp add: MAX_PATH_LEN_def)
qed

theorem handleWriteRequest_no_version_file_witness:
  "handleWriteRequest 1 (demo_request WRITE ''data/a'' 0)
     (demo_world 9 [[''srv'', ''data'', ''.versions'', ''a.7_8'']] []) = Inl NullPointer"
  using handleWriteRequest_no_version_file [of "demo_world 9 [[''srv'', ''data'', ''.versions'', ''a.7_8'']] []"
      "[''data'']" "''a''" "demo_request WRITE ''data/a'' 0" 1]
  by (simp add: demo_simps)

theorem handleWriteRequest_peer_closes_witness:
  "handleWriteRequest 1000 (demo_request WRITE ''data/new/b'' 8)
     (demo_world 50 [] [Arrive ''half'', PeerClosed]) = Inl OutOfFuel"
  using handleWriteRequest_peer_closes [of "demo_world 50 [] [Arrive ''half'', PeerClosed]" 9
      "[''data'', ''new'']" "''b''" "[''half'']" "demo_request WRITE ''data/new/b'' 8" "[]" 1000]
  by (simp add: demo_simps demo_can_receive_new)

theorem handleWriteRequest_recv_fails_witness:
  "\<exists>w'. handleWriteRequest 9 (demo_request WRITE ''data/new/b'' 8)
     (demo_world 50 [] [Arrive ''half'', RecvFails]) = Inr w' \<and>
     outbox (conn w') = ''1,0,NULL'' \<and>
     node_at (files w') [''srv'', ''data'', ''new'', ''b''] = Some (File ''half'')"
  using handleWriteRequest_recv_fails [of "demo_world 50 [] [Arrive ''half'', RecvFails]" 9
      "[''data'', ''new'']" "''b''" "[''half'']" "demo_request WRITE ''data/new/b'' 8" "[]"]
  by (simp add: demo_simps demo_can_receive_new)

end
