(* ===== verification/Thread_Runs.thy ===== *)
theory Thread_Runs
  imports Handler_Runs Thread_Manager
begin

text \<open>
  Concrete runs of the worker thread and of the lock list, one for each theorem about them.
\<close>

lemma demo_text:
  "serializeRequest (Some (demo_request WRITE ''data/a'' 6)) = Inr (Some ''WRITE,6,data/a'')"
  by code_simp

theorem receiveRequest_valid_witness:
  "receiveRequest (conn (demo_world 9 [] [Arrive ''WRITE,6,data/a'', Arrive ''second''])) =
   Inr (Some (demo_request WRITE ''data/a'' 6),
        (conn (demo_world 9 [] [Arrive ''WRITE,6,data/a'', Arrive ''second'']))\<lparr>inbox := [Arrive ''second'']\<rparr>)"
proof (rule receiveRequest_valid [OF _ _ demo_text])
  show "valid_request (demo_request WRITE ''data/a'' 6)"
    by (simp add: valid_request_def LONG_MAX_def power_of_ten_def ceil_log10.simps)
qed (simp_all add: cstr_def MAX_BUFF_SIZE_def)

theorem receiveRequest_no_framing_witness:
  "receiveRequest ((conn (demo_world 9 [] []))\<lparr>inbox := [Arrive ''WRITE,6,data/asecond'']\<rparr>) =
     Inr (Some (demo_request WRITE ''data/asecond'' 6), conn (demo_world 9 [] [])) \<and>
   receiveRequest ((conn (demo_world 9 [] []))\<lparr>inbox := [Arrive ''WRITE,6,data/a'', Arrive ''second'']\<rparr>) =
     Inr (Some (demo_request WRITE ''data/a'' 6), (conn (demo_world 9 [] []))\<lparr>inbox := [Arrive ''second'']\<rparr>)"
proof -
  have "show_int 6 = ''6''" by code_simp
  then show ?thesis
    using receiveRequest_no_framing [of WRITE "''WRITE''" 6 "''data/a''" "''second''" "[]" "conn (demo_world 9 [] [])"]
    by (simp add: LONG_MAX_def cstr_def MAX_BUFF_SIZE_def demo_request_def demo_world_def)
qed

theorem receiveRequest_full_witness:
  "receiveRequest (conn (demo_world 9 [] [Arrive (replicate 2000 CHR ''x'')])) = Inl OutOfBoundsRead"
  by (rule receiveRequest_full) (auto simp: cstr_def MAX_BUFF_SIZE_def)

definition demo_server :: "node_heap \<Rightarrow> file_lock_list \<Rightarrow> net_in list \<Rightarrow> server_t" where
  "demo_server h l evs =
     \<lparr>server_world = demo_world 50 [] evs, file_lock_manager = Some l, lock_heap = h\<rparr>"

lemma demo_server_ready: "server_ready (demo_server [] createFileLockList evs)"
proof -
  have "addresses (createFileLockList, []) = []" by code_simp
  then show ?thesis by (simp add: server_ready_def demo_server_def locks_inv_create all_free_def)
qed

theorem threadClientHandler_releases_witness:
  "\<exists>srv'. threadClientHandler 9 (demo_server [] createFileLockList [Arrive ''RM,0,data/b'']) = Inr srv' \<and>
     server_ready srv' \<and> is_closed (conn (server_world srv'))"
proof -
  let ?srv = "demo_server [] createFileLockList [Arrive ''RM,0,data/b'']"
  have "case threadClientHandler 9 ?srv of Inl _ \<Rightarrow> False | Inr _ \<Rightarrow> True" by code_simp
  then obtain srv' where "threadClientHandler 9 ?srv = Inr srv'" by (auto split: sum.splits)
  with threadClientHandler_releases [OF demo_server_ready this] show ?thesis by blast
qed

theorem threadClientHandler_blocks_witness:
  "threadClientHandler 9
     (demo_server [Some \<lparr>filename = ''data/a'', lock = \<lparr>readers = 0, writer = True\<rparr>, next_lock = None\<rparr>]
        \<lparr>list_length = 1, head_node = Some 0, tail_node = None, mutex = False\<rparr>
        [Arrive ''GET,0,data/a'']) = Inl Blocked"
proof (rule threadClientHandler_blocks [where nd =
      "\<lparr>filename = ''data/a'', lock = \<lparr>readers = 0, writer = True\<rparr>, next_lock = None\<rparr>"])
  let ?h = "[Some \<lparr>filename = ''data/a'', lock = \<lparr>readers = 0, writer = True\<rparr>, next_lock = None\<rparr>]"
  let ?l = "\<lparr>list_length = 1, head_node = Some 0, tail_node = None, mutex = False\<rparr>"
  let ?s = "demo_server ?h ?l [Arrive ''GET,0,data/a'']"
  have "deSerializeRequest (Some ''GET,0,data/a'') = Inr (Some (demo_request GET ''data/a'' 0))"
    by code_simp
  then show "receiveRequest (conn (server_world ?s)) =
      Inr (Some (demo_request GET ''data/a'' 0), (conn (server_world ?s))\<lparr>inbox := []\<rparr>)"
    using receive_piece [of "conn (server_world ?s)" "''GET,0,data/a''" "[]"]
    by (simp add: demo_server_def cstr_def MAX_BUFF_SIZE_def)
  have "addresses (?l, ?h) = [0]" by code_simp
  then show "locks_inv (?l, lock_heap ?s)"
    and "locks_table (?l, lock_heap ?s) (remote_path (demo_request GET ''data/a'' 0)) = Some 0"
    by (simp_all add: locks_inv_def list_inv_def shape_def demo_server_def locks_table_def lock_map_def name_at_def)
qed (simp_all add: demo_server_def)

theorem getLockFor_aliases_witness:
  "resolve (demo_files 0 []) ''data/a'' = resolve (demo_files 0 []) ''data/./a'' \<and>
   (\<exists>a b s'. get_all get_lock [''data/a'', ''data/./a''] (createFileLockList, []) = Inr ([a, b], s') \<and> a \<noteq> b)"
  using getLockFor_aliases [of "demo_files 0 []" "[''data'']" "''a''"] by (simp add: demo_node)

end
