(* ===== verification/System_Runs.thy ===== *)
theory System_Runs
  imports Stored_Files Thread_Runs
begin

text \<open>
  Concrete runs of the whole server: its main thread, two worker threads that overlap, and
  repeated uploads of one file.
\<close>

section \<open>The main thread of the server\<close>

theorem main_server_serves_witness:
  "\<exists>run. main_server 9 3 0 0
       [Accepted (conn (demo_world 50 [] [Arrive ''RM,0,data/b''])) (7, 8) 4 0 77 [ParentWrites, ThreadReads, ThreadFrees],
        Accepted (conn (demo_world 50 [] [PeerClosed])) (9, 0) 5 0 78 [ParentWrites, ThreadReads, ThreadFrees]]
       (demo_world 50 [] []) = Inr (None, run) \<and>
     length (served run) = 2 \<and> (\<forall>s \<in> set (served run). is_closed s) \<and> server_ready (run_state run)"
proof -
  let ?m = "main_server 9 3 0 0
       [Accepted (conn (demo_world 50 [] [Arrive ''RM,0,data/b''])) (7, 8) 4 0 77 [ParentWrites, ThreadReads, ThreadFrees],
        Accepted (conn (demo_world 50 [] [PeerClosed])) (9, 0) 5 0 78 [ParentWrites, ThreadReads, ThreadFrees]]
       (demo_world 50 [] [])"
  have "case ?m of Inr (None, _) \<Rightarrow> True | _ \<Rightarrow> False" by code_simp
  then obtain run where "?m = Inr (None, run)" by (auto split: sum.splits option.splits)
  with main_server_serves [OF this] show ?thesis by auto
qed

section \<open>Threads that overlap\<close>

definition demo_get :: request_t where
  "demo_get = \<lparr>command = GET, remote_path = ''data/a'', data_len = 0\<rparr>"

definition demo_socket :: "net_in list \<Rightarrow> socket" where
  "demo_socket evs = \<lparr>inbox = evs, send_plan = [], outbox = [], is_closed = False\<rparr>"

definition demo_list :: file_lock_list where
  "demo_list = \<lparr>list_length = 1, head_node = Some 0, tail_node = None, mutex = False\<rparr>"

definition demo_heap :: "nat \<Rightarrow> node_heap" where
  "demo_heap k = [Some \<lparr>filename = ''data/a'', lock = \<lparr>readers = k, writer = False\<rparr>, next_lock = None\<rparr>]"

definition demo_system :: "(file_lock_list \<times> node_heap) \<Rightarrow> (phase \<times> socket) list \<Rightarrow> system" where
  "demo_system locks ts =
     \<lparr>sys_files = demo_files 50 [], sys_clock = (7, 8), sys_locks = locks, threads = ts\<rparr>"

lemma demo_get_command [simp]: "command demo_get = GET"
  by (simp add: demo_get_def)

lemma demo_received: "receiveRequest (demo_socket [Arrive ''GET,0,data/a'']) = Inr (Some demo_get, demo_socket [])"
proof -
  have "deSerializeRequest (Some ''GET,0,data/a'') = Inr (Some demo_get)" by code_simp
  then show ?thesis
    using receive_piece [of "demo_socket [Arrive ''GET,0,data/a'']" "''GET,0,data/a''" "[]"]
    by (simp add: demo_socket_def cstr_def MAX_BUFF_SIZE_def)
qed

lemma demo_found:
  "get_lock ''data/a'' (createFileLockList, []) = Inr (0, demo_list, demo_heap 0)"
  "get_lock ''data/a'' (demo_list, demo_heap k) = Inr (0, demo_list, demo_heap k)"
  by (simp_all add: get_lock_def getLockFor_def createFileLockList_def createLockNode_def addLockToList_def
      rwlock_init_def demo_list_def demo_heap_def deref_def)

lemma demo_locked: "rwlock_rdlock 0 (demo_heap k) = Inr (demo_heap (Suc k))"
  by (simp add: rwlock_rdlock_def deref_def demo_heap_def)

abbreviation waiting :: "phase \<times> socket" where
  "waiting \<equiv> (Waiting demo_get 0, demo_socket [])"

abbreviation holding :: "phase \<times> socket" where
  "holding \<equiv> (Holding demo_get 0, demo_socket [])"

lemma run_one: "step n a b \<Longrightarrow> (step n)\<^sup>*\<^sup>* a b"
  by (rule r_into_rtranclp)

lemma run_step: "step n a b \<Longrightarrow> (step n)\<^sup>*\<^sup>* b c \<Longrightarrow> (step n)\<^sup>*\<^sup>* a c"
  by (rule converse_rtranclp_into_rtranclp)

lemma demo_waiting: "reachable n (demo_system (demo_list, demo_heap 0) [waiting, waiting])"
proof -
  let ?s = "demo_socket [Arrive ''GET,0,data/a'']"
  let ?l = "(createFileLockList, [])" and ?l' = "(demo_list, demo_heap 0)"
  let ?r = "(Receiving, ?s)" and ?g = "(Got demo_get, demo_socket [])"
  have path: "remote_path demo_get = ''data/a''" by (simp add: demo_get_def)
  have b: "boot (demo_files 50 []) (7, 8) = demo_system ?l []" by (simp add: boot_def demo_system_def)
  have s1: "step n (demo_system ?l []) (demo_system ?l [?r])"
    using accept [of n "demo_system ?l []" ?s] by (simp add: demo_system_def)
  have s2: "step n (demo_system ?l [?r]) (demo_system ?l [?r, ?r])"
    using accept [of n "demo_system ?l [?r]" ?s] by (simp add: demo_system_def)
  have s3: "step n (demo_system ?l [?r, ?r]) (demo_system ?l [?g, ?r])"
    using receive [of 0 "demo_system ?l [?r, ?r]", OF _ _ demo_received] by (simp add: demo_system_def)
  have s4: "step n (demo_system ?l [?g, ?r]) (demo_system ?l [?g, ?g])"
    using receive [of 1 "demo_system ?l [?g, ?r]", OF _ _ demo_received] by (simp add: demo_system_def)
  have s5: "step n (demo_system ?l [?g, ?g]) (demo_system ?l' [waiting, ?g])"
    using find_lock [of 0 "demo_system ?l [?g, ?g]" demo_get "demo_socket []" 0 ?l' n] demo_found(1) path
    by (simp add: demo_system_def)
  have s6: "step n (demo_system ?l' [waiting, ?g]) (demo_system ?l' [waiting, waiting])"
    using find_lock [of 1 "demo_system ?l' [waiting, ?g]" demo_get "demo_socket []" 0 ?l' n] demo_found(2) path
    by (simp add: demo_system_def)
  have "(step n)\<^sup>*\<^sup>* (demo_system ?l []) (demo_system ?l' [waiting, waiting])"
    by (rule run_step [OF s1
      run_step [OF s2
      run_step [OF s3
      run_step [OF s4
      run_step [OF s5
      run_one [OF s6]]]]]])
  from this [folded b] show ?thesis unfolding reachable_def by blast
qed

lemma demo_holding: "reachable n (demo_system (demo_list, demo_heap 2) [holding, holding])"
proof -
  let ?a = "\<lambda>k ts. demo_system (demo_list, demo_heap k) ts"
  have "step n (?a 0 [waiting, waiting]) (?a (Suc 0) [holding, waiting])"
    using read_lock [of 0 "?a 0 [waiting, waiting]" demo_get 0 "demo_socket []"] demo_locked [of 0]
    by (simp add: demo_system_def)
  moreover have "step n (?a (Suc 0) [holding, waiting]) (?a (Suc (Suc 0)) [holding, holding])"
    using read_lock [of 1 "?a (Suc 0) [holding, waiting]" demo_get 0 "demo_socket []"] demo_locked [of "Suc 0"]
    by (simp add: demo_system_def)
  ultimately show ?thesis
    using demo_waiting [of n] unfolding reachable_def numeral_2_eq_2 by (meson rtranclp.rtrancl_into_rtrancl)
qed

theorem workers_exclusion_witness:
  "\<exists>sys r r'. reachable 1 sys \<and> length (threads sys) = 2 \<and>
     inside (fst (threads sys ! 0)) = Some r \<and> inside (fst (threads sys ! 1)) = Some r' \<and>
     remote_path r = remote_path r' \<and> command r = GET \<and> command r' = GET"
proof -
  let ?sys = "demo_system (demo_list, demo_heap 2) [holding, holding]"
  have "command demo_get = GET \<and> command demo_get = GET"
    by (rule workers_exclusion [OF demo_holding [of 1], of 0 1]) (simp_all add: demo_system_def)
  then show ?thesis using demo_holding [of 1]
    by (intro exI [of _ ?sys] exI [of _ demo_get]) (simp add: demo_system_def)
qed

theorem workers_no_deadlock_witness:
  "(\<exists>h'. rwlock_wrlock 0 (demo_heap 0) = Inr h' \<and> writes demo_get \<or>
         rwlock_rdlock 0 (demo_heap 0) = Inr h' \<and> command demo_get = GET) \<or>
   (\<exists>j < 2. \<exists>q s'.
      [waiting, waiting] ! j = (Ran q 0, s') \<and> (\<exists>h'. rwlock_unlock 0 (demo_heap 0) = Inr h') \<or>
      [waiting, waiting] ! j = (Holding q 0, s'))"
  using workers_no_deadlock [OF demo_waiting [of 1], of 0 demo_get 0 "demo_socket []"]
  by (simp add: demo_system_def numeral_2_eq_2)

theorem thread_serial_witness:
  "\<exists>srv' sys' l'. threadClientHandler 9 (demo_server [] createFileLockList [Arrive ''RM,0,data/b'']) = Inr srv' \<and>
     (step 9)\<^sup>*\<^sup>*
       (demo_system (createFileLockList, []) [(Receiving, demo_socket [Arrive ''RM,0,data/b''])]) sys' \<and>
     sys_files sys' = files (server_world srv') \<and> sys_locks sys' = (l', lock_heap srv') \<and>
     threads sys' = [(Ended, conn (server_world srv'))]"
proof -
  let ?srv = "demo_server [] createFileLockList [Arrive ''RM,0,data/b'']"
  have "case threadClientHandler 9 ?srv of Inl _ \<Rightarrow> False | Inr _ \<Rightarrow> True" by code_simp
  then obtain srv' where run: "threadClientHandler 9 ?srv = Inr srv'" by (auto split: sum.splits)
  from thread_serial [OF run, of createFileLockList
      "demo_system (createFileLockList, []) [(Receiving, demo_socket [Arrive ''RM,0,data/b''])]" 0] run
  show ?thesis
    by (fastforce simp: demo_server_def demo_system_def demo_world_def demo_socket_def locks_inv_create)
qed

section \<open>Versions\<close>

theorem versions_kept_witness:
  "\<exists>fs'. write_all (write_file 9 [''data''] ''a'') [((7, 8), ''second''), ((9, 9), ''third'')] (demo_files 50 []) = Some fs' \<and>
    current_file [''data''] ''a'' fs' = Some ''third'' \<and>
    version_file [''data''] ''a'' fs' (7, 8) = Some ''first'' \<and>
    version_file [''data''] ''a'' fs' (9, 9) = Some ''second''"
proof -
  let ?ws = "[((7, 8), ''second''), ((9, 9), ''third'')] :: ((int \<times> int) \<times> bytes) list"
  have cur: "current_file [''data''] ''a'' (demo_files 50 []) = Some ''first''"
    by (simp add: current_file_def file_content_def demo_node)
  have v: "version_name ''a'' (9, 9) = ''a.9_9''" by code_simp
  have "can_upload 9 [''data''] ''a'' ?ws (demo_files 50 [])"
    by (simp add: can_upload_def cur can_receive_def can_save_def can_make_dirs_def upload_def sends_whole_def
        v demo_simps)
  from versions_kept [OF this cur] obtain fs' where
    "write_all (write_file 9 [''data''] ''a'') ?ws (demo_files 50 []) = Some fs'"
    "current_file [''data''] ''a'' fs' = Some ''third''"
    "\<forall>i < length ?ws. version_file [''data''] ''a'' fs' (fst (?ws ! i)) = Some ((''first'' # map snd ?ws) ! i)"
    by auto
  from this(1,2) this(3) [rule_format, of 0] this(3) [rule_format, of 1] show ?thesis by simp
qed

section \<open>The store\<close>

abbreviation demo_history :: "((int \<times> int) \<times> file_op) list" where
  "demo_history \<equiv> [((7, 8), Put ''a'' ''second''), ((9, 0), Fetch ''a''), ((9, 9), Delete ''ab''), ((9, 9), Fetch ''ab'')]"

abbreviation demo_socket_of :: "net_in list \<Rightarrow> socket" where
  "demo_socket_of evs \<equiv> \<lparr>inbox = evs, send_plan = [], outbox = [], is_closed = False\<rparr>"

definition demo_events :: "accept_result list" where
  "demo_events =
     [Accepted (demo_socket_of [Arrive ''WRITE,6,data/a'', Arrive ''sec'', Arrive ''ond'']) (7, 8) 4 0 77
        [ParentWrites, ThreadReads, ThreadFrees],
      Accepted (demo_socket_of [Arrive ''GET,0,data/a'']) (9, 0) 4 0 78 [ParentWrites, ThreadReads, ThreadFrees],
      Accepted (demo_socket_of [Arrive ''RM,0,data/ab'', PeerClosed]) (9, 9) 4 0 79 [ThreadReads, ParentWrites, ThreadFrees],
      Accepted (demo_socket_of [Arrive ''GET,0,data/ab'']) (9, 9) 4 0 80 [ParentWrites, ThreadReads, ThreadFrees]]"

lemma demo_folder: "folder_ok [''data''] (demo_files 50 [])"
  by (simp add: folder_ok_def demo_simps)

lemma demo_store:
  "current (abs_store [''data''] (demo_files 50 [])) = [''a'' \<mapsto> ''first'', ''ab'' \<mapsto> ''other'']"
  "room (abs_store [''data''] (demo_files 50 [])) = 50"
  by (simp_all add: abs_store_def file_content_def demo_node fun_eq_iff)

lemma demo_texts:
  "request_text (op_request [''data''] (Put ''a'' ''second'')) = ''WRITE,6,data/a''"
  "request_text (op_request [''data''] (Fetch ''a'')) = ''GET,0,data/a''"
  "request_text (op_request [''data''] (Delete ''ab'')) = ''RM,0,data/ab''"
  "request_text (op_request [''data''] (Fetch ''ab'')) = ''GET,0,data/ab''"
  by code_simp+

lemma demo_versions:
  "version_name ''a'' (9, 0) = ''a.9_0''" "version_name ''ab'' (9, 9) = ''ab.9_9''" "\<not> power_of_ten (Suc (Suc (Suc (Suc (Suc (Suc 0))))))" "show_int 6 = ''6''"
  by code_simp+

lemma demo_allowed:
  "allowed (\<lambda>x. can_serve 9 [''data''] (fst x) (snd x)) spec_at demo_history
     (abs_store [''data''] (demo_files 50 []))"
  by (simp add: can_serve_def demo_store demo_texts demo_versions MAX_BUFF_SIZE_def MAX_PATH_LEN_def LONG_MAX_def)

lemma carriesI:
  "request_text (op_request ds x) = text \<Longrightarrow> concat ps = op_bytes x \<Longrightarrow> sched \<in> set thread_orders \<Longrightarrow>
   last sched = ThreadFrees \<Longrightarrow>
   carries ds (t, x) (Accepted (demo_socket_of (Arrive text # map Arrive ps @ evs)) t sd 0 tid sched)"
  by (auto simp: carries_def)

lemma demo_carried: "list_all2 (carries [''data'']) demo_history demo_events"
  using carriesI [OF demo_texts(1), of "[''sec'', ''ond'']" _ _ "[]"] carriesI [OF demo_texts(2), of "[]" _ _ "[]"]
    carriesI [OF demo_texts(3), of "[]" _ _ "[PeerClosed]"] carriesI [OF demo_texts(4), of "[]" _ _ "[]"]
  by (simp add: demo_events_def thread_orders_def)

theorem main_server_implements_store_witness:
  "\<exists>run. main_server 9 3 0 0 demo_events (demo_world 50 [] []) = Inr (None, run) \<and>
    map outbox (served run) = [''1,0,NULL'', ''1,6,OKsecond'', ''1,0,OK'',
      ''0,0,unable to open and/or get size of the requested file''] \<and>
    current (abs_store [''data''] (files (server_world (run_state run)))) = [''a'' \<mapsto> ''second'']"
proof -
  have f: "files (demo_world 50 [] []) = demo_files 50 []" by simp
  have "snd (run_spec spec_at demo_history (abs_store [''data''] (demo_files 50 []))) =
      [''1,0,NULL'', ''1,6,OKsecond'', ''1,0,OK'', ''0,0,unable to open and/or get size of the requested file'']"
    and "current (fst (run_spec spec_at demo_history (abs_store [''data''] (demo_files 50 [])))) =
      [''a'' \<mapsto> ''second'']"
    by (simp_all add: demo_store demo_versions fun_eq_iff)
  with main_server_implements_store [of "[''data'']" "demo_world 50 [] []" 3 0 0 9 demo_history demo_events, unfolded f,
      OF demo_folder _ _ _ demo_allowed demo_carried]
  show ?thesis by auto
qed


lemma demo_allowed_two:
  "allowed (\<lambda>x. can_serve 9 [''data''] (fst x) (snd x)) spec_at [((7, 8), Put ''a'' ''second''), ((9, 9), Delete ''ab'')]
     (abs_store [''data''] (demo_files 50 []))"
  "allowed (\<lambda>x. can_serve 9 [''data''] (fst x) (snd x)) spec_at [((9, 9), Delete ''ab''), ((7, 8), Put ''a'' ''second'')]
     (abs_store [''data''] (demo_files 50 []))"
  by (simp_all add: can_serve_def demo_store demo_texts demo_versions MAX_BUFF_SIZE_def MAX_PATH_LEN_def LONG_MAX_def)


end
