(* ===== verification/Memory_Runs.thy ===== *)
theory Memory_Runs
  imports Server_Memory Client_Memory Client_Runs System_Runs
begin

text \<open>
  Runs for the memory of the programs: a run of the server over two connections, one with a request and one that its client closes
  at once, and a run of the client that removes a file.
\<close>

lemma first_decodes:
  assumes "inbox s = Arrive b # evs" and "cstr b" and "b \<noteq> []" and "length b < MAX_BUFF_SIZE"
    and "deSerializeRequest (Some b) = Inr (Some r)"
  shows "decodes s"
  using receive_piece [OF assms(1-4)] assms(5) by (simp add: decodes_def)

theorem main_server_leaks_witness:
  "\<exists>code run h. main_server_m 9 3 0 0
       [Accepted (conn (demo_world 50 [] [Arrive ''RM,0,data/b''])) (7, 8) 4 0 77 [ParentWrites, ThreadReads, ThreadFrees],
        Accepted (conn (demo_world 50 [] [PeerClosed])) (9, 0) 5 0 78 [ParentWrites, ThreadReads, ThreadFrees]]
       (demo_world 50 [] []) [] = Inr ((code, run), h) \<and> 4 \<le> card (live h) \<and> card (live h) \<le> 10"
proof -
  let ?s = "conn (demo_world 50 [] [Arrive ''RM,0,data/b''])"
  let ?e = "[Accepted ?s (7, 8) 4 0 77 [ParentWrites, ThreadReads, ThreadFrees],
        Accepted (conn (demo_world 50 [] [PeerClosed])) (9, 0) 5 0 78 [ParentWrites, ThreadReads, ThreadFrees]]"
  let ?m = "main_server 9 3 0 0 ?e (demo_world 50 [] [])"
  have "case ?m of Inr (None, _) \<Rightarrow> True | _ \<Rightarrow> False" by code_simp
  then obtain run where run: "?m = Inr (None, run)" by (auto split: sum.splits option.splits)
  have "deSerializeRequest (Some ''RM,0,data/b'') = Inr (Some \<lparr>command = RM, remote_path = ''data/b'', data_len = 0\<rparr>)"
    by code_simp
  then have "decodes ?s" by (rule first_decodes [rotated 4]) (simp_all add: demo_world_def cstr_def MAX_BUFF_SIZE_def)
  then have "1 \<le> length (filter decodes (connections ?e))" by simp
  with main_server_leaks [OF run] show ?thesis by fastforce
qed

theorem main_client_leaks_witness:
  "\<exists>shown w h. main_client_m 3 (demo_argv ''RM'') 3 0 (demo_client ''hello'' [Arrive ''1,0,OK'']) [] = Inr ((0, shown, w), h) \<and>
     card (live h) = 5"
proof -
  let ?m = "main_client 3 (demo_argv ''RM'') 3 0 (demo_client ''hello'' [Arrive ''1,0,OK''])"
  have "case ?m of Inr (code, _) \<Rightarrow> code = 0 | _ \<Rightarrow> False" by code_simp
  then obtain shown w where "?m = Inr (0, shown, w)" by (auto split: sum.splits)
  from main_client_leaks [OF this] show ?thesis by auto
qed

end
