(* ===== verification/Frames.thy ===== *)
theory Frames
  imports Request_Handler
begin

text \<open>
  What the file operations and the handlers leave alone: every node outside a given set of keys stays
  as it is. These facts carry the proofs about handlers that overlap.
\<close>

section \<open>What an operation leaves alone\<close>

definition keeps :: "key set \<Rightarrow> filesys \<Rightarrow> filesys \<Rightarrow> bool" where
  \<comment> \<open>nodes outside \<open>ks\<close> stay as they are; only directories may be new there\<close>
  "keeps ks fs fs' \<longleftrightarrow> wf_fs fs' \<and> same_env fs fs' \<and>
     (\<forall>l x. l \<notin> ks \<longrightarrow> node_at fs l = Some x \<longrightarrow> node_at fs' l = Some x) \<and>
     (\<forall>l c. l \<notin> ks \<longrightarrow> node_at fs' l = Some (File c) \<longrightarrow> node_at fs l = Some (File c))"

lemma keepsD:
  assumes "keeps ks fs fs'"
  shows "wf_fs fs'" "same_env fs fs'" "cwd fs' = cwd fs" "l \<notin> ks \<Longrightarrow> node_at fs l = Some x \<Longrightarrow> node_at fs' l = Some x"
    "l \<notin> ks \<Longrightarrow> node_at fs' l = Some (File c) \<Longrightarrow> node_at fs l = Some (File c)"
proof -
  show "same_env fs fs'" using assms unfolding keeps_def by blast
  then show "cwd fs' = cwd fs" by (simp add: same_env_def)
qed (use assms in \<open>unfold keeps_def, blast\<close>)+

lemma keeps_refl: "wf_fs fs \<Longrightarrow> keeps ks fs fs"
  by (simp add: keeps_def)

lemma keeps_trans: "keeps ks fs fs' \<Longrightarrow> keeps ks fs' fs'' \<Longrightarrow> keeps ks fs fs''"
  unfolding keeps_def by (blast intro: same_env_trans)

lemma keeps_mono: "keeps ks fs fs' \<Longrightarrow> ks \<subseteq> ks' \<Longrightarrow> keeps ks' fs fs'"
  unfolding keeps_def by blast

lemma keeps_mkdir:
  assumes "mkdir path fs = Inr fs'" and "cstr path" and "wf_fs fs"
  shows "keeps ks fs fs'"
  using wf_mkdir [OF assms] assms(1)
  by (auto simp: keeps_def mkdir_def same_env_def split: option.splits if_splits)

lemma cstr_append [simp]: "cstr (s @ t) \<longleftrightarrow> cstr s \<and> cstr t"
  by (auto simp: cstr_def)

lemma cstr_Nil [simp]: "cstr ''''"
  by (simp add: cstr_def)

lemma cstr_strtok: "strtok d s = Some (t, r) \<Longrightarrow> cstr s \<Longrightarrow> cstr t \<and> cstr r"
  by (auto simp: strtok_def cstr_def Let_def split: if_splits dest!: set_takeWhileD in_set_dropD set_dropWhileD)

lemma keeps_mkdirs_loop:
  assumes "mkdirs_loop t cur fs = Inr (ok, fs')" and "wf_fs fs" and "cstr cur"
    and "\<forall>tok rest. t = Some (tok, rest) \<longrightarrow> cstr tok \<and> cstr rest"
  shows "keeps ks fs fs'"
  using assms
proof (induction t cur fs rule: mkdirs_loop.induct)
  case (1 cur fs)
  then show ?case by (simp add: keeps_refl)
next
  case (2 tok rest cur fs)
  let ?cur = "if length cur = 0 then tok else cur @ ''/'' @ tok"
  have c: "cstr ?cur" using "2.prems"(3,4) by (simp add: cstr_def)
  have rest: "\<forall>tok' rest'. strtok (CHR ''/'') rest = Some (tok', rest') \<longrightarrow> cstr tok' \<and> cstr rest'"
    using cstr_strtok "2.prems"(4) by blast
  from "2.prems"(1) have st: "store_string MAX_PATH_LEN ?cur = Inr ?cur"
    by (auto simp: andThen_eq_Inr_conv)
  show ?case
  proof (cases "mkdir ?cur fs")
    case (Inr fs1)
    with "2.prems"(1) st have "mkdirs_loop (strtok (CHR ''/'') rest) ?cur fs1 = Inr (ok, fs')" by simp
    with "2.IH"(2) [OF st Inr] wf_mkdir [OF Inr c "2.prems"(2)] c rest have "keeps ks fs1 fs'" by blast
    with keeps_mkdir [OF Inr c "2.prems"(2)] show ?thesis by (rule keeps_trans)
  next
    case (Inl e)
    with "2.prems" st "2.IH"(1) [OF st Inl] c rest show ?thesis
      by (auto simp: keeps_refl split: if_splits)
  qed
qed

lemma cstr_take: "cstr s \<Longrightarrow> cstr (take i s)"
  by (auto simp: cstr_def dest: in_set_takeD)

lemma keeps_createNestedDirectories:
  assumes "createNestedDirectories path fs = Inr (ok, fs')" and "wf_fs fs" and "cstr path"
  shows "keeps ks fs fs'"
proof -
  from assms(1) obtain dir where dir: "extractDirectory (Some path) (Some MAX_PATH_LEN) = Inr dir"
    by (auto simp: createNestedDirectories_def andThen_eq_Inr_conv)
  have "cstr d" if "dir = Some d" for d
  proof (cases "path = []")
    case True
    with dir that show ?thesis by (simp add: extractDirectory_def)
  next
    case False
    have len: "length path < MAX_PATH_LEN"
      using extractDirectory_overflow [OF _ False] dir by (metis Inl_Inr_False leI)
    from extractDirectory_eq [OF False len] dir that assms(3) show ?thesis
      by (auto simp: cstr_take split: option.splits)
  qed
  with assms dir show ?thesis
    by (auto simp: createNestedDirectories_def keeps_refl dest: cstr_strtok
        split: option.splits if_splits intro!: keeps_mkdirs_loop)
qed

lemma keeps_fwrite:
  assumes "wf_fs fs" and "k \<in> ks"
  shows "keeps ks fs (snd (fwrite k b fs))"
  using wf_fwrite [OF prod.collapse [symmetric] assms(1)] assms(2)
  by (auto simp: keeps_def same_env_def) (auto simp: fwrite_def Let_def split: option.splits node.splits if_splits)

lemma keeps_copy_loop: "copy_loop n f k fs = Inr fs' \<Longrightarrow> wf_fs fs \<Longrightarrow> k \<in> ks \<Longrightarrow> keeps ks fs fs'"
proof (induction n arbitrary: f fs)
  case (Suc n)
  obtain b f' where r: "fread MAX_BUFF_SIZE f = (b, f')" by fastforce
  obtain m fs1 where w: "fwrite k b fs = (m, fs1)" by fastforce
  have one: "keeps ks fs fs1" using keeps_fwrite [OF Suc.prems(2,3), of b] w by simp
  show ?case
  proof (cases "rs_eof f'")
    case True
    with Suc.prems(1) r w one show ?thesis by simp
  next
    case False
    with Suc.prems(1) r w have "copy_loop n f' k fs1 = Inr fs'" by simp
    with Suc.IH [OF this] keepsD(1) [OF one] Suc.prems(3) one show ?thesis by (blast intro: keeps_trans)
  qed
qed simp

lemma keeps_fopen_wb:
  assumes "fopen_wb fs path = Some (k, fs')" and "cstr path" and "wf_fs fs" and "k \<in> ks"
  shows "keeps ks fs fs'"
  using wf_fopen_wb [OF assms(1-3)] assms(1,4)
  by (auto simp: keeps_def fopen_wb_def same_env_def split: option.splits if_splits)

lemma keeps_remove_join:
  assumes "remove (join cs) fs = Inr fs'" and "rel_path cs" and "wf_fs fs" and "cwd fs @ cs \<in> ks"
  shows "keeps ks fs fs'"
  using wf_remove [OF assms(1,3)] assms
  by (auto simp: keeps_def remove_join same_env_def split: option.splits if_splits)

definition hidden :: "filesys \<Rightarrow> key set" where
  \<comment> \<open>what is in a version folder\<close>
  "hidden fs = {cwd fs @ ds @ [''.versions'', v] | ds v. True}"

lemma hidden_cong: "same_env fs fs' \<Longrightarrow> hidden fs' = hidden fs"
  by (simp add: hidden_def same_env_def)

lemma hiddenI [intro]: "cwd fs @ ds @ [''.versions'', v] \<in> hidden fs"
  by (auto simp: hidden_def)

lemma not_hidden: "''.versions'' \<notin> set p \<Longrightarrow> cwd fs @ p \<notin> hidden fs"
  by (auto simp: hidden_def)

lemma keeps_save:
  assumes run: "saveCurrentVersion n (join (ds @ [f])) w = Inr (ok, w')" and wf: "wf_fs (files w)"
    and ds: "ds \<noteq> []" and pl: "\<forall>c \<in> set (ds @ [f]). plain c"
  shows "keeps (hidden (files w)) (files w) (files w') \<and> conn w' = conn w \<and> clock w' = clock w"
proof (cases "fopen_rb (files w) (join (ds @ [f]))")
  case None
  with run wf show ?thesis by (auto simp: saveCurrentVersion_def keeps_refl)
next
  case (Some input)
  let ?fs = "files w" and ?v = "version_name f (clock w)"
  have f: "CHR ''/'' \<notin> set f" "f \<noteq> []" and rel: "rel_path (ds @ [f])" and plv: "plain ?v"
    and relv: "rel_path (ds @ [''.versions'', ?v])"
    using pl version_name_plain by (simp_all add: plain_def rel_path_def)
  have len: "length (join (ds @ [f])) < MAX_PATH_LEN"
    using run Some extractDirectory_overflow [OF _ rel_path_join_nonempty [OF rel], of MAX_PATH_LEN]
    by (cases "length (join (ds @ [f])) < MAX_PATH_LEN") (simp_all add: saveCurrentVersion_def)
  from run Some obtain fs1 fs2 fs3 b k where
    mk: "createNestedDirectories (join (ds @ [''.versions'', ?v])) ?fs = Inr (b, fs1)"
    and op: "fopen_wb fs1 (join (ds @ [''.versions'', ?v])) = Some (k, fs2)"
    and cp: "copyFile n (Some input) (Some k) fs2 = Inr (ok, fs3)" and w': "w' = w\<lparr>files := fs3\<rparr>"
    using extractDirectory_join [OF f len] extractBasename_join [OF f len]
    by (auto simp: saveCurrentVersion_def andThen_eq_Inr_conv makeVersionName_def join_versions [OF ds]
        join_version_file [OF ds, simplified] split: option.splits)
  have c: "cstr (join (ds @ [''.versions'', ?v]))"
    using relv by (intro cstr_join) (simp add: rel_path_def)
  note k1 = keeps_createNestedDirectories [OF mk wf c, of "hidden ?fs"]
  have "k = cwd ?fs @ ds @ [''.versions'', ?v]"
    using op fopen_wb_join [OF keepsD(1) [OF k1] relv] keepsD(3) [OF k1] by (auto split: if_splits)
  then have k: "k \<in> hidden ?fs" by auto
  note k2 = keeps_fopen_wb [OF op c keepsD(1) [OF k1] k]
  from cp have "copy_loop n input k fs2 = Inr fs3" by (auto simp: copyFile_def andThen_eq_Inr_conv)
  from keeps_copy_loop [OF this keepsD(1) [OF k2] k] k1 k2 show ?thesis
    by (auto simp: w' intro: keeps_trans)
qed

lemma respond_quiet: "respond ok msg w = Inr w' \<Longrightarrow> files w' = files w \<and> clock w' = clock w"
  by (auto simp: respond_def andThen_eq_Inr_conv)

lemma keeps_remove_versions:
  assumes "remove_versions f (join (ds @ [''.versions''])) es ok fs = Inr (ok', fs')" and "wf_fs fs"
    and "ds \<noteq> []" and "\<forall>c \<in> set ds. plain c" and "\<forall>(v, n) \<in> set es. n \<noteq> Dir \<longrightarrow> plain v"
  shows "keeps (hidden fs) fs fs'"
  using assms
proof (induction es arbitrary: ok fs)
  case (Cons e es)
  obtain v n where e: "e = (v, n)" by force
  let ?rest = "\<lambda>ok fs. remove_versions f (join (ds @ [''.versions''])) es ok fs"
  have es: "\<forall>(v, n) \<in> set es. n \<noteq> Dir \<longrightarrow> plain v" using Cons.prems(5) by simp
  show ?case
  proof (cases "\<exists>ok1. ?rest ok1 fs = Inr (ok', fs')")
    case True
    with Cons.IH [OF _ Cons.prems(2-4) es] show ?thesis by blast
  next
    case False
    with Cons.prems(1) obtain fs1 where n: "n \<noteq> Dir" and rest: "?rest True fs1 = Inr (ok', fs')"
      and rm: "remove (join (ds @ [''.versions'', v])) fs = Inr fs1"
      using join_version_file [OF Cons.prems(3), of v]
      by (auto simp: e andThen_eq_Inr_conv split: if_splits sum.splits)
    have "rel_path (ds @ [''.versions'', v])"
      using Cons.prems(4,5) n by (auto simp: e rel_path_def plain_def)
    from keeps_remove_join [OF rm this Cons.prems(2), of "hidden fs"] have one: "keeps (hidden fs) fs fs1" by auto
    with Cons.IH [OF rest keepsD(1) [OF one] Cons.prems(3,4) es] hidden_cong [OF keepsD(2) [OF one]]
    show ?thesis by (auto intro: keeps_trans)
  qed
qed (simp add: keeps_refl)

lemma handleRemove_cases:
  \<comment> \<open>either nothing has happened, or the file is removed and then only versions\<close>
  assumes run: "handleRemoveRequest r w = Inr w'" and wf: "wf_fs (files w)" and path: "remote_path r = join (ds @ [f])"
    and ds: "ds \<noteq> []" and pl: "\<forall>c \<in> set (ds @ [f]). plain c"
  obtains "respond False ''unable to remove file'' w = Inr w'"
  | fs1 fs2 ok msg where "remove (join (ds @ [f])) (files w) = Inr fs1" and "keeps (hidden (files w)) fs1 fs2"
      and "respond ok msg (w\<lparr>files := fs2\<rparr>) = Inr w'" and "msg \<notin> {'''', ''unable to remove file''}"
proof -
  let ?fs = "files w"
  have f: "CHR ''/'' \<notin> set f" "f \<noteq> []" and rel: "rel_path (ds @ [f])" and relv: "rel_path (ds @ [''.versions''])"
    using pl by (simp_all add: plain_def rel_path_def)
  have ne: "join (ds @ [f]) \<noteq> ''''" using rel_path_join_nonempty [OF rel] .
  show thesis
  proof (cases "remove (join (ds @ [f])) ?fs")
    case (Inl e)
    with run ne that(1) show thesis by (simp add: handleRemoveRequest_def path)
  next
    case (Inr fs1)
    have one: "wf_fs fs1" "same_env ?fs fs1" using keepsD [OF keeps_remove_join [OF Inr rel wf insertI1]] by auto
    have len: "length (join (ds @ [f])) < MAX_PATH_LEN"
      using run Inr ne extractDirectory_overflow [OF _ ne, of MAX_PATH_LEN]
      by (cases "length (join (ds @ [f])) < MAX_PATH_LEN") (simp_all add: handleRemoveRequest_def path Let_def)
    show thesis
    proof (cases "opendir fs1 (join (ds @ [''.versions'']))")
      case None
      with run Inr ne extractDirectory_join [OF f len] extractBasename_join [OF f len]
      have "respond True ''OK'' (w\<lparr>files := fs1\<rparr>) = Inr w'"
        by (auto simp: handleRemoveRequest_def path Let_def andThen_eq_Inr_conv join_versions [OF ds])
      from that(2) [OF Inr keeps_refl [OF one(1)] this] show thesis by simp
    next
      case (Some d)
      then have d: "d = cwd fs1 @ ds @ [''.versions'']"
        using opendir_join [OF one(1) relv] by (auto split: if_splits)
      with run Inr ne Some extractDirectory_join [OF f len] extractBasename_join [OF f len]
      obtain ok fs2 where loop: "remove_versions f (join (ds @ [''.versions''])) (dir_entries fs1 d) True fs1 = Inr (ok, fs2)"
        and resp: "respond ok (if ok then ''OK'' else ''ERROR: unable to remove all prior versions of this file'')
          (w\<lparr>files := fs2\<rparr>) = Inr w'"
        by (auto simp: handleRemoveRequest_def path Let_def andThen_eq_Inr_conv join_versions [OF ds] split: if_splits)
      have "\<forall>(v, n) \<in> set (dir_entries fs1 d). n \<noteq> Dir \<longrightarrow> plain v"
        using set_children [OF one(1), of _ _ d] wf_fs_parent(2) [OF one(1)]
        by (fastforce simp: dir_entries_def)
      from keeps_remove_versions [OF loop one(1) ds _ this] pl hidden_cong [OF one(2)]
      have "keeps (hidden ?fs) fs1 fs2" by simp
      from that(2) [OF Inr this resp] show thesis by (simp split: if_splits)
    qed
  qed
qed

lemma keeps_handleRemove:
  assumes run: "handleRemoveRequest r w = Inr w'" and wf: "wf_fs (files w)" and path: "remote_path r = join (ds @ [f])"
    and ds: "ds \<noteq> []" and pl: "\<forall>c \<in> set (ds @ [f]). plain c"
  shows "keeps (insert (cwd (files w) @ ds @ [f]) (hidden (files w))) (files w) (files w') \<and> clock w' = clock w"
  using assms
proof (cases rule: handleRemove_cases)
  case 1
  with respond_quiet keeps_refl [OF wf] show ?thesis by metis
next
  case (2 fs1 fs2 ok msg)
  have "rel_path (ds @ [f])" using pl by (simp add: rel_path_def)
  from keeps_remove_join [OF 2(1) this wf insertI1] 2(2) keeps_mono [OF _ subset_insertI]
  have "keeps (insert (cwd (files w) @ ds @ [f]) (hidden (files w))) (files w) fs2" by (blast intro: keeps_trans)
  with respond_quiet [OF 2(3)] show ?thesis by simp
qed

lemma handleRemove_gone:
  \<comment> \<open>what the answer of \<open>RM\<close> says about the file\<close>
  assumes run: "handleRemoveRequest r w = Inr w'" and wf: "wf_fs (files w)" and path: "remote_path r = join (ds @ [f])"
    and ds: "ds \<noteq> []" and pl: "\<forall>c \<in> set (ds @ [f]). plain c" and vis: "''.versions'' \<notin> set (ds @ [f])"
    and whole: "sends_whole (conn w)"
  shows "if outbox (conn w') = outbox (conn w) @ ''0,0,unable to remove file'' then files w' = files w
    else \<forall>c. node_at (files w') (cwd (files w) @ ds @ [f]) \<noteq> Some (File c)"
  using run wf path ds pl
proof (cases rule: handleRemove_cases)
  case 1
  with respond_whole [OF whole, of "''unable to remove file''" False] show ?thesis by auto
next
  case (2 fs1 fs2 ok msg)
  have rel: "rel_path (ds @ [f])" using pl by (simp add: rel_path_def)
  have "node_at fs1 (cwd (files w) @ ds @ [f]) = None"
    using 2(1) by (auto simp: remove_join [OF wf rel] split: option.splits if_splits)
  with keepsD(5) [OF 2(2) not_hidden [OF vis]] have "\<forall>c. node_at fs2 (cwd (files w) @ ds @ [f]) \<noteq> Some (File c)" by force
  moreover have "outbox (conn w') = outbox (conn w) @ (if ok then ''1'' else ''0'') @ '',0,'' @ msg" and "files w' = fs2"
    using 2(3,4) respond_whole [of "w\<lparr>files := fs2\<rparr>" msg ok] whole by auto
  ultimately show ?thesis using 2(4) by auto
qed

end
