(* ===== verification/Overlap.thy ===== *)
theory Overlap
  imports Frames Workers
begin

text \<open>
  The handlers of \<open>WRITE\<close> and \<open>GET\<close> cut into the calls that touch the files or the socket, so that the
  steps of other handlers may come between. A path in its plain spelling stands for its file. Each task has an
  invariant over the file of its path; its own steps establish it (\<open>step_ok\<close>), and the steps of a task with
  another path, or of two \<open>GET\<close>s, keep it (\<open>job_inv_other\<close>), by the lemmas of theory \<open>Frames\<close>.
\<close>

section \<open>The handlers as tasks\<close>

datatype task =
    Begin
  | Saving               \<comment> \<open>\<open>WRITE\<close>: the directories exist\<close>
  | Storing              \<comment> \<open>\<open>WRITE\<close>: the version is saved\<close>
  | Taking key int bool  \<comment> \<open>the loop of \<open>receiveFileContents\<close> on an open file: \<open>remaining\<close>, \<open>success\<close>\<close>
  | Replying bool
  | Reading              \<comment> \<open>\<open>GET\<close>: the response is sent\<close>
  | Giving key nat       \<comment> \<open>the loop of \<open>sendFileContents\<close> on an open file at a position\<close>
  | Finished

definition live_stream :: "filesys \<Rightarrow> key \<Rightarrow> nat \<Rightarrow> rstream" where
  \<comment> \<open>an open file as it is now\<close>
  "live_stream fs k pos =
     \<lparr>rs_data = (case node_at fs k of Some (File c) \<Rightarrow> Some c | _ \<Rightarrow> None), rs_pos = pos, rs_eof = False\<rparr>"

definition receive_step :: "key \<Rightarrow> int \<Rightarrow> bool \<Rightarrow> world \<Rightarrow> stop + task \<times> world" where
  \<comment> \<open>one round of the loop of \<open>receiveFileContents\<close>, or its end\<close>
  [simp]: "receive_step k remaining success w =
     (if 0 < remaining then
        andThen (recv MAX_BUFF_SIZE (conn w)) (\<lambda>(bytes_received, buffer, s').
          if bytes_received < 0 then Inr (Replying success, w\<lparr>conn := s'\<rparr>)
          else
            (let (bytes_written, fs') = fwrite k buffer (files w)
             in Inr (Taking k (remaining - bytes_received) (success \<and> int bytes_written = bytes_received),
                     w\<lparr>files := fs', conn := s'\<rparr>)))
      else Inr (Replying success, w))"

definition send_step :: "key \<Rightarrow> nat \<Rightarrow> world \<Rightarrow> task \<times> world" where
  \<comment> \<open>one round of the loop of \<open>sendFileContents\<close>\<close>
  [simp]: "send_step k pos w =
     (let (buffer, f') = fread MAX_BUFF_SIZE (live_stream (files w) k pos);
          (_, s') = sendALL buffer (conn w)
      in (if rs_eof f' then Finished else Giving k (rs_pos f'), w\<lparr>conn := s'\<rparr>))"

fun task_step :: "nat \<Rightarrow> request_t \<Rightarrow> task \<Rightarrow> world \<Rightarrow> stop + task \<times> world" where
  "task_step n r Begin w =
     (case command r of
        WRITE \<Rightarrow>
          andThen (createNestedDirectories (remote_path r) (files w)) (\<lambda>(_, fs1). Inr (Saving, w\<lparr>files := fs1\<rparr>))
      | GET \<Rightarrow>
          (let source_length = getFileSize (files w) (remote_path r)
           in if source_length < 0 then
                andThen (buildAndSendResponse False 0
                          (Some ''unable to open and/or get size of the requested file'') (conn w))
                  (\<lambda>(_, s1). Inr (Finished, w\<lparr>conn := s1\<rparr>))
              else
                andThen (buildAndSendResponse True source_length (Some ''OK'') (conn w))
                  (\<lambda>(_, s1). Inr (Reading, w\<lparr>conn := s1\<rparr>)))
      | _ \<Rightarrow> andThen (run_handler n r w) (\<lambda>w'. Inr (Finished, w')))"
| "task_step n r Saving w =
     andThen (saveCurrentVersion n (remote_path r) w) (\<lambda>(ok, w').
       Inr (if ok then Storing else Replying False, w'))"
| "task_step n r Storing w =
     (case fopen_wb (files w) (remote_path r) of
        None \<Rightarrow> Inr (Replying False, w)
      | Some (k, fs1) \<Rightarrow> Inr (Taking k (data_len r) True, w\<lparr>files := fs1\<rparr>))"
| "task_step n r (Taking k remaining success) w = receive_step k remaining success w"
| "task_step n r (Replying success) w =
     andThen (buildAndSendResponse success 0 (Some '''') (conn w)) (\<lambda>(_, s1). Inr (Finished, w\<lparr>conn := s1\<rparr>))"
| "task_step n r Reading w =
     (case resolve (files w) (remote_path r) of
        None \<Rightarrow> Inr (Finished, w)
      | Some k \<Rightarrow> if node_at (files w) k = None then Inr (Finished, w) else Inr (Giving k 0, w))"
| "task_step n r (Giving k pos) w = Inr (send_step k pos w)"
| "task_step n r Finished w = Inl Blocked"

section \<open>A task by itself is the handler\<close>

definition task_move :: "nat \<Rightarrow> request_t \<Rightarrow> task \<times> world \<Rightarrow> task \<times> world \<Rightarrow> bool" where
  "task_move n r tw tw' \<longleftrightarrow> task_step n r (fst tw) (snd tw) = Inr tw'"

abbreviation task_runs :: "nat \<Rightarrow> request_t \<Rightarrow> task \<times> world \<Rightarrow> task \<times> world \<Rightarrow> bool" where
  "task_runs n r \<equiv> (task_move n r)\<^sup>*\<^sup>*"

lemma task_runs_step:
  "task_step n r t w = Inr tw1 \<Longrightarrow> task_runs n r tw1 tw2 \<Longrightarrow> task_runs n r (t, w) tw2"
  by (rule converse_rtranclp_into_rtranclp [of "task_move n r"]) (simp_all add: task_move_def)

lemma task_runs_one: "task_step n r t w = Inr tw \<Longrightarrow> task_runs n r (t, w) tw"
  by (rule r_into_rtranclp) (simp add: task_move_def)

lemma taking_runs:
  "receive_loop m rem ok k (files w) (conn w) = Inr (ok', fs', s') \<Longrightarrow>
   task_runs n r (Taking k rem ok, w) (Replying ok', w\<lparr>files := fs', conn := s'\<rparr>)"
proof (induction m arbitrary: rem ok w)
  case 0
  then show ?case
    by (cases "0 < rem") (simp_all add: task_runs_one)
next
  case (Suc m)
  show ?case
  proof (cases "0 < rem")
    case False
    with Suc.prems show ?thesis by (simp add: task_runs_one)
  next
    case True
    with Suc.prems obtain b buf s1 where recv: "recv MAX_BUFF_SIZE (conn w) = Inr (b, buf, s1)"
      by (subst (asm) receive_loop.simps) (auto simp: andThen_eq_Inr_conv)
    show ?thesis
    proof (cases "b < 0")
      case neg: True
      with Suc.prems True recv have "ok' = ok" "fs' = files w" "s' = s1"
        by (subst (asm) receive_loop.simps, simp)+
      with True recv neg show ?thesis by (simp add: task_runs_one)
    next
      case False
      obtain c fs1 where w: "fwrite k buf (files w) = (c, fs1)" by force
      let ?w1 = "w\<lparr>files := fs1, conn := s1\<rparr>"
      from Suc.prems True recv False w
      have "receive_loop m (rem - b) (ok \<and> int c = b) k (files ?w1) (conn ?w1) = Inr (ok', fs', s')"
        by (subst (asm) receive_loop.simps) simp
      from Suc.IH [OF this] True recv False w show ?thesis
        by (intro task_runs_step [of n r "Taking k rem ok" w "(Taking k (rem - b) (ok \<and> int c = b), ?w1)"])
          simp_all
    qed
  qed
qed

lemma giving_runs:
  assumes "sendFile_loop m (live_stream (files w) k pos) (conn w) = Inr (b, s')"
  shows "task_runs n r (Giving k pos, w) (Finished, w\<lparr>conn := s'\<rparr>)"
  using assms
proof (induction m arbitrary: pos w)
  case (Suc m)
  obtain buf f' where f': "fread MAX_BUFF_SIZE (live_stream (files w) k pos) = (buf, f')" by fastforce
  obtain ok s1 where s1: "sendALL buf (conn w) = (ok, s1)" by fastforce
  show ?case
  proof (cases "rs_eof f'")
    case True
    with Suc.prems f' s1 have "s' = s1" by (cases ok) simp_all
    with f' s1 True show ?thesis by (simp add: task_runs_one)
  next
    case False
    let ?w1 = "w\<lparr>conn := s1\<rparr>"
    have "f' = live_stream (files ?w1) k (rs_pos f')"
      using f' False by (auto simp: fread_def live_stream_def Let_def split: option.splits node.splits)
    with Suc.prems f' s1 False
    have "sendFile_loop m (live_stream (files ?w1) k (rs_pos f')) (conn ?w1) = Inr (b, s')"
      by (cases ok) simp_all
    from Suc.IH [OF this] f' s1 False show ?thesis
      by (intro task_runs_step [of n r "Giving k pos" w "(Giving k (rs_pos f'), ?w1)"]) simp_all
  qed
qed simp

lemma task_refines_write:
  assumes run: "run_handler n r w = Inr w'" and WRITE: "command r = WRITE"
  shows "task_runs n r (Begin, w) (Finished, w')"
proof -
  from run WRITE obtain b fs1 ok w2 ok' w3 b' s4 where
    mk: "createNestedDirectories (remote_path r) (files w) = Inr (b, fs1)"
    and save: "saveCurrentVersion n (remote_path r) (w\<lparr>files := fs1\<rparr>) = Inr (ok, w2)"
    and recv: "(if ok then receiveFileContents n (remote_path r) (data_len r) w2 else Inr (False, w2)) = Inr (ok', w3)"
    and reply: "buildAndSendResponse ok' 0 (Some '''') (conn w3) = Inr (b', s4)" and w': "w' = w3\<lparr>conn := s4\<rparr>"
    by (auto simp: run_handler_def handleWriteRequest_def andThen_eq_Inr_conv)
  have last: "task_runs n r (Replying ok', w3) (Finished, w')"
    using reply by (simp add: w' task_runs_one)
  have "task_runs n r (if ok then Storing else Replying False, w2) (Finished, w')"
  proof (cases ok)
    case False
    with recv last show ?thesis by simp
  next
    case True
    show ?thesis
    proof (cases "fopen_wb (files w2) (remote_path r)")
      case None
      with True recv last show ?thesis
        by (intro task_runs_step [of n r _ w2 "(Replying ok', w3)"]) (simp_all add: receiveFileContents_def)
    next
      case (Some kf)
      obtain k fs2 where kf: "kf = (k, fs2)" by force
      let ?w = "w2\<lparr>files := fs2\<rparr>"
      from True recv Some kf obtain fs3 s3 where
        loop: "receive_loop n (data_len r) True k (files ?w) (conn ?w) = Inr (ok', fs3, s3)"
        and w3: "w3 = w2\<lparr>files := fs3, conn := s3\<rparr>"
        by (auto simp: receiveFileContents_def andThen_eq_Inr_conv)
      from taking_runs [OF loop] last have "task_runs n r (Taking k (data_len r) True, ?w) (Finished, w')"
        by (auto simp: w3 intro: rtranclp_trans)
      with True Some kf show ?thesis
        by (intro task_runs_step [of n r _ w2 "(Taking k (data_len r) True, ?w)"]) simp_all
    qed
  qed
  moreover have "task_step n r Saving (w\<lparr>files := fs1\<rparr>) = Inr (if ok then Storing else Replying False, w2)"
    using save by simp
  ultimately have "task_runs n r (Saving, w\<lparr>files := fs1\<rparr>) (Finished, w')" by (rule task_runs_step [rotated])
  moreover have "task_step n r Begin w = Inr (Saving, w\<lparr>files := fs1\<rparr>)" using WRITE mk by simp
  ultimately show ?thesis by (rule task_runs_step [rotated])
qed

lemma task_refines_get:
  assumes run: "run_handler n r w = Inr w'" and GET: "command r = GET"
  shows "task_runs n r (Begin, w) (Finished, w')"
proof -
  let ?len = "getFileSize (files w) (remote_path r)"
  show ?thesis
  proof (cases "?len < 0")
    case True
    with GET run show ?thesis
      by (auto simp: run_handler_def handleGetRequest_def andThen_eq_Inr_conv intro!: task_runs_one)
  next
    case False
    with GET run obtain b s1 b' where
      reply: "buildAndSendResponse True ?len (Some ''OK'') (conn w) = Inr (b, s1)"
      and give: "sendFileContents n (remote_path r) ?len (w\<lparr>conn := s1\<rparr>) = Inr (b', w')"
      by (auto simp: run_handler_def handleGetRequest_def andThen_eq_Inr_conv Let_def)
    let ?w = "w\<lparr>conn := s1\<rparr>"
    from False obtain k where k: "resolve (files w) (remote_path r) = Some k" "node_at (files w) k \<noteq> None"
      by (auto simp: getFileSize_def fopen_rb_def split: option.splits)
    then have "fopen_rb (files w) (remote_path r) = Some (live_stream (files w) k 0)"
      by (auto simp: fopen_rb_def live_stream_def split: option.splits node.splits)
    with give obtain s' where loop: "sendFile_loop n (live_stream (files ?w) k 0) (conn ?w) = Inr (b', s')"
      and w': "w' = ?w\<lparr>conn := s'\<rparr>"
      by (auto simp: sendFileContents_def andThen_eq_Inr_conv)
    have "task_step n r Reading ?w = Inr (Giving k 0, ?w)" using k by simp
    moreover have "task_runs n r (Giving k 0, ?w) (Finished, w')"
      unfolding w' by (rule giving_runs [OF loop])
    ultimately have "task_runs n r (Reading, ?w) (Finished, w')" by (rule task_runs_step)
    moreover have "task_step n r Begin w = Inr (Reading, ?w)" using GET False reply by (simp add: Let_def)
    ultimately show ?thesis by (rule task_runs_step [rotated])
  qed
qed

text \<open>
  The tasks are the handlers cut into steps: whatever a handler does to its files and its socket when it returns, its task does by itself.
\<close>

lemma task_refines_handler:
  assumes "run_handler n r w = Inr w'"
  shows "task_runs n r (Begin, w) (Finished, w')"
proof (cases "command r")
  case WRITE
  with assms show ?thesis by (rule task_refines_write)
next
  case GET
  with assms show ?thesis by (rule task_refines_get)
next
  case RM
  with assms show ?thesis by (intro task_runs_one) simp
next
  case LS
  with assms show ?thesis by (intro task_runs_one) simp
next
  case UNKNOWN
  with assms show ?thesis by (intro task_runs_one) simp
qed

section \<open>Handlers that overlap\<close>

fun arrivals :: "net_in list \<Rightarrow> bytes" where
  \<comment> \<open>all bytes that still come\<close>
  "arrivals [] = []"
| "arrivals (Arrive b # evs) = b @ arrivals evs"
| "arrivals (PeerClosed # evs) = []"
| "arrivals (RecvFails # evs) = arrivals evs"

definition clean :: "request_t \<Rightarrow> bool" where
  \<comment> \<open>a path in its plain spelling, in some folder, but not in a version folder\<close>
  "clean r \<longleftrightarrow>
     (let p = split_slash (remote_path r) in 2 \<le> length p \<and> (\<forall>c \<in> set p. plain c \<and> c \<noteq> ''.versions''))"

definition rkey :: "filesys \<Rightarrow> request_t \<Rightarrow> key" where
  "rkey fs r = cwd fs @ split_slash (remote_path r)"

definition compatible :: "request_t \<Rightarrow> request_t \<Rightarrow> bool" where
  \<comment> \<open>what the read/write lock of a path allows at the same time\<close>
  "compatible r q \<longleftrightarrow> remote_path r \<noteq> remote_path q \<or> command r = GET \<and> command q = GET"

definition header :: "bytes \<Rightarrow> bytes" where
  "header c = ''1,'' @ show_int (int (length c)) @ '',OK''"

definition stored :: "filesys \<Rightarrow> request_t \<Rightarrow> socket \<Rightarrow> bool" where
  \<comment> \<open>the file of the request is what the connection brought, as much as was asked for, unless a \<open>recv\<close> failed\<close>
  "stored fs r s0 \<longleftrightarrow>
     (\<exists>got. node_at fs (rkey fs r) = Some (File got) \<and> prefix got (arrivals (inbox s0)) \<and>
        (RecvFails \<notin> set (inbox s0) \<longrightarrow> data_len r \<le> int (length got)))"

definition job_inv :: "filesys \<Rightarrow> request_t \<Rightarrow> socket \<Rightarrow> task \<Rightarrow> socket \<Rightarrow> bool" where
  "job_inv fs r s0 t s \<longleftrightarrow>
     (t \<noteq> Finished \<longrightarrow> sends_whole s \<and> (RecvFails \<notin> set (inbox s0) \<longrightarrow> RecvFails \<notin> set (inbox s))) \<and>
     (case t of
        Begin \<Rightarrow> s = s0
      | Saving \<Rightarrow> s = s0 \<and> command r = WRITE
      | Storing \<Rightarrow> s = s0 \<and> command r = WRITE
      | Taking k remaining success \<Rightarrow>
          command r = WRITE \<and> k = rkey fs r \<and>
          outbox s = outbox s0 \<and>
          (\<exists>got. node_at fs k = Some (File got) \<and>
            (success \<longrightarrow> arrivals (inbox s0) = got @ arrivals (inbox s) \<and> int (length got) = data_len r - remaining))
      | Replying success \<Rightarrow>
          command r = WRITE \<and> outbox s = outbox s0 \<and> (success \<longrightarrow> stored fs r s0)
      | Reading \<Rightarrow>
          command r = GET \<and>
          (\<exists>x. node_at fs (rkey fs r) = Some x \<and> (\<forall>c. x = File c \<longrightarrow> outbox s = outbox s0 @ header c))
      | Giving k pos \<Rightarrow>
          command r = GET \<and> k = rkey fs r \<and>
          (\<exists>x. node_at fs k = Some x \<and>
            (\<forall>c. x = File c \<longrightarrow> pos \<le> length c \<and> outbox s = outbox s0 @ header c @ take pos c))
      | Finished \<Rightarrow>
          (command r = WRITE \<longrightarrow>
            outbox s = outbox s0 @ ''1,0,NULL'' \<and> stored fs r s0 \<or> outbox s = outbox s0 @ ''0,0,NULL'') \<and>
          (command r = GET \<longrightarrow>
            (\<exists>c. node_at fs (rkey fs r) = Some (File c) \<and> outbox s = outbox s0 @ header c @ c) \<or>
            outbox s = outbox s0 @ ''0,0,unable to open and/or get size of the requested file'') \<and>
          (command r = RM \<longrightarrow> outbox s \<noteq> outbox s0 @ ''0,0,unable to remove file'' \<longrightarrow>
            (\<forall>c. node_at fs (rkey fs r) \<noteq> Some (File c))))"

subsection \<open>Paths\<close>

lemma join_split_slash: "join (split_slash s) = s"
proof (induction s)
  case (Cons c s)
  obtain w ws where w: "split_slash s = w # ws" by (cases "split_slash s") auto
  with Cons.IH show ?case by (cases ws) auto
qed simp

lemma clean_path:
  assumes "clean r"
  obtains ds f where "ds \<noteq> []" and "\<forall>c \<in> set (ds @ [f]). plain c" and "''.versions'' \<notin> set (ds @ [f])"
    and "remote_path r = join (ds @ [f])" and "split_slash (remote_path r) = ds @ [f]"
proof -
  let ?p = "split_slash (remote_path r)"
  have len: "2 \<le> length ?p" and pl: "\<forall>c \<in> set ?p. plain c \<and> c \<noteq> ''.versions''"
    using assms by (simp_all add: clean_def Let_def)
  have p: "?p = butlast ?p @ [last ?p]" by simp
  have "butlast ?p \<noteq> []" using len by (cases ?p rule: rev_cases) auto
  then show thesis
    using pl p join_split_slash [of "remote_path r"] by (intro that [of "butlast ?p" "last ?p"]) (metis, metis, metis, simp)
qed

lemma rkey_eq: "rkey fs r = rkey fs q \<longleftrightarrow> remote_path r = remote_path q"
  by (metis join_split_slash rkey_def same_append_eq)

lemma rkey_not_hidden: "clean r \<Longrightarrow> rkey fs r \<notin> hidden fs"
  unfolding rkey_def by (rule not_hidden) (auto simp: clean_def Let_def)

lemma rkey_cong: "same_env fs fs' \<Longrightarrow> rkey fs' r = rkey fs r"
  by (simp add: rkey_def same_env_def)

subsection \<open>One socket\<close>

lemma recv_arrivals:
  assumes "recv m s = Inr (b, buf, s')"
  shows "send_plan s' = send_plan s \<and> outbox s' = outbox s \<and> (RecvFails \<notin> set (inbox s) \<longrightarrow> RecvFails \<notin> set (inbox s')) \<and>
    (b < 0 \<and> RecvFails \<in> set (inbox s) \<and> arrivals (inbox s) = arrivals (inbox s') \<or>
     b = int (length buf) \<and> arrivals (inbox s) = buf @ arrivals (inbox s'))"
proof -
  have ev: "(RecvFails \<notin> set evs \<longrightarrow> RecvFails \<notin> set evs') \<and>
    (b < 0 \<and> RecvFails \<in> set evs \<and> arrivals evs = arrivals evs' \<or> b = int (length buf) \<and> arrivals evs = buf @ arrivals evs')"
    if "recv_events m evs = Inr (b, buf, evs')" for evs evs'
    using that
  proof (induction m evs rule: recv_events.induct)
    case (2 n c evs)
    show ?case
    proof (cases "c = []")
      case True
      with 2 show ?thesis by auto
    next
      case False
      have "take n c @ drop n c = c" by simp
      with 2 False show ?thesis by (auto split: if_splits)
    qed
  qed auto
  from assms obtain evs' where "recv_events m (inbox s) = Inr (b, buf, evs')" and "s' = s\<lparr>inbox := evs'\<rparr>"
    by (auto simp: recv_def andThen_eq_Inr_conv)
  with ev show ?thesis by auto
qed

lemma sendALL_whole:
  assumes "sends_whole s"
  shows "sendALL d s = (True, if d = [] then s else s\<lparr>outbox := outbox s @ d\<rparr>)"
proof -
  have finished: "sendALL_loop d (length d) s' = (True, s')" for s'
    by (subst sendALL_loop.simps) simp
  show ?thesis
  proof (cases "d = []")
    case True
    then show ?thesis using finished [of s] by (simp add: sendALL_def)
  next
    case False
    then have "sendALL_loop d 0 s = sendALL_loop d (length d) (s\<lparr>outbox := outbox s @ d\<rparr>)"
      by (subst sendALL_loop.simps) (simp add: send_whole [OF assms])
    with finished False show ?thesis by (simp add: sendALL_def)
  qed
qed

subsection \<open>A step of one task\<close>

definition touched :: "filesys \<Rightarrow> request_t \<Rightarrow> key set" where
  \<comment> \<open>what a task may change of the nodes that exist\<close>
  "touched fs r = (if command r = GET then {} else insert (rkey fs r) (hidden fs))"

definition step_ok :: "request_t \<Rightarrow> socket \<Rightarrow> world \<Rightarrow> task \<times> world \<Rightarrow> bool" where
  "step_ok r s0 w tw \<longleftrightarrow>
     job_inv (files (snd tw)) r s0 (fst tw) (conn (snd tw)) \<and> keeps (touched (files w) r) (files w) (files (snd tw)) \<and>
     clock (snd tw) = clock w"

lemma clean_rel:
  assumes "clean r"
  shows "rel_path (split_slash (remote_path r))"
  using assms by (auto simp: clean_def rel_path_def Let_def)

lemma clean_node:
  assumes "clean r" and "wf_fs fs"
  shows "getFileSize fs (remote_path r) =
    (case node_at fs (rkey fs r) of None \<Rightarrow> - 1 | Some (File c) \<Rightarrow> int (length c) | Some Dir \<Rightarrow> dir_end fs)"
    and "node_at fs (rkey fs r) \<noteq> None \<Longrightarrow> resolve fs (remote_path r) = Some (rkey fs r)"
  using getFileSize_join [OF assms(2) clean_rel [OF assms(1)]] resolve_join [OF assms(2) clean_rel [OF assms(1)]]
    rel_node_parent [OF assms(2) clean_rel [OF assms(1)]]
  by (auto simp: rkey_def join_split_slash)

lemma step_Begin:
  assumes step: "task_step n r Begin w = Inr tw" and inv: "job_inv (files w) r s0 Begin (conn w)"
    and clean: "clean r" and wf: "wf_fs (files w)"
  shows "step_ok r s0 w tw"
proof -
  from clean obtain ds f where ds: "ds \<noteq> []" and pl: "\<forall>c \<in> set (ds @ [f]). plain c" and vis: "''.versions'' \<notin> set (ds @ [f])"
    and path: "remote_path r = join (ds @ [f])" "split_slash (remote_path r) = ds @ [f]"
    by (rule clean_path)
  have c: "cstr (remote_path r)" using cstr_join pl by (simp add: path)
  have whole: "sends_whole (conn w)" and s0: "s0 = conn w" using inv by (auto simp: job_inv_def)
  show ?thesis
  proof (cases "command r")
    case WRITE
    with step obtain ok fs1 where "createNestedDirectories (remote_path r) (files w) = Inr (ok, fs1)"
      and "tw = (Saving, w\<lparr>files := fs1\<rparr>)"
      by (auto simp: andThen_eq_Inr_conv)
    with keeps_createNestedDirectories [OF _ wf c] inv WRITE show ?thesis
      by (auto simp: step_ok_def job_inv_def)
  next
    case GET
    show ?thesis
    proof (cases "getFileSize (files w) (remote_path r) < 0")
      case True
      with GET step whole inv wf s0 show ?thesis
        by (auto simp: step_ok_def job_inv_def andThen_eq_Inr_conv buildAndSend_zero keeps_refl)
    next
      case False
      moreover from this obtain x where x: "node_at (files w) (rkey (files w) r) = Some x"
        using clean_node(1) [OF clean wf] by (auto split: option.splits)
      moreover have "getFileSize (files w) (remote_path r) = int (length c)" if "x = File c" for c
        using clean_node(1) [OF clean wf] x that by simp
      ultimately show ?thesis using GET step whole inv wf s0
        by (auto simp: step_ok_def job_inv_def header_def andThen_eq_Inr_conv buildAndSend_length keeps_refl Let_def
            split: if_splits)
    qed
  next
    case RM
    with step obtain w' where "handleRemoveRequest r w = Inr w'" and "tw = (Finished, w')"
      by (auto simp: andThen_eq_Inr_conv run_handler_def)
    moreover from this have "keeps (touched (files w) r) (files w) (files w') \<and> clock w' = clock w"
      using keeps_handleRemove [OF _ wf path(1) ds pl] RM by (simp add: touched_def rkey_def path(2))
    moreover from this have "rkey (files w') r = rkey (files w) r" using keepsD(2) by (blast intro: rkey_cong)
    ultimately show ?thesis using handleRemove_gone [OF _ wf path(1) ds pl vis whole, of w'] RM
      by (auto simp: step_ok_def job_inv_def s0 rkey_def path(2))
  next
    case LS
    with step wf show ?thesis
      by (auto simp: step_ok_def job_inv_def andThen_eq_Inr_conv run_handler_def keeps_refl dest!: respond_quiet)
  next
    case UNKNOWN
    with step wf show ?thesis
      by (auto simp: step_ok_def job_inv_def andThen_eq_Inr_conv run_handler_def keeps_refl dest!: respond_quiet)
  qed
qed

lemma step_Saving:
  assumes step: "task_step n r Saving w = Inr tw" and inv: "job_inv (files w) r s0 Saving (conn w)"
    and clean: "clean r" and wf: "wf_fs (files w)"
  shows "step_ok r s0 w tw"
proof -
  from clean obtain ds f where ds: "ds \<noteq> []" and pl: "\<forall>c \<in> set (ds @ [f]). plain c"
    and path: "remote_path r = join (ds @ [f])"
    by (rule clean_path)
  from step obtain ok w' where save: "saveCurrentVersion n (join (ds @ [f])) w = Inr (ok, w')"
    and tw: "tw = (if ok then Storing else Replying False, w')"
    by (auto simp: andThen_eq_Inr_conv path)
  from inv keeps_save [OF save wf ds pl] keeps_mono [of "hidden (files w)" _ _ "touched (files w) r"]
  show ?thesis by (auto simp: step_ok_def job_inv_def tw touched_def)
qed

lemma step_Storing:
  assumes step: "task_step n r Storing w = Inr tw" and inv: "job_inv (files w) r s0 Storing (conn w)"
    and clean: "clean r" and wf: "wf_fs (files w)"
  shows "step_ok r s0 w tw"
proof (cases "fopen_wb (files w) (remote_path r)")
  case None
  with step inv wf show ?thesis by (auto simp: step_ok_def job_inv_def keeps_refl)
next
  case (Some kf)
  then have k: "fst kf = rkey (files w) r" "snd kf = put_node (rkey (files w) r) (File []) (files w)"
    using fopen_wb_join [OF wf clean_rel [OF clean]] by (auto simp: join_split_slash rkey_def split: if_splits)
  have c: "cstr (remote_path r)"
    using cstr_join clean_rel [OF clean] by (metis join_split_slash rel_path_def)
  from inv have cmd: "command r = WRITE" by (simp add: job_inv_def)
  with k have "fst kf \<in> touched (files w) r" by (simp add: touched_def)
  with keeps_fopen_wb [of _ _ "fst kf" "snd kf", OF _ c wf] Some
  have "keeps (touched (files w) r) (files w) (snd kf)" by simp
  with step inv Some k show ?thesis
    by (cases kf) (auto simp: step_ok_def job_inv_def rkey_def)
qed

lemma step_Taking:
  assumes step: "task_step n r (Taking k rem ok) w = Inr tw" and inv: "job_inv (files w) r s0 (Taking k rem ok) (conn w)"
    and wf: "wf_fs (files w)"
  shows "step_ok r s0 w tw"
proof -
  from inv obtain got where k: "k = rkey (files w) r" "command r = WRITE" and node: "node_at (files w) k = Some (File got)"
    and so_far: "ok \<Longrightarrow> arrivals (inbox s0) = got @ arrivals (inbox (conn w)) \<and> int (length got) = data_len r - rem"
    by (auto simp: job_inv_def)
  show ?thesis
  proof (cases "0 < rem")
    case False
    with step have "tw = (Replying ok, w)" by simp
    with False inv k node so_far wf show ?thesis
      by (auto simp: step_ok_def job_inv_def stored_def keeps_refl intro!: exI [of _ got])
  next
    case True
    with step obtain b buf s' where recv: "recv MAX_BUFF_SIZE (conn w) = Inr (b, buf, s')"
      by (auto simp: andThen_eq_Inr_conv)
    note recv_arrivals [OF recv]
    show ?thesis
    proof (cases "b < 0")
      case neg: True
      with step True recv have "tw = (Replying ok, w\<lparr>conn := s'\<rparr>)" by simp
      with inv k node so_far wf neg recv_arrivals [OF recv] show ?thesis
        by (auto simp: step_ok_def job_inv_def stored_def keeps_refl sends_whole_def intro!: exI [of _ got])
    next
      case False
      obtain c fs' where w: "fwrite k buf (files w) = (c, fs')" by force
      from False recv_arrivals [OF recv] have b: "b = int (length buf)"
        and arr: "arrivals (inbox (conn w)) = buf @ arrivals (inbox s')" by auto
      have c: "c = min (length buf) (space (files w))"
        and node': "node_at fs' k = Some (File (got @ take (space (files w)) buf))"
        using fwrite_count [OF node, of buf] fwrite_node [OF node, of buf k] w by simp_all
      have "keeps (touched (files w) r) (files w) fs'"
        using keeps_fwrite [OF wf, of k "touched (files w) r" buf] w k by (simp add: touched_def)
      moreover from this have "rkey fs' r = rkey (files w) r" by (intro rkey_cong keepsD(2))
      moreover have "tw = (Taking k (rem - b) (ok \<and> int c = b), w\<lparr>files := fs', conn := s'\<rparr>)"
        using step True recv False w by simp
      moreover have "take (space (files w)) buf = buf" if "int c = b" using that c b by simp
      ultimately show ?thesis
        using inv k node' so_far b arr recv_arrivals [OF recv]
        by (auto simp: step_ok_def job_inv_def sends_whole_def)
    qed
  qed
qed

lemma step_Replying:
  assumes "task_step n r (Replying ok) w = Inr tw" and "job_inv (files w) r s0 (Replying ok) (conn w)"
    and "wf_fs (files w)"
  shows "step_ok r s0 w tw"
  using assms by (auto simp: step_ok_def job_inv_def andThen_eq_Inr_conv buildAndSend_zero keeps_refl)

lemma step_Reading:
  assumes step: "task_step n r Reading w = Inr tw" and inv: "job_inv (files w) r s0 Reading (conn w)"
    and clean: "clean r" and wf: "wf_fs (files w)"
  shows "step_ok r s0 w tw"
proof -
  from inv obtain x where "node_at (files w) (rkey (files w) r) = Some x" by (auto simp: job_inv_def)
  with step inv wf clean_node(2) [OF clean wf] show ?thesis
    by (auto simp: step_ok_def job_inv_def keeps_refl)
qed

lemma step_Giving:
  assumes step: "task_step n r (Giving k pos) w = Inr tw" and inv: "job_inv (files w) r s0 (Giving k pos) (conn w)"
    and wf: "wf_fs (files w)"
  shows "step_ok r s0 w tw"
proof -
  from inv obtain x where k: "k = rkey (files w) r" "command r = GET" and x: "node_at (files w) k = Some x"
    and so_far: "\<And>c. x = File c \<Longrightarrow> pos \<le> length c \<and> outbox (conn w) = outbox s0 @ header c @ take pos c"
    and whole: "sends_whole (conn w)"
    by (auto simp: job_inv_def)
  show ?thesis
  proof (cases x)
    case Dir
    with step x have "fst tw = Giving k pos" "snd tw = w\<lparr>conn := snd (sendALL [] (conn w))\<rparr>"
      by (auto simp: live_stream_def fread_def split: prod.splits)
    with inv wf whole show ?thesis by (auto simp: step_ok_def keeps_refl sendALL_whole)
  next
    case (File c)
    let ?buf = "take MAX_BUFF_SIZE (drop pos c)"
    have out: "outbox (snd (sendALL ?buf (conn w))) = outbox s0 @ header c @ take (pos + length ?buf) c"
      using so_far [OF File] sendALL_whole [OF whole, of ?buf]
      by (auto simp: take_add min_def)
    have "tw = (if length ?buf < MAX_BUFF_SIZE then Finished else Giving k (pos + length ?buf),
        w\<lparr>conn := snd (sendALL ?buf (conn w))\<rparr>)"
      using step x File by (auto simp: live_stream_def fread_def split: prod.splits)
    moreover have "take (pos + length ?buf) c = c" if "length ?buf < MAX_BUFF_SIZE"
      using that so_far [OF File] by (auto simp: min_def split: if_splits)
    ultimately show ?thesis using out inv k x File wf so_far [OF File] sendALL_whole [OF whole, of ?buf]
      by (auto simp: step_ok_def job_inv_def keeps_refl split: if_splits)
  qed
qed

lemma step_ok:
  assumes "task_step n r t w = Inr tw" and "job_inv (files w) r s0 t (conn w)" and "clean r" and "wf_fs (files w)"
  shows "step_ok r s0 w tw"
proof (cases t)
  case Begin
  show ?thesis using assms unfolding Begin by (rule step_Begin)
next
  case Saving
  show ?thesis using assms unfolding Saving by (rule step_Saving)
next
  case Storing
  show ?thesis using assms unfolding Storing by (rule step_Storing)
next
  case (Taking k rem ok)
  show ?thesis using assms(1,2,4) unfolding Taking by (rule step_Taking)
next
  case (Replying ok)
  show ?thesis using assms(1,2,4) unfolding Replying by (rule step_Replying)
next
  case Reading
  show ?thesis using assms unfolding Reading by (rule step_Reading)
next
  case (Giving k pos)
  show ?thesis using assms(1,2,4) unfolding Giving by (rule step_Giving)
next
  case Finished
  with assms(1) show ?thesis by simp
qed

subsection \<open>The steps of the others\<close>

lemma job_inv_keeps:
  assumes "keeps ks fs fs'" and "rkey fs r \<notin> ks" and "job_inv fs r s0 t s"
  shows "job_inv fs' r s0 t s"
proof -
  have "rkey fs' r = rkey fs r" using rkey_cong keepsD(2) [OF assms(1)] .
  moreover from this have "stored fs r s0 \<Longrightarrow> stored fs' r s0"
    using keepsD(4) [OF assms(1,2)] by (auto simp: stored_def)
  ultimately show ?thesis using assms(3)
    by (cases t) (simp_all add: job_inv_def, (use keepsD(4,5) [OF assms(1,2)] in blast)+)
qed

lemma touched_other:
  assumes "clean q" and "compatible r q" and "command q \<in> {GET, WRITE, RM}"
  shows "rkey fs q \<notin> touched fs r"
  using rkey_not_hidden [OF assms(1), of fs] assms(2) by (auto simp: touched_def compatible_def rkey_eq)

lemma job_inv_other:
  assumes step: "keeps (touched fs r) fs fs'" and inv: "job_inv fs q s0 t s" and clean: "clean q"
    and comp: "compatible r q"
  shows "job_inv fs' q s0 t s"
proof (cases "command q \<in> {GET, WRITE, RM}")
  case True
  then show ?thesis using touched_other [OF clean comp] by (blast intro: job_inv_keeps [OF step _ inv])
next
  case False
  with inv show ?thesis by (cases t) (auto simp: job_inv_def)
qed

lemma compatible_sym: "compatible r q \<Longrightarrow> compatible q r"
  by (auto simp: compatible_def)

end
