(* ===== verification/Live_Server.thy ===== *)
theory Live_Server
  imports Overlap
begin

text \<open>
  The threads of theory \<open>Workers\<close> with the handlers of theory \<open>Overlap\<close>: every call that touches the locks, the
  files or the socket is a step of its own. The locks keep handlers apart that could disturb each other, so that
  each upload is stored whole and each download is one state of its file, for every interleaving.
\<close>

section \<open>Threads between the calls of their handlers\<close>

record live =
  live_sys :: system
  marks :: "(socket \<times> task) list"  \<comment> \<open>of a thread in its handler: the connection when it began, and where it is\<close>

fun handling :: "phase \<Rightarrow> bool" where
  "handling (Holding r a) = True"
| "handling (Ran r a) = True"
| "handling _ = False"

definition plain_clients :: "system \<Rightarrow> system \<Rightarrow> bool" where
  \<comment> \<open>a thread that gets its lock has a path in plain spelling, and the network takes what it sends\<close>
  "plain_clients sys sys' \<longleftrightarrow>
     (\<forall>i < length (threads sys'). \<forall>r a s. threads sys' ! i = (Holding r a, s) \<longrightarrow>
        i < length (threads sys) \<and> threads sys ! i = (Holding r a, s) \<or> clean r \<and> sends_whole s)"

definition no_handler_moves :: "system \<Rightarrow> system \<Rightarrow> bool" where
  "no_handler_moves sys sys' \<longleftrightarrow>
     (\<forall>i < length (threads sys). \<forall>r a s. threads sys ! i = (Holding r a, s) \<longrightarrow> threads sys' ! i = (Holding r a, s))"

definition new_marks :: "system \<Rightarrow> system \<Rightarrow> (socket \<times> task) list \<Rightarrow> (socket \<times> task) list" where
  \<comment> \<open>a handler that is entered begins with the connection of its thread\<close>
  "new_marks sys sys' m =
     map (\<lambda>i. if i < length (threads sys) \<and> handling (fst (threads sys ! i)) then m ! i else (snd (threads sys' ! i), Begin))
       [0..<length (threads sys')]"

inductive live_step :: "nat \<Rightarrow> live \<Rightarrow> live \<Rightarrow> bool" for n :: nat where
  outside:
    "step n (live_sys c) sys' \<Longrightarrow> no_handler_moves (live_sys c) sys' \<Longrightarrow> plain_clients (live_sys c) sys' \<Longrightarrow>
     live_step n c \<lparr>live_sys = sys', marks = new_marks (live_sys c) sys' (marks c)\<rparr>"
| inside:
    "i < length (threads (live_sys c)) \<Longrightarrow> threads (live_sys c) ! i = (Holding r a, s) \<Longrightarrow>
     task_step n r (snd (marks c ! i)) (sys_world (live_sys c) s) = Inr (t', w') \<Longrightarrow>
     live_step n c
       \<lparr>live_sys = (live_sys c)\<lparr>sys_files := files w',
          threads := (threads (live_sys c))[i := (if t' = Finished then Ran r a else Holding r a, conn w')]\<rparr>,
        marks = (marks c)[i := (fst (marks c ! i), t')]\<rparr>"

inductive_cases live_stepE: "live_step n c c'"

section \<open>The invariant\<close>

definition live_inv :: "live \<Rightarrow> bool" where
  "live_inv c \<longleftrightarrow>
     sys_inv (live_sys c) \<and> wf_fs (sys_files (live_sys c)) \<and> length (marks c) = length (threads (live_sys c)) \<and>
     (\<forall>i < length (threads (live_sys c)). \<forall>r p s.
        threads (live_sys c) ! i = (p, s) \<longrightarrow> inside p = Some r \<longrightarrow>
        clean r \<and> job_inv (sys_files (live_sys c)) r (fst (marks c ! i)) (snd (marks c ! i)) s \<and>
        (snd (marks c ! i) = Finished) = (\<exists>a. p = Ran r a))"

lemma live_invD:
  assumes "live_inv c" and "i < length (threads (live_sys c))" and "threads (live_sys c) ! i = (p, s)"
    and "inside p = Some r"
  shows "clean r" "job_inv (sys_files (live_sys c)) r (fst (marks c ! i)) (snd (marks c ! i)) s"
    "(snd (marks c ! i) = Finished) = (\<exists>a. p = Ran r a)" "sys_inv (live_sys c)" "wf_fs (sys_files (live_sys c))"
    "length (marks c) = length (threads (live_sys c))"
  using assms unfolding live_inv_def by blast+

lemma step_threads:
  \<comment> \<open>what a step that no handler makes does to a thread that is in its handler, or comes into it\<close>
  assumes "step n sys sys'" and "no_handler_moves sys sys'"
  shows "sys_files sys' = sys_files sys" and "length (threads sys) \<le> length (threads sys')"
    and "i < length (threads sys') \<Longrightarrow> inside (fst (threads sys' ! i)) = Some r \<Longrightarrow>
      i < length (threads sys) \<and> threads sys' ! i = threads sys ! i \<or>
      (i < length (threads sys) \<longrightarrow> \<not> handling (fst (threads sys ! i))) \<and> (\<exists>a s. threads sys' ! i = (Holding r a, s))"
  using assms
  by (cases rule: step.cases; force simp: no_handler_moves_def nth_append nth_list_update less_Suc_eq split: if_splits)+

lemma inside_phase: "inside p = Some r \<longleftrightarrow> (\<exists>a. p = Holding r a \<or> p = Ran r a)"
  by (cases p) auto

lemma inside_handling: "inside p = Some r \<Longrightarrow> handling p"
  by (cases p) auto

lemma live_inv_outside:
  assumes inv: "live_inv c" and step: "step n (live_sys c) sys'" and quiet: "no_handler_moves (live_sys c) sys'"
    and plain: "plain_clients (live_sys c) sys'"
  shows "live_inv \<lparr>live_sys = sys', marks = new_marks (live_sys c) sys' (marks c)\<rparr>"
proof -
  let ?sys = "live_sys c"
  note th = step_threads [OF step quiet]
  have "clean r \<and> job_inv (sys_files sys') r (fst (new_marks ?sys sys' (marks c) ! i)) (snd (new_marks ?sys sys' (marks c) ! i)) s \<and>
      (snd (new_marks ?sys sys' (marks c) ! i) = Finished) = (\<exists>a. p = Ran r a)"
    if i: "i < length (threads sys')" and at: "threads sys' ! i = (p, s)" and ins: "inside p = Some r" for i r p s
  proof (cases "i < length (threads ?sys) \<and> threads sys' ! i = threads ?sys ! i")
    case True
    with i at inside_handling [OF ins] have "new_marks ?sys sys' (marks c) ! i = marks c ! i"
      by (simp add: new_marks_def)
    moreover from True at have "i < length (threads ?sys)" "threads ?sys ! i = (p, s)" by simp_all
    ultimately show ?thesis using live_invD(1-3) [OF inv _ _ ins] th(1) by simp
  next
    case False
    with th(3) [OF i] at ins have new: "i < length (threads ?sys) \<longrightarrow> \<not> handling (fst (threads ?sys ! i))"
      and "\<exists>a. p = Holding r a"
      by (auto simp: inside_phase)
    then obtain a where p: "p = Holding r a" by blast
    have "clean r \<and> sends_whole s"
      using plain i at p False unfolding plain_clients_def by metis
    moreover have "new_marks ?sys sys' (marks c) ! i = (s, Begin)" using new i at by (auto simp: new_marks_def)
    ultimately show ?thesis using p by (simp add: job_inv_def)
  qed
  moreover have "sys_inv sys'" using sys_inv_step [OF _ step] inv by (simp add: live_inv_def)
  moreover have "wf_fs (sys_files sys')" using inv th(1) by (simp add: live_inv_def)
  ultimately show ?thesis by (simp add: live_inv_def) (simp add: new_marks_def)
qed

lemma live_inv_inside:
  assumes inv: "live_inv c" and i: "i < length (threads (live_sys c))" and at: "threads (live_sys c) ! i = (Holding r a, s)"
    and step: "task_step n r (snd (marks c ! i)) (sys_world (live_sys c) s) = Inr (t', w')"
  shows "live_inv \<lparr>live_sys = (live_sys c)\<lparr>sys_files := files w',
      threads := (threads (live_sys c))[i := (if t' = Finished then Ran r a else Holding r a, conn w')]\<rparr>,
    marks = (marks c)[i := (fst (marks c ! i), t')]\<rparr>"
proof -
  let ?sys = "live_sys c" and ?p' = "if t' = Finished then Ran r a else Holding r a"
  have ins: "inside (Holding r a) = Some r" by simp
  note own = live_invD [OF inv i at ins]
  have "step_ok r (fst (marks c ! i)) (sys_world ?sys s) (t', w')"
    using step_ok [OF step _ own(1)] own(2,5) by (simp add: sys_world_def)
  then have keep: "keeps (touched (sys_files ?sys) r) (sys_files ?sys) (files w')"
    and mine: "job_inv (files w') r (fst (marks c ! i)) t' (conn w')"
    by (simp_all add: step_ok_def sys_world_def)
  have "sys_inv (?sys\<lparr>sys_files := files w', threads := (threads ?sys)[i := (?p', conn w')]\<rparr>)"
    using sys_inv_move [OF own(4) i, of ?p' "conn w'" "files w'"] sys_inv_thread [OF own(4) i at] at by simp
  moreover have "clean q \<and> job_inv (files w') q (fst ((marks c)[i := (fst (marks c ! i), t')] ! l))
        (snd ((marks c)[i := (fst (marks c ! i), t')] ! l)) s' \<and>
      (snd ((marks c)[i := (fst (marks c ! i), t')] ! l) = Finished) = (\<exists>a. p = Ran q a)"
    if l: "l < length (threads ?sys)" and p: "(threads ?sys)[i := (?p', conn w')] ! l = (p, s')" and q: "inside p = Some q"
    for l q p s'
  proof (cases "l = i")
    case True
    with i p q mine own(1,6) show ?thesis by (auto split: if_splits)
  next
    case False
    with p have p: "threads ?sys ! l = (p, s')" by simp
    note other = live_invD [OF inv l p q]
    have "command r = GET \<and> command q = GET" if "remote_path r = remote_path q"
      by (rule inside_exclusive [OF own(4) i l]) (use False at p q that in simp_all)
    then have "compatible r q" by (auto simp: compatible_def)
    from job_inv_other [OF keep other(2,1) \<open>compatible r q\<close>] other(1,3)
    show ?thesis unfolding nth_list_update_neq [OF False [symmetric]] by blast
  qed
  ultimately show ?thesis using keepsD(1) [OF keep] own(6) by (simp add: live_inv_def)
qed

lemma live_inv_step: "live_step n c c' \<Longrightarrow> live_inv c \<Longrightarrow> live_inv c'"
  by (elim live_stepE) (simp_all only: live_inv_outside live_inv_inside)

definition live_boot :: "filesys \<Rightarrow> int \<times> int \<Rightarrow> live" where
  "live_boot fs t = \<lparr>live_sys = boot fs t, marks = []\<rparr>"

definition live_reachable :: "nat \<Rightarrow> live \<Rightarrow> bool" where
  "live_reachable n c \<longleftrightarrow> (\<exists>fs t. wf_fs fs \<and> (live_step n)\<^sup>*\<^sup>* (live_boot fs t) c)"

lemma live_inv_boot: "wf_fs fs \<Longrightarrow> live_inv (live_boot fs t)"
  using sys_inv_boot [of fs t] by (simp add: live_inv_def live_boot_def) (simp add: boot_def)

lemma live_inv_reachable:
  assumes "live_reachable n c"
  shows "live_inv c"
proof -
  from assms obtain fs t where wf: "wf_fs fs" and "(live_step n)\<^sup>*\<^sup>* (live_boot fs t) c"
    by (auto simp: live_reachable_def)
  from this(2) show ?thesis
    by induction (simp_all add: live_inv_boot wf live_inv_step)
qed

lemma stored_all:
  assumes "stored fs r s0" and "RecvFails \<notin> set (inbox s0)" and "int (length (arrivals (inbox s0))) = data_len r"
  shows "node_at fs (rkey fs r) = Some (File (arrivals (inbox s0)))"
proof -
  have "got = bs" if "prefix got bs" "int (length bs) = k" "k \<le> int (length got)" for got bs :: bytes and k
    using that by (auto simp: prefix_def)
  with assms show ?thesis by (auto simp: stored_def)
qed


text \<open>
  Whatever the other threads do between the calls of its handler, a thread that has run a \<open>GET\<close> and still has its
  lock has sent the length and the bytes of the file as it is, or the error message.
\<close>

theorem live_get:
  assumes "live_reachable n c" and "i < length (threads (live_sys c))"
    and "threads (live_sys c) ! i = (Ran r a, s)" and "command r = GET" and "marks c ! i = (s0, t)"
  shows "outbox s = outbox s0 @ ''0,0,unable to open and/or get size of the requested file'' \<or>
    (\<exists>bs. node_at (sys_files (live_sys c)) (rkey (sys_files (live_sys c)) r) = Some (File bs) \<and>
          outbox s = outbox s0 @ ''1,'' @ show_int (int (length bs)) @ '',OK'' @ bs)"
  using live_invD(2,3) [OF live_inv_reachable [OF assms(1)] assms(2,3), of r] assms(4,5)
  by (auto simp: job_inv_def header_def)

section \<open>Whole handlers are runs of steps\<close>

lemma save_clock: "saveCurrentVersion n p w = Inr (ok, w') \<Longrightarrow> clock w' = clock w"
  by (auto simp: saveCurrentVersion_def andThen_eq_Inr_conv split: option.splits if_splits)

lemma task_clock: "task_step n r t w = Inr (t', w') \<Longrightarrow> t' \<noteq> Finished \<Longrightarrow> clock w' = clock w"
  by (cases t)
    (auto simp: andThen_eq_Inr_conv Let_def dest: save_clock
      split: command_type.splits if_splits option.splits prod.splits)

definition rested :: "live \<Rightarrow> bool" where
  \<comment> \<open>every thread that has its lock is about to enter its handler\<close>
  "rested c \<longleftrightarrow> length (marks c) = length (threads (live_sys c)) \<and> (\<forall>i < length (threads (live_sys c)). \<forall>r a s.
     threads (live_sys c) ! i = (Holding r a, s) \<longrightarrow> marks c ! i = (s, Begin))"

lemma handler_steps:
  assumes "task_runs n r (t, sys_world (live_sys c) s) (Finished, w')" and "t \<noteq> Finished"
    and "i < length (threads (live_sys c))" and "threads (live_sys c) ! i = (Holding r a, s)" and "marks c ! i = (s0, t)"
    and "i < length (marks c)"
  shows "(live_step n)\<^sup>*\<^sup>* c
    \<lparr>live_sys = (live_sys c)\<lparr>sys_files := files w', threads := (threads (live_sys c))[i := (Ran r a, conn w')]\<rparr>,
     marks = (marks c)[i := (s0, Finished)]\<rparr>"
  using assms
proof (induction "(t, sys_world (live_sys c) s)" arbitrary: t c s rule: converse_rtranclp_induct)
  case base
  then show ?case by simp
next
  case (step tw)
  obtain t1 w1 where tw: "tw = (t1, w1)" by force
  with step.hyps(1) have move: "task_step n r t (sys_world (live_sys c) s) = Inr (t1, w1)" by (simp add: task_move_def)
  let ?p = "if t1 = Finished then Ran r a else Holding r a"
  let ?c1 = "\<lparr>live_sys = (live_sys c)\<lparr>sys_files := files w1, threads := (threads (live_sys c))[i := (?p, conn w1)]\<rparr>,
      marks = (marks c)[i := (s0, t1)]\<rparr>"
  have one: "live_step n c ?c1"
    using inside [OF step.prems(2,3), of n t1 w1] move step.prems(4) by simp
  show ?case
  proof (cases "t1 = Finished")
    case True
    have "w1 = w'" using step.hyps(2) True by (auto simp: tw task_move_def elim: converse_rtranclpE)
    with one True show ?thesis by auto
  next
    case False
    have "w1 = sys_world (live_sys ?c1) (conn w1)" using task_clock [OF move False] by (simp add: sys_world_def)
    with step.hyps(3) [of t1 ?c1 "conn w1"] False step.prems(2,5) tw have "(live_step n)\<^sup>*\<^sup>* ?c1
      \<lparr>live_sys = (live_sys ?c1)\<lparr>sys_files := files w', threads := (threads (live_sys ?c1))[i := (Ran r a, conn w')]\<rparr>,
       marks = (marks ?c1)[i := (s0, Finished)]\<rparr>" by simp
    with one False show ?thesis by (simp add: converse_rtranclp_into_rtranclp)
  qed
qed

lemma quiet_step:
  assumes "step n sys sys'"
  shows "no_handler_moves sys sys' \<or>
    (\<exists>i r a s w. i < length (threads sys) \<and> threads sys ! i = (Holding r a, s) \<and>
       run_handler n r (sys_world sys s) = Inr w \<and>
       sys' = sys\<lparr>sys_files := files w, threads := (threads sys)[i := (Ran r a, conn w)]\<rparr>)"
  using assms by (cases rule: step.cases) (force simp: no_handler_moves_def nth_append nth_list_update)+

lemma live_simulates:
  assumes step: "step n (live_sys c) sys'" and plain: "plain_clients (live_sys c) sys'" and rested: "rested c"
  shows "\<exists>c'. (live_step n)\<^sup>*\<^sup>* c c' \<and> live_sys c' = sys' \<and> rested c'"
  using quiet_step [OF step]
proof (elim disjE exE conjE)
  assume quiet: "no_handler_moves (live_sys c) sys'"
  let ?c = "\<lparr>live_sys = sys', marks = new_marks (live_sys c) sys' (marks c)\<rparr>"
  have "new_marks (live_sys c) sys' (marks c) ! i = (s, Begin)"
    if i: "i < length (threads sys')" and at: "threads sys' ! i = (Holding r a, s)" for i r a s
  proof (cases "i < length (threads (live_sys c)) \<and> threads (live_sys c) ! i = (Holding r a, s)")
    case True
    with rested have "marks c ! i = (s, Begin)" by (simp add: rested_def)
    with True i at show ?thesis by (simp add: new_marks_def)
  next
    case False
    with step_threads(3) [OF step quiet i, of r] i at show ?thesis by (auto simp: new_marks_def)
  qed
  then have "rested ?c" by (simp add: rested_def) (simp add: new_marks_def)
  with outside [OF step quiet plain] show ?thesis by (metis live.select_convs(1) r_into_rtranclp)
next
  fix i r a s w
  assume i: "i < length (threads (live_sys c))" and at: "threads (live_sys c) ! i = (Holding r a, s)"
    and run: "run_handler n r (sys_world (live_sys c) s) = Inr w"
    and sys': "sys' = (live_sys c)\<lparr>sys_files := files w, threads := (threads (live_sys c))[i := (Ran r a, conn w)]\<rparr>"
  have "marks c ! i = (s, Begin)" using rested i at by (simp add: rested_def)
  let ?c = "\<lparr>live_sys = sys', marks = (marks c)[i := (s, Finished)]\<rparr>"
  have "(live_step n)\<^sup>*\<^sup>* c ?c"
    using handler_steps [OF task_refines_handler [OF run] _ i at \<open>marks c ! i = (s, Begin)\<close>] rested i
    by (simp add: sys' rested_def)
  moreover have "rested ?c" using rested i by (auto simp: sys' rested_def nth_list_update split: if_splits)
  ultimately show ?thesis by (intro exI [of _ ?c]) simp
qed


end
