(* ===== verification/Live_History.thy ===== *)
theory Live_History
  imports Live_Server
begin

text \<open>
  The requests that the threads of theory \<open>Live_Server\<close> have answered, in the order in which their handlers returned, and what
  they say about the files: a read returns the last write, and the files hold the last writes. Each file is an
  atomic register for the clients, although its bytes are written and read in pieces.
\<close>

section \<open>How \<open>GET\<close> ends\<close>

lemma giving_finishes:
  assumes step: "task_step n r (Giving k pos) w = Inr (Finished, w')"
    and inv: "job_inv (files w) r s0 (Giving k pos) (conn w)"
  shows "\<exists>c. node_at (files w') (rkey (files w') r) = Some (File c) \<and> outbox (conn w') = outbox s0 @ header c @ c"
proof -
  from inv obtain x where k: "k = rkey (files w) r" and x: "node_at (files w) k = Some x" and whole: "sends_whole (conn w)"
    and so_far: "\<And>c. x = File c \<Longrightarrow> pos \<le> length c \<and> outbox (conn w) = outbox s0 @ header c @ take pos c"
    by (auto simp: job_inv_def)
  from step x obtain c where c: "x = File c" and short: "length c - pos < MAX_BUFF_SIZE"
    and w': "w' = w\<lparr>conn := snd (sendALL (drop pos c) (conn w))\<rparr>"
    by (cases x) (auto simp: live_stream_def fread_def split: prod.splits if_splits)
  have "take pos c @ drop pos c = c" by simp
  with so_far [OF c] have "outbox (conn w') = outbox s0 @ header c @ c"
    using sendALL_whole [OF whole, of "drop pos c"] by (auto simp: w')
  with x k c show ?thesis by (auto simp: w')
qed

lemma get_finishes:
  assumes step: "task_step n r t w = Inr (Finished, w')" and inv: "job_inv (files w) r s0 t (conn w)"
    and clean: "clean r" and wf: "wf_fs (files w)" and get: "command r = GET"
  shows "(\<exists>c. node_at (files w') (rkey (files w') r) = Some (File c) \<and> outbox (conn w') = outbox s0 @ header c @ c) \<or>
    (\<forall>c. node_at (files w') (rkey (files w') r) \<noteq> Some (File c)) \<and>
      outbox (conn w') = outbox s0 @ ''0,0,unable to open and/or get size of the requested file''"
proof (cases t)
  case Begin
  have "getFileSize (files w) (remote_path r) < 0"
    using step get unfolding Begin by (auto simp: andThen_eq_Inr_conv Let_def split: if_splits)
  moreover from this have "node_at (files w) (rkey (files w) r) \<noteq> Some (File c)" for c
    using clean_node(1) [OF clean wf] by auto
  ultimately show ?thesis using step inv get unfolding Begin
    by (auto simp: job_inv_def andThen_eq_Inr_conv buildAndSend_zero)
next
  case Reading
  with step inv clean_node(2) [OF clean wf] show ?thesis by (auto simp: job_inv_def)
next
  case (Giving k pos)
  show ?thesis using giving_finishes step inv unfolding Giving by blast
qed (use step inv get in \<open>auto simp: job_inv_def andThen_eq_Inr_conv split: if_splits option.splits\<close>)

section \<open>The requests that have been answered\<close>

record answer =
  a_request :: request_t
  a_start :: socket  \<comment> \<open>the connection when the handler began\<close>
  a_end :: socket    \<comment> \<open>the connection when it returned\<close>

definition answered :: "live \<Rightarrow> live \<Rightarrow> answer list" where
  \<comment> \<open>the handlers that return in a step\<close>
  "answered c c' =
     concat (map (\<lambda>i. case (threads (live_sys c) ! i, threads (live_sys c') ! i) of
         ((Holding r a, s), (Ran q b, s')) \<Rightarrow> [\<lparr>a_request = r, a_start = fst (marks c ! i), a_end = s'\<rparr>]
       | _ \<Rightarrow> [])
       [0..<length (threads (live_sys c))])"

inductive logged :: "nat \<Rightarrow> filesys \<Rightarrow> live \<Rightarrow> answer list \<Rightarrow> bool" for n :: nat and fs :: filesys where
  boot: "wf_fs fs \<Longrightarrow> logged n fs (live_boot fs t) []"
| go: "logged n fs c h \<Longrightarrow> live_step n c c' \<Longrightarrow> logged n fs c' (h @ answered c c')"

lemma answered_outside:
  assumes "no_handler_moves (live_sys c) (live_sys c')"
  shows "answered c c' = []"
  using assms by (auto simp: answered_def no_handler_moves_def split: prod.splits phase.splits)

lemma concat_map_single:
  assumes "i < n" and "\<And>j. j < n \<Longrightarrow> j \<noteq> i \<Longrightarrow> f j = []"
  shows "concat (map f [0..<n]) = f i"
proof -
  have "[0..<n] = [0..<i] @ i # [Suc i..<n]" using assms(1) upt_add_eq_append [of 0 i "n - i"] by (simp add: upt_conv_Cons)
  moreover have "concat (map f [0..<i]) = []" "concat (map f [Suc i..<n]) = []" using assms by simp_all
  ultimately show ?thesis by (simp del: concat_eq_Nil_conv)
qed

lemma answered_inside:
  assumes "i < length (threads (live_sys c))" and "threads (live_sys c) ! i = (Holding r a, s)"
    and "threads (live_sys c') = (threads (live_sys c))[i := (p, s')]"
  shows "answered c c' =
    (if \<exists>q b. p = Ran q b then [\<lparr>a_request = r, a_start = fst (marks c ! i), a_end = s'\<rparr>] else [])"
proof -
  have "answered c c' = (case (threads (live_sys c) ! i, threads (live_sys c') ! i) of
         ((Holding r a, s), (Ran q b, s')) \<Rightarrow> [\<lparr>a_request = r, a_start = fst (marks c ! i), a_end = s'\<rparr>]
       | _ \<Rightarrow> [])"
    unfolding answered_def using assms(1,3)
    by (intro concat_map_single) (auto split: prod.splits phase.splits)
  with assms show ?thesis by (auto split: phase.splits)
qed

section \<open>Each file as a register\<close>

datatype contents = Holds bytes | Gone

definition agrees :: "node option \<Rightarrow> contents \<Rightarrow> bool" where
  "agrees x v = (case v of Holds bs \<Rightarrow> x = Some (File bs) | Gone \<Rightarrow> \<forall>bs. x \<noteq> Some (File bs))"

definition get_answer :: "contents \<Rightarrow> string" where
  \<comment> \<open>what a \<open>GET\<close> sends\<close>
  "get_answer v =
     (case v of
        Holds bs \<Rightarrow> ''1,'' @ show_int (int (length bs)) @ '',OK'' @ bs
      | Gone \<Rightarrow> ''0,0,unable to open and/or get size of the requested file'')"

definition initially :: "filesys \<Rightarrow> string \<Rightarrow> contents" where
  "initially fs p = (case node_at fs (cwd fs @ split_slash p) of Some (File bs) \<Rightarrow> Holds bs | _ \<Rightarrow> Gone)"

definition after :: "answer \<Rightarrow> contents option \<Rightarrow> contents option" where
  \<comment> \<open>what the file holds after an answered request; \<open>None\<close> if its client cannot tell\<close>
  "after e v =
     (let r = a_request e; s = a_start e; bs = arrivals (inbox s)
      in case command r of
           WRITE \<Rightarrow>
             if outbox (a_end e) = outbox s @ ''1,0,NULL'' \<and> RecvFails \<notin> set (inbox s) \<and> int (length bs) = data_len r
             then Some (Holds bs) else None
         | RM \<Rightarrow> if outbox (a_end e) = outbox s @ ''0,0,unable to remove file'' then v else Some Gone
         | _ \<Rightarrow> v)"

definition latest :: "filesys \<Rightarrow> string \<Rightarrow> answer list \<Rightarrow> contents option" where
  \<comment> \<open>what the requests for a path, in the order of their answers, have left in its file\<close>
  "latest fs p h = foldl (\<lambda>v e. if remote_path (a_request e) = p then after e v else v) (Some (initially fs p)) h"

lemma latest_simps [simp]:
  "latest fs p [] = Some (initially fs p)"
  "latest fs p (h @ [e]) = (if remote_path (a_request e) = p then after e (latest fs p h) else latest fs p h)"
  by (simp_all add: latest_def)

lemma after_reads [simp]: "\<not> writes (a_request e) \<Longrightarrow> after e v = v"
  by (auto simp: after_def writes_def Let_def split: command_type.splits)

lemma get_sends:
  assumes "task_step n r t w = Inr (Finished, w')" and "job_inv (files w) r s0 t (conn w)"
    and "clean r" and "wf_fs (files w)" and "command r = GET" and "agrees (node_at (files w') (rkey (files w') r)) v"
  shows "outbox (conn w') = outbox s0 @ get_answer v"
  using get_finishes [OF assms(1-5)] assms(6)
  by (cases v) (auto simp: agrees_def get_answer_def header_def)

lemma remove_leaves:
  assumes step: "task_step n r t w = Inr (t', w')" and inv: "job_inv (files w) r s0 t (conn w)"
    and clean: "clean r" and wf: "wf_fs (files w)" and rm: "command r = RM"
  shows "t = Begin" and "t' = Finished"
    and "outbox (conn w') = outbox s0 @ ''0,0,unable to remove file'' \<Longrightarrow> files w' = files w"
    and "outbox (conn w') \<noteq> outbox s0 @ ''0,0,unable to remove file'' \<Longrightarrow>
      agrees (node_at (files w') (rkey (files w') r)) Gone"
proof -
  show t: "t = Begin" using inv rm step by (cases t) (simp_all add: job_inv_def)
  have run: "handleRemoveRequest r w = Inr w'" and fin: "t' = Finished"
    using step rm by (simp_all add: t run_handler_def andThen_eq_Inr_conv)
  show "t' = Finished" by (rule fin)
  from clean obtain ds f where ds: "ds \<noteq> []" and pl: "\<forall>c \<in> set (ds @ [f]). plain c" and vis: "''.versions'' \<notin> set (ds @ [f])"
    and path: "remote_path r = join (ds @ [f])" by (rule clean_path)
  have "conn w = s0" and "sends_whole (conn w)" using inv by (auto simp: job_inv_def t)
  then show "outbox (conn w') = outbox s0 @ ''0,0,unable to remove file'' \<Longrightarrow> files w' = files w"
    using handleRemove_gone [OF run wf path ds pl vis] by simp
  show "outbox (conn w') \<noteq> outbox s0 @ ''0,0,unable to remove file'' \<Longrightarrow>
      agrees (node_at (files w') (rkey (files w') r)) Gone"
    using step_ok [OF step inv clean wf] rm fin by (simp add: step_ok_def job_inv_def agrees_def)
qed

lemma step_Begin_never: "task_step n r t w = Inr (t', w') \<Longrightarrow> t' \<noteq> Begin"
  by (cases t)
    (auto simp: andThen_eq_Inr_conv Let_def split: command_type.splits if_splits option.splits prod.splits)

lemma write_leaves:
  assumes "job_inv fs r s0 Finished s" and "command r = WRITE"
    and "after \<lparr>a_request = r, a_start = s0, a_end = s\<rparr> v0 = Some v"
  shows "agrees (node_at fs (rkey fs r)) v"
  using assms stored_all [of fs r s0] by (auto simp: job_inv_def after_def agrees_def Let_def split: if_splits)

section \<open>The invariant\<close>

definition writing :: "live \<Rightarrow> string \<Rightarrow> bool" where
  \<comment> \<open>some handler has begun to change the file\<close>
  "writing c p \<longleftrightarrow> (\<exists>i < length (threads (live_sys c)). \<exists>r a s.
     threads (live_sys c) ! i = (Holding r a, s) \<and> writes r \<and> remote_path r = p \<and> snd (marks c ! i) \<noteq> Begin)"

definition reads_answered :: "filesys \<Rightarrow> answer list \<Rightarrow> bool" where
  \<comment> \<open>a read has sent what the requests before it have left in the file\<close>
  "reads_answered fs h \<longleftrightarrow> (\<forall>h1 e h2 v. h = h1 @ e # h2 \<longrightarrow> command (a_request e) = GET \<longrightarrow>
     latest fs (remote_path (a_request e)) h1 = Some v \<longrightarrow> outbox (a_end e) = outbox (a_start e) @ get_answer v)"

definition log_inv :: "filesys \<Rightarrow> live \<Rightarrow> answer list \<Rightarrow> bool" where
  "log_inv fs c h \<longleftrightarrow>
     live_inv c \<and> reads_answered fs h \<and>
     (\<forall>q v. clean q \<longrightarrow> latest fs (remote_path q) h = Some v \<longrightarrow> \<not> writing c (remote_path q) \<longrightarrow>
        agrees (node_at (sys_files (live_sys c)) (rkey (sys_files (live_sys c)) q)) v)"

lemma log_invD:
  assumes "log_inv fs c h"
  shows "live_inv c" "reads_answered fs h"
    "clean q \<Longrightarrow> latest fs (remote_path q) h = Some v \<Longrightarrow> \<not> writing c (remote_path q) \<Longrightarrow>
      agrees (node_at (sys_files (live_sys c)) (rkey (sys_files (live_sys c)) q)) v"
  using assms by (auto simp: log_inv_def)

lemma reads_answered_snoc:
  assumes "reads_answered fs h"
    and "\<And>v. command (a_request e) = GET \<Longrightarrow> latest fs (remote_path (a_request e)) h = Some v \<Longrightarrow>
      outbox (a_end e) = outbox (a_start e) @ get_answer v"
  shows "reads_answered fs (h @ [e])"
  using assms unfolding reads_answered_def
  by (auto simp: append_eq_append_conv2 append_eq_Cons_conv Cons_eq_append_conv)

lemma agrees_keeps:
  assumes "keeps ks fs fs'" and "rkey fs q \<notin> ks" and "agrees (node_at fs (rkey fs q)) v"
  shows "agrees (node_at fs' (rkey fs' q)) v"
proof -
  have key: "rkey fs' q = rkey fs q" using keepsD(2) [OF assms(1)] by (rule rkey_cong)
  show ?thesis
  proof (cases v)
    case (Holds bs)
    with keepsD(4) [OF assms(1,2)] assms(3) show ?thesis by (simp add: agrees_def key)
  next
    case Gone
    with keepsD(5) [OF assms(1,2)] assms(3) show ?thesis unfolding agrees_def key by force
  qed
qed

lemma rkey_touched:
  assumes "clean q" and "\<not> (writes r \<and> remote_path r = remote_path q)" and "writes r \<or> reads r"
  shows "rkey fs q \<notin> touched fs r"
  using assms rkey_not_hidden [OF assms(1), of fs] by (auto simp: touched_def reads_def rkey_eq writes_def)

lemma log_inv_outside:
  assumes inv: "log_inv fs c h" and step: "step n (live_sys c) sys'" and quiet: "no_handler_moves (live_sys c) sys'"
    and plain: "plain_clients (live_sys c) sys'"
  shows "log_inv fs \<lparr>live_sys = sys', marks = new_marks (live_sys c) sys' (marks c)\<rparr> h"
proof -
  let ?c = "\<lparr>live_sys = sys', marks = new_marks (live_sys c) sys' (marks c)\<rparr>"
  note th = step_threads [OF step quiet]
  have "writing ?c p" if "writing c p" for p
  proof -
    from that obtain i r a s where i: "i < length (threads (live_sys c))" "threads (live_sys c) ! i = (Holding r a, s)"
      and w: "writes r" "remote_path r = p" "snd (marks c ! i) \<noteq> Begin" by (auto simp: writing_def)
    from i quiet th(2) have "i < length (threads sys')" "threads sys' ! i = (Holding r a, s)"
      by (auto simp: no_handler_moves_def)
    moreover from this i have "new_marks (live_sys c) sys' (marks c) ! i = marks c ! i" by (simp add: new_marks_def)
    ultimately show ?thesis using w unfolding writing_def by force
  qed
  with log_invD(3) [OF inv] live_inv_outside [OF log_invD(1) [OF inv] step quiet plain] log_invD(2) [OF inv] show ?thesis
    unfolding log_inv_def live.select_convs th(1) by blast
qed

subsection \<open>A step of a handler\<close>

definition inside_move :: "nat \<Rightarrow> live \<Rightarrow> nat \<Rightarrow> request_t \<Rightarrow> nat \<Rightarrow> socket \<Rightarrow> task \<Rightarrow> world \<Rightarrow> live \<Rightarrow> bool" where
  \<comment> \<open>the rule \<open>inside\<close> with what it mentions\<close>
  "inside_move n c i r a s t' w' c' \<longleftrightarrow>
     i < length (threads (live_sys c)) \<and> threads (live_sys c) ! i = (Holding r a, s) \<and>
     task_step n r (snd (marks c ! i)) (sys_world (live_sys c) s) = Inr (t', w') \<and>
     c' = \<lparr>live_sys = (live_sys c)\<lparr>sys_files := files w',
        threads := (threads (live_sys c))[i := (if t' = Finished then Ran r a else Holding r a, conn w')]\<rparr>,
      marks = (marks c)[i := (fst (marks c ! i), t')]\<rparr>"

lemma inside_moveD:
  assumes "inside_move n c i r a s t' w' c'"
  shows "i < length (threads (live_sys c))" "threads (live_sys c) ! i = (Holding r a, s)"
    "task_step n r (snd (marks c ! i)) (sys_world (live_sys c) s) = Inr (t', w')"
    "sys_files (live_sys c') = files w'" "length (threads (live_sys c')) = length (threads (live_sys c))"
    "threads (live_sys c') ! i = (if t' = Finished then Ran r a else Holding r a, conn w')"
    "l \<noteq> i \<Longrightarrow> threads (live_sys c') ! l = threads (live_sys c) ! l" "l \<noteq> i \<Longrightarrow> marks c' ! l = marks c ! l"
    "length (marks c) = length (threads (live_sys c)) \<Longrightarrow> marks c' ! i = (fst (marks c ! i), t')"
    "answered c c' = (if t' = Finished then [\<lparr>a_request = r, a_start = fst (marks c ! i), a_end = conn w'\<rparr>] else [])"
  using assms answered_inside [of i c r a s c' "if t' = Finished then Ran r a else Holding r a" "conn w'"]
  by (auto simp: inside_move_def)

lemma inside_move_inv:
  assumes move: "inside_move n c i r a s t' w' c'" and inv: "live_inv c"
  shows "clean r" "writes r \<or> reads r" "wf_fs (files (sys_world (live_sys c) s))"
    "job_inv (files (sys_world (live_sys c) s)) r (fst (marks c ! i)) (snd (marks c ! i)) (conn (sys_world (live_sys c) s))"
    "keeps (touched (sys_files (live_sys c)) r) (sys_files (live_sys c)) (files w')"
    "job_inv (files w') r (fst (marks c ! i)) t' (conn w')" "live_inv c'" "length (marks c) = length (threads (live_sys c))"
proof -
  note D = inside_moveD(1-3) [OF move]
  have ins: "inside (Holding r a) = Some r" by simp
  note own = live_invD [OF inv D(1,2) ins]
  show "clean r" "length (marks c) = length (threads (live_sys c))" by (rule own)+
  show "writes r \<or> reads r" using sys_inv_thread [OF own(4) D(1,2)] by simp
  show job: "job_inv (files (sys_world (live_sys c) s)) r (fst (marks c ! i)) (snd (marks c ! i)) (conn (sys_world (live_sys c) s))"
    and wf: "wf_fs (files (sys_world (live_sys c) s))"
    using own(2,5) by (simp_all add: sys_world_def)
  have "step_ok r (fst (marks c ! i)) (sys_world (live_sys c) s) (t', w')" by (rule step_ok [OF D(3) job own(1) wf])
  then show "keeps (touched (sys_files (live_sys c)) r) (sys_files (live_sys c)) (files w')"
    and "job_inv (files w') r (fst (marks c ! i)) t' (conn w')"
    by (simp_all add: step_ok_def sys_world_def)
  show "live_inv c'" using live_inv_inside [OF inv D] move by (simp add: inside_move_def)
qed

lemma not_writing_before:
  assumes move: "inside_move n c i r a s t' w' c'" and free: "\<not> writing c' p"
    and idle: "writes r \<and> remote_path r = p \<longrightarrow> snd (marks c ! i) = Begin"
  shows "\<not> writing c p"
proof
  note D = inside_moveD [OF move]
  assume "writing c p"
  then obtain l q b s' where l: "l < length (threads (live_sys c))" "threads (live_sys c) ! l = (Holding q b, s')"
    "writes q" "remote_path q = p" "snd (marks c ! l) \<noteq> Begin" by (auto simp: writing_def)
  with idle D(2) have "l \<noteq> i" by auto
  with l D(5) D(7,8) [of l] have "l < length (threads (live_sys c'))" "threads (live_sys c') ! l = (Holding q b, s')" "marks c' ! l = marks c ! l"
    by simp_all
  with l(3-5) free show False unfolding writing_def by metis
qed

lemma no_writer_beside:
  assumes move: "inside_move n c i r a s Finished w' c'" and inv: "live_inv c"
  shows "\<not> writing c' (remote_path r)"
proof
  note D = inside_moveD [OF move]
  have sys: "sys_inv (live_sys c)" using inv by (simp add: live_inv_def)
  assume "writing c' (remote_path r)"
  then obtain l q b s' where l: "l < length (threads (live_sys c))" "threads (live_sys c') ! l = (Holding q b, s')" "writes q"
    "remote_path q = remote_path r" by (auto simp: writing_def D(5))
  then have "l \<noteq> i" using D(6) by auto
  with l D(7) [of l] have "command r = GET \<and> command q = GET"
    by (intro inside_exclusive [OF sys D(1) l(1)]) (simp_all add: D(2))
  with l(3) show False by (simp add: writes_def)
qed

lemma others_stay:
  assumes inv: "log_inv fs c h" and move: "inside_move n c i r a s t' w' c'"
    and q: "clean q" and latest: "latest fs (remote_path q) h = Some v"
    and other: "\<not> (writes r \<and> remote_path r = remote_path q)" and free: "\<not> writing c' (remote_path q)"
  shows "agrees (node_at (files w') (rkey (files w') q)) v"
proof -
  note own = inside_move_inv [OF move log_invD(1) [OF inv]]
  have "\<not> writing c (remote_path q)" using other by (intro not_writing_before [OF move free]) blast
  from log_invD(3) [OF inv q latest this] rkey_touched [OF q other own(2)] show ?thesis
    by (intro agrees_keeps [OF own(5)])
qed

lemma own_file:
  assumes inv: "log_inv fs c h" and move: "inside_move n c i r a s t' w' c'" and wr: "writes r"
    and latest: "latest fs (remote_path r) (h @ answered c c') = Some v" and free: "\<not> writing c' (remote_path r)"
  shows "agrees (node_at (files w') (rkey (files w') r)) v"
proof -
  note D = inside_moveD [OF move] and own = inside_move_inv [OF move log_invD(1) [OF inv]]
  let ?s0 = "fst (marks c ! i)"
  have fin: "t' = Finished"
  proof (rule ccontr)
    assume "t' \<noteq> Finished"
    with D(1,5,6) D(9) [OF own(8)] step_Begin_never [OF D(3)] wr have "writing c' (remote_path r)"
      unfolding writing_def by (intro exI [of _ i]) simp
    with free show False ..
  qed
  show ?thesis
  proof (cases "command r = RM")
    case True
    note rm = remove_leaves [OF D(3) own(4,1,3) True]
    show ?thesis
    proof (cases "outbox (conn w') = outbox ?s0 @ ''0,0,unable to remove file''")
      case fail: True
      with latest True fin have "latest fs (remote_path r) h = Some v" by (simp add: D(10) after_def)
      from log_invD(3) [OF inv own(1) this not_writing_before [OF move free]] rm(1,3) fail show ?thesis
        by (simp add: sys_world_def)
    next
      case False
      with latest True fin have "v = Gone" by (simp add: D(10) after_def)
      with rm(4) False show ?thesis by simp
    qed
  next
    case False
    with wr write_leaves [of "files w'" r ?s0 "conn w'"] own(6) latest fin show ?thesis
      by (auto simp: D(10) writes_def)
  qed
qed

lemma reads_step:
  assumes inv: "log_inv fs c h" and move: "inside_move n c i r a s t' w' c'"
  shows "reads_answered fs (h @ answered c c')"
proof (cases "t' = Finished")
  case True
  note D = inside_moveD [OF move] and own = inside_move_inv [OF move log_invD(1) [OF inv]]
  have "outbox (conn w') = outbox (fst (marks c ! i)) @ get_answer v"
    if get: "command r = GET" and latest: "latest fs (remote_path r) h = Some v" for v
  proof -
    have "agrees (node_at (files w') (rkey (files w') r)) v"
      using get no_writer_beside [OF move [unfolded True] log_invD(1) [OF inv]]
      by (intro others_stay [OF inv move own(1) latest]) (simp_all add: writes_def)
    from get_sends [OF D(3) [unfolded True] own(4,1,3) get this] show ?thesis .
  qed
  with reads_answered_snoc [OF log_invD(2) [OF inv],
      of "\<lparr>a_request = r, a_start = fst (marks c ! i), a_end = conn w'\<rparr>"] show ?thesis
    by (simp add: D(10) True)
qed (simp add: inside_moveD(10) [OF move] log_invD(2) [OF inv])

lemma log_inv_inside:
  assumes inv: "log_inv fs c h" and move: "inside_move n c i r a s t' w' c'"
  shows "log_inv fs c' (h @ answered c c')"
proof -
  note D = inside_moveD [OF move]
  have "agrees (node_at (files w') (rkey (files w') q)) v"
    if "clean q" "latest fs (remote_path q) (h @ answered c c') = Some v" "\<not> writing c' (remote_path q)" for q v
  proof (cases "writes r \<and> remote_path r = remote_path q")
    case True
    then have "rkey (files w') q = rkey (files w') r" by (simp add: rkey_eq)
    with own_file [OF inv move] that True show ?thesis by simp
  next
    case False
    with that(2) have "latest fs (remote_path q) h = Some v" by (auto simp: D(10) split: if_splits)
    from others_stay [OF inv move that(1) this False that(3)] show ?thesis .
  qed
  with reads_step [OF inv move] inside_move_inv(7) [OF move log_invD(1) [OF inv]] D(4) show ?thesis
    unfolding log_inv_def by simp
qed

lemma log_inv_logged: "logged n fs c h \<Longrightarrow> log_inv fs c h"
proof (induction rule: logged.induct)
  case (boot t)
  have "agrees (node_at fs (rkey fs q)) (initially fs (remote_path q))" for q
    by (auto simp: agrees_def initially_def rkey_def split: option.splits node.splits)
  moreover have "sys_files (live_sys (live_boot fs t)) = fs" by (simp add: live_boot_def boot_def)
  ultimately show ?case using live_inv_boot [OF boot] by (auto simp: log_inv_def reads_answered_def)
next
  case (go c h c')
  from go(2) show ?case
  proof (cases rule: live_step.cases)
    case (outside sys')
    with log_inv_outside [OF go(3)] answered_outside [of c c'] show ?thesis by simp
  next
    case (inside i r a s t' w')
    then have "inside_move n c i r a s t' w' c'" by (simp add: inside_move_def)
    from log_inv_inside [OF go(3) this] show ?thesis .
  qed
qed



lemma logged_reachable: "live_reachable n c \<longleftrightarrow> (\<exists>fs h. logged n fs c h)"
proof
  assume "live_reachable n c"
  then obtain fs t where wf: "wf_fs fs" and "(live_step n)\<^sup>*\<^sup>* (live_boot fs t) c" by (auto simp: live_reachable_def)
  from this(2) have "\<exists>h. logged n fs c h"
    by induction (blast intro: logged.intros wf)+
  then show "\<exists>fs h. logged n fs c h" ..
next
  assume "\<exists>fs h. logged n fs c h"
  then obtain fs h where "logged n fs c h" by blast
  then show "live_reachable n c"
    by induction (auto simp: live_reachable_def intro: rtranclp.rtrancl_into_rtrancl)
qed

end
