(* ===== verification/Live_Progress.thy ===== *)
theory Live_Progress
  imports Live_Server
begin

text \<open>
  Why a handler of theory \<open>Live_Server\<close> may be unable to go on. With a path whose versions fit into the arrays there are
  four reasons: the client has not sent more, the file has a length that overflows the buffer of the response,
  the version cannot be opened or is read from a directory, or a file in the version folder has too long a name.
\<close>

section \<open>Directories are made without an overflow\<close>

lemma strtok_lengths:
  assumes "strtok d s = Some (t, r)"
  shows "length t + (if r = '''' then 0 else Suc (length r)) \<le> length s"
proof -
  define s' where "s' = dropWhile (\<lambda>c. c = d) s"
  define u where "u = dropWhile (\<lambda>c. c \<noteq> d) s'"
  have t: "t = takeWhile (\<lambda>c. c \<noteq> d) s'" and r: "r = drop 1 u"
    using assms by (simp_all add: strtok_def s'_def u_def Let_def split: if_splits)
  have "length s' = length t + length u"
    unfolding t u_def by (metis length_append takeWhile_dropWhile_id)
  moreover have "length s' \<le> length s" unfolding s'_def by (rule length_dropWhile_le)
  ultimately show ?thesis unfolding r by (cases u) simp_all
qed

lemma mkdirs_loop_total:
  assumes "\<And>tok rest. t = Some (tok, rest) \<Longrightarrow>
    (if cur = '''' then 0 else Suc (length cur)) + length tok + (if rest = '''' then 0 else Suc (length rest)) < MAX_PATH_LEN"
  shows "\<exists>ok fs'. mkdirs_loop t cur fs = Inr (ok, fs')"
  using assms
proof (induction t cur fs rule: mkdirs_loop.induct)
  case (2 tok rest cur fs)
  let ?cur = "if length cur = 0 then tok else cur @ ''/'' @ tok"
  have fits: "store_string MAX_PATH_LEN ?cur = Inr ?cur" using "2.prems" by auto
  have next_tok: "(if ?cur = '''' then 0 else Suc (length ?cur)) + length tok' + (if rest' = '''' then 0 else Suc (length rest')) < MAX_PATH_LEN"
    if "strtok (CHR ''/'') rest = Some (tok', rest')" for tok' rest'
    using strtok_lengths [OF that] "2.prems" [of tok rest] that by (auto split: if_splits)
  show ?case
  proof (cases "mkdir ?cur fs")
    case (Inl errno)
    show ?thesis
    proof (cases "errno = EEXIST")
      case True
      from "2.IH"(1) [OF fits Inl] True next_tok show ?thesis using fits Inl by simp
    qed (use fits Inl in auto)
  next
    case (Inr fs')
    from "2.IH"(2) [OF fits Inr next_tok] show ?thesis using fits Inr by simp
  qed
qed auto

lemma createNestedDirectories_total:
  assumes "p \<noteq> ''''" and "length p < MAX_PATH_LEN"
  shows "\<exists>ok fs'. createNestedDirectories p fs = Inr (ok, fs')"
proof -
  let ?d = "case strrchr p (CHR ''/'') of Some i \<Rightarrow> take i p | None \<Rightarrow> ''''"
  have "length ?d \<le> length p" by (auto split: option.splits)
  then have "\<exists>ok fs'. mkdirs_loop (strtok (CHR ''/'') ?d) '''' fs = Inr (ok, fs')"
    using assms(2) strtok_lengths by (intro mkdirs_loop_total) fastforce
  with extractDirectory_eq [OF assms] show ?thesis by (cases "opendir fs ?d") (auto simp: createNestedDirectories_def)
qed

section \<open>Saving a version\<close>

definition short_path :: "request_t \<Rightarrow> int \<times> int \<Rightarrow> bool" where
  \<comment> \<open>the path of a version fits into its array\<close>
  "short_path r time \<longleftrightarrow> length (remote_path r) + length (version_name ''/.versions'' time) < MAX_PATH_LEN"

lemma copy_loop_stops:
  assumes "copy_loop n f k fs = Inl e" and "\<not> rs_eof f"
  shows "e = OutOfFuel \<and> (\<forall>c. rs_data f = Some c \<longrightarrow> n * MAX_BUFF_SIZE \<le> length c - rs_pos f)"
  using assms
proof (induction n arbitrary: f fs)
  case (Suc n)
  obtain b f' where r: "fread MAX_BUFF_SIZE f = (b, f')" by fastforce
  obtain m fs' where w: "fwrite k b fs = (m, fs')" by fastforce
  from Suc.prems r w have more: "\<not> rs_eof f'" and rest: "copy_loop n f' k fs' = Inl e" by (simp_all split: if_splits)
  have "MAX_BUFF_SIZE + n * MAX_BUFF_SIZE \<le> length c - rs_pos f" if "rs_data f = Some c" for c
    using fread_more [OF that r more] Suc.IH [OF rest more] by auto
  with Suc.IH [OF rest more] show ?case by simp
qed simp

definition too_large :: "nat \<Rightarrow> node option \<Rightarrow> bool" where
  \<comment> \<open>a copy of it does not end, or not within the fuel\<close>
  "too_large n x = (case x of Some (File c) \<Rightarrow> n * MAX_BUFF_SIZE \<le> length c | Some Dir \<Rightarrow> True | None \<Rightarrow> False)"

lemma length_version_path:
  "ds \<noteq> [] \<Longrightarrow> length (join (ds @ [''.versions'', version_name f t])) =
     length (join (ds @ [f])) + length (version_name ''/.versions'' t)"
  using length_join_snoc [of "ds @ [''.versions'']" "version_name f t"] length_join_snoc [of ds]
  by (simp add: version_name_def)

lemma save_stops:
  assumes stop: "saveCurrentVersion n (remote_path r) w = Inl e" and clean: "clean r" and short: "short_path r (clock w)"
    and wf: "wf_fs (files w)"
  shows "e = NullPointer \<or> e = OutOfFuel \<and> too_large n (node_at (files w) (rkey (files w) r))"
proof -
  from clean obtain ds f where ds: "ds \<noteq> []" and pl: "\<forall>c \<in> set (ds @ [f]). plain c" and path: "remote_path r = join (ds @ [f])"
    and split: "split_slash (remote_path r) = ds @ [f]"
    by (rule clean_path)
  let ?v = "version_name f (clock w)"
  have f: "CHR ''/'' \<notin> set f" "f \<noteq> []" using pl by (simp_all add: plain_def)
  have long: "length (join (ds @ [''.versions'', ?v])) < MAX_PATH_LEN" and len: "length (join (ds @ [f])) < MAX_PATH_LEN"
    using short length_version_path [OF ds] by (simp_all add: short_path_def path)
  have "length (join (ds @ [''.versions''])) < MAX_PATH_LEN" "length ?v < MAX_PATH_LEN"
    using long length_join_snoc [of "ds @ [''.versions'']" ?v] ds by simp_all
  moreover have "join (ds @ [''.versions'', ?v]) \<noteq> ''''"
    using length_join_snoc [of "ds @ [''.versions'']" ?v] by auto
  then have "createNestedDirectories (join (ds @ [''.versions'', ?v])) (files w) \<noteq> Inl e"
    using createNestedDirectories_total [OF _ long, of "files w"] by auto
  ultimately have "e = NullPointer \<or>
      (\<exists>input k fs2. fopen_rb (files w) (join (ds @ [f])) = Some input \<and> copy_loop n input k fs2 = Inl e)"
    using stop extractDirectory_join [OF f len] extractBasename_join [OF f len] long
    by (auto simp: saveCurrentVersion_def path andThen_eq_Inl_conv makeVersionName_def join_versions [OF ds] copyFile_def
        join_version_file [OF ds, simplified] split: option.splits)
  moreover have "rel_path (ds @ [f])" using pl by (simp add: rel_path_def)
  note fopen_rb_join [OF wf this]
  ultimately show ?thesis
    by (auto simp: too_large_def rkey_def split split: option.splits node.splits dest!: copy_loop_stops)
qed

section \<open>Removing\<close>

lemma remove_versions_stops:
  assumes "remove_versions b folder es ok fs = Inl e"
  shows "e = BufferOverflow \<and> (\<exists>v n. (v, n) \<in> set es \<and> n \<noteq> Dir \<and> prefix b v \<and> MAX_PATH_LEN \<le> length (folder @ ''/'' @ v))"
  using assms
proof (induction b folder es ok fs rule: remove_versions.induct)
  case (2 b folder v n es ok fs)
  then show ?case
    by (fastforce simp: strncmp_eq_0_prefix andThen_eq_Inl_conv store_string_def split: if_splits sum.splits)
qed simp

definition long_version :: "filesys \<Rightarrow> request_t \<Rightarrow> bool" where
  \<comment> \<open>a file in the version folder that \<open>RM\<close> takes for a version has too long a path\<close>
  "long_version fs r \<longleftrightarrow>
     (let p = split_slash (remote_path r) in
      \<exists>v c. prefix (last p) v \<and> node_at fs (cwd fs @ butlast p @ [''.versions'', v]) = Some (File c) \<and>
        MAX_PATH_LEN \<le> length (join (butlast p @ [''.versions'', v])))"

lemma remove_stops:
  assumes stop: "handleRemoveRequest r w = Inl e" and clean: "clean r" and short: "short_path r (clock w)"
    and wf: "wf_fs (files w)" and whole: "sends_whole (conn w)"
  shows "e = BufferOverflow \<and> long_version (files w) r"
proof -
  from clean obtain ds f where ds: "ds \<noteq> []" and pl: "\<forall>c \<in> set (ds @ [f]). plain c" and path: "remote_path r = join (ds @ [f])"
    and split: "split_slash (remote_path r) = ds @ [f]"
    by (rule clean_path)
  have f: "CHR ''/'' \<notin> set f" "f \<noteq> []" and rel: "rel_path (ds @ [f])" and relv: "rel_path (ds @ [''.versions''])"
    using pl by (simp_all add: plain_def rel_path_def)
  have len: "length (join (ds @ [f])) < MAX_PATH_LEN" and lenv: "length (join (ds @ [''.versions''])) < MAX_PATH_LEN"
    using short length_join_snoc [OF ds, of "''.versions''"] length_join_snoc [OF ds, of f]
    by (simp_all add: short_path_def path version_name_def)
  have answers: "respond ok msg (w\<lparr>files := fs'\<rparr>) \<noteq> Inl e" if "msg \<noteq> ''''" for ok msg fs'
    using respond_whole [of "w\<lparr>files := fs'\<rparr>" msg ok] whole that by simp
  have ne: "join (ds @ [f]) \<noteq> ''''" using rel_path_join_nonempty [OF rel] .
  obtain fs1 where rm: "remove (join (ds @ [f])) (files w) = Inr fs1"
    using stop ne respond_whole [OF whole] by (cases "remove (join (ds @ [f])) (files w)") (auto simp: handleRemoveRequest_def path)
  have one: "keeps {cwd (files w) @ ds @ [f]} (files w) fs1" using keeps_remove_join [OF rm rel wf] by simp
  obtain d where open_dir: "opendir fs1 (join (ds @ [''.versions''])) = Some d" and d: "d = cwd fs1 @ ds @ [''.versions'']"
    using stop ne rm answers extractDirectory_join [OF f len] extractBasename_join [OF f len] lenv opendir_join [OF keepsD(1) [OF one] relv]
    by (auto simp: handleRemoveRequest_def path Let_def join_versions [OF ds] split: option.splits if_splits)
  have "remove_versions f (join (ds @ [''.versions''])) (dir_entries fs1 d) True fs1 = Inl e"
    using stop ne rm answers extractDirectory_join [OF f len] extractBasename_join [OF f len] lenv open_dir
    by (auto simp: handleRemoveRequest_def path Let_def join_versions [OF ds] andThen_eq_Inl_conv split: if_splits)
  from remove_versions_stops [OF this] obtain v n where e: "e = BufferOverflow" and v: "(v, n) \<in> set (dir_entries fs1 d)" "n \<noteq> Dir"
    "prefix f v" "MAX_PATH_LEN \<le> length (join (ds @ [''.versions'']) @ ''/'' @ v)" by blast
  then have "node_at fs1 (d @ [v]) = Some n"
    using set_children [OF keepsD(1) [OF one]] by (auto simp: dir_entries_def)
  with v(2) keepsD(3) [OF one] obtain c where "node_at fs1 (cwd (files w) @ ds @ [''.versions'', v]) = Some (File c)"
    by (cases n) (auto simp: d)
  moreover have "cwd (files w) @ ds @ [''.versions'', v] \<noteq> cwd (files w) @ ds @ [f]" by simp
  ultimately have "node_at (files w) (cwd (files w) @ ds @ [''.versions'', v]) = Some (File c)"
    using keepsD(5) [OF one] by blast
  moreover have "MAX_PATH_LEN \<le> length (join (ds @ [''.versions'', v]))" using v(4) by (simp only: join_version_file [OF ds])
  ultimately show ?thesis using e v(3) by (auto simp: long_version_def split Let_def)
qed

section \<open>The reasons for which a handler stops\<close>

definition stuck :: "nat \<Rightarrow> request_t \<Rightarrow> task \<Rightarrow> world \<Rightarrow> stop \<Rightarrow> bool" where
  "stuck n r t w e \<longleftrightarrow>
     (\<exists>k remaining success. t = Taking k remaining success) \<and> e = Blocked \<and> recv MAX_BUFF_SIZE (conn w) = Inl Blocked \<or>
     t = Begin \<and> command r = GET \<and> e = BufferOverflow \<and> power_of_ten (nat (getFileSize (files w) (remote_path r))) \<or>
     t = Begin \<and> command r = RM \<and> e = BufferOverflow \<and> long_version (files w) r \<or>
     t = Saving \<and> e = NullPointer \<or>
     t = Saving \<and> e = OutOfFuel \<and> too_large n (node_at (files w) (rkey (files w) r))"

lemma recv_stops: "recv m s = Inl e \<Longrightarrow> e = Blocked"
proof -
  have "recv_events m evs = Inl e \<Longrightarrow> e = Blocked" for evs
    by (induction m evs rule: recv_events.induct) (auto split: if_splits)
  then show "recv m s = Inl e \<Longrightarrow> e = Blocked" by (auto simp: recv_def andThen_eq_Inl_conv)
qed

lemma begin_stops:
  assumes step: "task_step n r Begin w = Inl e" and whole: "sends_whole (conn w)" and clean: "clean r" and wf: "wf_fs (files w)"
    and short: "short_path r (clock w)" and rw: "writes r \<or> reads r"
  shows "stuck n r Begin w e"
proof -
  consider "command r = WRITE" | "command r = GET" | "command r = RM" using rw by (auto simp: writes_def reads_def)
  then show ?thesis
  proof cases
    case 1
    have "remote_path r \<noteq> ''''"
      using clean rel_path_join_nonempty [OF clean_rel [OF clean]] by (simp add: join_split_slash)
    moreover have "length (remote_path r) < MAX_PATH_LEN" using short by (simp add: short_path_def)
    ultimately show ?thesis using step 1 createNestedDirectories_total [of "remote_path r" "files w"]
      by (auto simp: andThen_eq_Inl_conv)
  next
    case 2
    with step whole show ?thesis
      by (auto simp: stuck_def buildAndSend_zero buildAndSend_length Let_def andThen_eq_Inl_conv split: if_splits)
  next
    case 3
    with step have "handleRemoveRequest r w = Inl e" by (auto simp: run_handler_def andThen_eq_Inl_conv)
    from remove_stops [OF this clean short wf whole] 3 show ?thesis by (simp add: stuck_def)
  qed
qed

lemma task_stops:
  assumes step: "task_step n r t w = Inl e" and inv: "job_inv (files w) r s0 t (conn w)" and more: "t \<noteq> Finished"
    and clean: "clean r" and wf: "wf_fs (files w)" and short: "short_path r (clock w)" and rw: "writes r \<or> reads r"
  shows "stuck n r t w e"
proof (cases t)
  case Begin
  have "sends_whole (conn w)" using inv by (auto simp: job_inv_def Begin)
  from begin_stops [OF step [unfolded Begin] this clean wf short rw] show ?thesis by (simp add: Begin)
next
  case Saving
  with step save_stops [OF _ clean short wf] show ?thesis by (auto simp: stuck_def andThen_eq_Inl_conv)
next
  case (Taking k remaining success)
  with step recv_stops show ?thesis
    by (auto simp: stuck_def andThen_eq_Inl_conv Let_def split: if_splits prod.splits)
next
  case (Replying ok)
  have "sends_whole (conn w)" using inv by (auto simp: job_inv_def Replying)
  with step show ?thesis by (simp add: Replying buildAndSend_zero)
qed (use step more in \<open>auto split: option.splits if_splits\<close>)

lemma stops_stuck:
  assumes "live_reachable n c" and "i < length (threads (live_sys c))"
    and "threads (live_sys c) ! i = (Holding r a, s)" and "marks c ! i = (s0, t)"
    and "short_path r (sys_clock (live_sys c))"
    and "task_step n r t (sys_world (live_sys c) s) = Inl e"
  shows "stuck n r t (sys_world (live_sys c) s) e"
proof -
  have ins: "inside (Holding r a) = Some r" by simp
  note own = live_invD [OF live_inv_reachable [OF assms(1)] assms(2,3) ins]
  have "writes r \<or> reads r" using sys_inv_thread [OF own(4) assms(2,3)] by simp
  with own assms(4,5) show ?thesis
    by (intro task_stops [OF assms(6), of s0]) (simp_all add: sys_world_def)
qed


end
