(* ===== verification/Live_Termination.thy ===== *)
theory Live_Termination
  imports Live_History Live_Progress
begin

text \<open>
  Handlers end: for every interleaving a handler makes only a bounded number of steps, as long as its client does not
  close the connection in the middle of an upload and a \<open>GET\<close> has a file. The bound is computed from the bytes that are still to come,
  or from the size of the file; the steps of the other threads do not change it.
\<close>

section \<open>How many steps a handler still has\<close>

fun pending :: "net_in list \<Rightarrow> nat" where
  \<comment> \<open>the calls of \<open>recv\<close> that can still return something\<close>
  "pending [] = 0"
| "pending (Arrive b # evs) = Suc (length b) + pending evs"
| "pending (PeerClosed # evs) = 0"
| "pending (RecvFails # evs) = Suc (pending evs)"

definition size_at :: "filesys \<Rightarrow> key \<Rightarrow> nat" where
  "size_at fs k = (case node_at fs k of Some (File c) \<Rightarrow> length c | _ \<Rightarrow> 0)"

definition steps_left :: "filesys \<Rightarrow> request_t \<Rightarrow> task \<Rightarrow> socket \<Rightarrow> nat" where
  "steps_left fs r t s =
     (case t of
        Begin \<Rightarrow>
          (case command r of
             WRITE \<Rightarrow> pending (inbox s) + 5
           | GET \<Rightarrow> size_at fs (rkey fs r) div MAX_BUFF_SIZE + 3
           | _ \<Rightarrow> 1)
      | Saving \<Rightarrow> pending (inbox s) + 4
      | Storing \<Rightarrow> pending (inbox s) + 3
      | Taking k remaining success \<Rightarrow> pending (inbox s) + 2
      | Replying success \<Rightarrow> 1
      | Reading \<Rightarrow> size_at fs (rkey fs r) div MAX_BUFF_SIZE + 2
      | Giving k pos \<Rightarrow> (size_at fs (rkey fs r) - pos) div MAX_BUFF_SIZE + 1
      | Finished \<Rightarrow> 0)"

definition will_end :: "filesys \<Rightarrow> request_t \<Rightarrow> socket \<Rightarrow> bool" where
  "will_end fs r s \<longleftrightarrow>
     (command r = WRITE \<longrightarrow> PeerClosed \<notin> set (inbox s)) \<and>
     (command r = GET \<longrightarrow> (\<exists>c. node_at fs (rkey fs r) = Some (File c)))"

lemma recv_pending:
  assumes "recv m s = Inr (b, buf, s')" and "PeerClosed \<notin> set (inbox s)" and "0 < m"
  shows "pending (inbox s') < pending (inbox s) \<and> PeerClosed \<notin> set (inbox s')"
proof -
  have ev: "pending evs' < pending evs \<and> PeerClosed \<notin> set evs'"
    if "recv_events m evs = Inr (b, buf, evs')" "PeerClosed \<notin> set evs" for evs evs'
    using that assms(3)
  proof (induction m evs rule: recv_events.induct)
    case (2 n c evs)
    then show ?case by (cases "c = []") (auto simp: min_def split: if_splits)
  qed auto
  from assms(1) obtain evs' where "recv_events m (inbox s) = Inr (b, buf, evs')" and "s' = s\<lparr>inbox := evs'\<rparr>"
    by (auto simp: recv_def andThen_eq_Inr_conv)
  with ev [of "inbox s" evs'] assms(2) show ?thesis by simp
qed

lemma file_kept:
  assumes "keeps ks fs fs'" and "rkey fs r \<notin> ks" and "will_end fs r s"
  shows "will_end fs' r s \<and> (command r = GET \<longrightarrow> size_at fs' (rkey fs' r) = size_at fs (rkey fs r))"
proof -
  have "rkey fs' r = rkey fs r" using rkey_cong keepsD(2) [OF assms(1)] .
  with keepsD(4) [OF assms(1,2)] assms(3) show ?thesis by (auto simp: will_end_def size_at_def)
qed

lemma steps_left_cong:
  assumes "job_inv fs r s0 t s" and "command r = GET \<longrightarrow> size_at fs' (rkey fs' r) = size_at fs (rkey fs r)"
  shows "steps_left fs' r t s = steps_left fs r t s"
  using assms by (cases t) (auto simp: steps_left_def job_inv_def split: command_type.splits)

section \<open>A step of the handler\<close>

lemma write_left:
  assumes step: "task_step n r t w = Inr (t', w')" and inv: "job_inv (files w) r s0 t (conn w)"
    and wr: "command r = WRITE" and open_conn: "PeerClosed \<notin> set (inbox (conn w))"
  shows "steps_left (files w') r t' (conn w') < steps_left (files w) r t (conn w) \<and>
    (t' \<noteq> Finished \<longrightarrow> PeerClosed \<notin> set (inbox (conn w')))"
proof (cases t)
  case Saving
  with step obtain ok where "saveCurrentVersion n (remote_path r) w = Inr (ok, w')" and "t' = (if ok then Storing else Replying False)"
    by (auto simp: andThen_eq_Inr_conv)
  moreover from this(1) have "conn w' = conn w"
    by (auto simp: saveCurrentVersion_def andThen_eq_Inr_conv split: option.splits)
  ultimately show ?thesis using Saving open_conn by (simp add: steps_left_def)
next
  case (Taking k remaining ok)
  show ?thesis
  proof (cases "0 < remaining")
    case True
    with step Taking obtain b buf s' where recv: "recv MAX_BUFF_SIZE (conn w) = Inr (b, buf, s')"
      by (auto simp: andThen_eq_Inr_conv)
    have "0 < MAX_BUFF_SIZE" by (simp add: MAX_BUFF_SIZE_def)
    from recv_pending [OF recv open_conn this] step Taking True recv show ?thesis
      by (auto simp: steps_left_def Let_def split: if_splits prod.splits)
  qed (use step Taking open_conn in \<open>auto simp: steps_left_def\<close>)
qed (use step inv wr open_conn in \<open>auto simp: steps_left_def job_inv_def andThen_eq_Inr_conv split: option.splits\<close>)

lemma get_left:
  assumes step: "task_step n r t w = Inr (t', w')" and inv: "job_inv (files w) r s0 t (conn w)"
    and get: "command r = GET" and c: "node_at (files w) (rkey (files w) r) = Some (File c)"
  shows "steps_left (files w') r t' (conn w') < steps_left (files w) r t (conn w) \<and> files w' = files w"
proof (cases t)
  case (Giving k pos)
  with inv c have k: "k = rkey (files w) r" and pos: "pos \<le> length c" by (auto simp: job_inv_def)
  let ?buf = "take MAX_BUFF_SIZE (drop pos c)"
  have "t' = (if length ?buf < MAX_BUFF_SIZE then Finished else Giving k (pos + length ?buf)) \<and> files w' = files w"
    using step c k by (auto simp: Giving live_stream_def fread_def split: prod.splits)
  moreover have "(length c - (pos + MAX_BUFF_SIZE)) div MAX_BUFF_SIZE < (length c - pos) div MAX_BUFF_SIZE"
    if "MAX_BUFF_SIZE \<le> length c - pos"
    using le_div_geq [of MAX_BUFF_SIZE "length c - pos"] that by (simp add: MAX_BUFF_SIZE_def)
  ultimately show ?thesis using c by (auto simp: Giving steps_left_def size_at_def min_def split: if_splits)
qed (use step inv get c in \<open>auto simp: steps_left_def size_at_def job_inv_def andThen_eq_Inr_conv Let_def
      split: option.splits if_splits\<close>)

lemma task_left:
  assumes step: "task_step n r t w = Inr (t', w')" and inv: "job_inv (files w) r s0 t (conn w)"
    and ends: "will_end (files w) r (conn w)" and clean: "clean r" and wf: "wf_fs (files w)" and rw: "writes r \<or> reads r"
  shows "steps_left (files w') r t' (conn w') < steps_left (files w) r t (conn w) \<and>
    (t' \<noteq> Finished \<longrightarrow> will_end (files w') r (conn w'))"
proof -
  consider "command r = WRITE" | "command r = GET" | "command r = RM" using rw by (auto simp: writes_def reads_def)
  then show ?thesis
  proof cases
    case 1
    with write_left [OF step inv] ends show ?thesis by (simp add: will_end_def)
  next
    case 2
    with ends obtain c where "node_at (files w) (rkey (files w) r) = Some (File c)" by (auto simp: will_end_def)
    with get_left [OF step inv 2 this] 2 show ?thesis by (auto simp: will_end_def)
  next
    case 3
    from remove_leaves(1,2) [OF step inv clean wf 3] 3 show ?thesis by (simp add: steps_left_def)
  qed
qed

section \<open>Runs that count the steps of one handler\<close>

inductive handler_run :: "nat \<Rightarrow> nat \<Rightarrow> live \<Rightarrow> nat \<Rightarrow> live \<Rightarrow> bool" for n i :: nat and c :: live where
  start: "handler_run n i c 0 c"
| own: "handler_run n i c k c1 \<Longrightarrow> inside_move n c1 i r a s t' w' c2 \<Longrightarrow> handler_run n i c (Suc k) c2"
| other:
    "handler_run n i c k c1 \<Longrightarrow> live_step n c1 c2 \<Longrightarrow>
     threads (live_sys c2) ! i = threads (live_sys c1) ! i \<Longrightarrow> marks c2 ! i = marks c1 ! i \<Longrightarrow> handler_run n i c k c2"

lemma inside_move_step: "inside_move n c i r a s t' w' c' \<Longrightarrow> live_step n c c'"
  using inside [of i c r a s n t' w'] by (simp add: inside_move_def)

text \<open>Every step of the server is of one of the two kinds for a thread that is in its handler.\<close>

lemma step_own_or_other:
  assumes "live_step n c c'" and i: "i < length (threads (live_sys c))" and at: "threads (live_sys c) ! i = (Holding r a, s)"
    and inv: "live_inv c"
  shows "(\<exists>t' w'. inside_move n c i r a s t' w' c') \<or>
    threads (live_sys c') ! i = threads (live_sys c) ! i \<and> marks c' ! i = marks c ! i"
  using assms(1)
proof (cases rule: live_step.cases)
  case (outside sys')
  then have "i < length (threads sys')" "threads sys' ! i = (Holding r a, s)"
    using i at step_threads(2) [OF outside(2,3)] by (auto simp: no_handler_moves_def)
  with outside i at show ?thesis by (simp add: new_marks_def)
next
  case (inside l q b s' t' w')
  then have move: "inside_move n c l q b s' t' w' c'" by (simp add: inside_move_def)
  show ?thesis
  proof (cases "l = i")
    case True
    with move inside_moveD(2) [OF move] at show ?thesis by auto
  next
    case False
    with inside_moveD(7,8) [OF move, of i] show ?thesis by simp
  qed
qed

lemma handler_run_first:
  "handler_run n i c1 k c' \<Longrightarrow> inside_move n c i r a s t' w' c1 \<Longrightarrow> handler_run n i c (Suc k) c'"
  by (induction rule: handler_run.induct) (blast intro: handler_run.intros)+

definition still_runs :: "live \<Rightarrow> nat \<Rightarrow> request_t \<Rightarrow> nat \<Rightarrow> nat \<Rightarrow> bool" where
  \<comment> \<open>a thread that has at most \<open>m\<close> steps of its handler before it\<close>
  "still_runs c i r a m \<longleftrightarrow>
     live_inv c \<and> i < length (threads (live_sys c)) \<and>
     ((\<exists>s. threads (live_sys c) ! i = (Ran r a, s)) \<or>
      (\<exists>s. threads (live_sys c) ! i = (Holding r a, s) \<and> will_end (sys_files (live_sys c)) r s \<and>
         steps_left (sys_files (live_sys c)) r (snd (marks c ! i)) s \<le> m))"

lemma still_runs_own:
  assumes run: "still_runs c i r a m" and move: "inside_move n c i q b s t' w' c'"
  shows "\<exists>m'. m = Suc m' \<and> still_runs c' i r a m'"
proof -
  note D = inside_moveD [OF move]
  have inv: "live_inv c" and i: "i < length (threads (live_sys c))" using run by (simp_all add: still_runs_def)
  note own = inside_move_inv [OF move inv]
  from run D(2) have r: "q = r" "b = a" and ends: "will_end (sys_files (live_sys c)) r s"
    and left: "steps_left (sys_files (live_sys c)) r (snd (marks c ! i)) s \<le> m"
    by (auto simp: still_runs_def)
  have "steps_left (files w') r t' (conn w') < steps_left (sys_files (live_sys c)) r (snd (marks c ! i)) s \<and>
    (t' \<noteq> Finished \<longrightarrow> will_end (files w') r (conn w'))"
    using task_left [OF D(3) own(4) _ own(1,3,2)] ends by (simp add: r sys_world_def)
  with left D(4-6) D(9) [OF own(8)] own(7) i r show ?thesis
    by (cases m) (auto simp: still_runs_def)
qed

lemma still_runs_mono: "still_runs c i r a m \<Longrightarrow> m \<le> m' \<Longrightarrow> still_runs c i r a m'"
  unfolding still_runs_def using le_trans by blast

lemma other_handler:
  assumes move: "inside_move n c l q b s' t' w' c'" and inv: "live_inv c" and li: "l \<noteq> i"
    and i: "i < length (threads (live_sys c))" and at: "threads (live_sys c) ! i = (Holding r a, s)"
    and ends: "will_end (sys_files (live_sys c)) r s"
  shows "will_end (sys_files (live_sys c')) r s \<and>
    steps_left (sys_files (live_sys c')) r (snd (marks c ! i)) s = steps_left (sys_files (live_sys c)) r (snd (marks c ! i)) s"
proof -
  note D = inside_moveD [OF move] and other = inside_move_inv [OF move inv]
  have ins: "inside (Holding r a) = Some r" by simp
  note own = live_invD [OF inv i at ins]
  show ?thesis
  proof (cases "command r = GET")
    case True
    have "command q = GET \<and> command r = GET" if "remote_path q = remote_path r"
      by (rule inside_exclusive [OF own(4) D(1) i]) (use li at D(2) that in simp_all)
    then have "compatible q r" by (auto simp: compatible_def)
    have "rkey (sys_files (live_sys c)) r \<notin> touched (sys_files (live_sys c)) q"
      using touched_other [OF own(1) \<open>compatible q r\<close>] True by simp
    note kept = file_kept [OF other(5) this ends]
    then have "steps_left (files w') r (snd (marks c ! i)) s = steps_left (sys_files (live_sys c)) r (snd (marks c ! i)) s"
      by (intro steps_left_cong [OF own(2)]) blast
    with kept show ?thesis unfolding D(4) by blast
  next
    case False
    then have "steps_left (files w') r (snd (marks c ! i)) s = steps_left (sys_files (live_sys c)) r (snd (marks c ! i)) s"
      by (intro steps_left_cong [OF own(2)]) blast
    with False ends show ?thesis unfolding D(4) by (simp add: will_end_def)
  qed
qed

lemma still_runs_other:
  assumes run: "still_runs c i r a m" and step: "live_step n c c'"
    and same: "threads (live_sys c') ! i = threads (live_sys c) ! i" "marks c' ! i = marks c ! i"
  shows "still_runs c' i r a m"
proof -
  have inv: "live_inv c" and i: "i < length (threads (live_sys c))" using run by (simp_all add: still_runs_def)
  have inv': "live_inv c'" by (rule live_inv_step [OF step inv])
  from step show ?thesis
  proof (cases rule: live_step.cases)
    case (outside sys')
    with step_threads(1,2) [OF outside(2,3)] have "sys_files (live_sys c') = sys_files (live_sys c)"
      and "length (threads (live_sys c)) \<le> length (threads (live_sys c'))" by simp_all
    with run inv' i same show ?thesis by (auto simp: still_runs_def)
  next
    case (inside l q b s' t' w')
    then have move: "inside_move n c l q b s' t' w' c'" by (simp add: inside_move_def)
    show ?thesis
    proof (cases "l = i")
      case True
      from still_runs_own [OF run move [unfolded True]] still_runs_mono show ?thesis by (metis lessI less_imp_le)
    next
      case False
      with run inv' i same inside_moveD(5) [OF move] other_handler [OF move inv False i, of r a] show ?thesis
        by (auto simp: still_runs_def)
    qed
  qed
qed

lemma still_runs_bound:
  assumes "handler_run n i c k c'" and "still_runs c i r a m"
  shows "\<exists>m'. k + m' = m \<and> still_runs c' i r a m'"
  using assms
proof (induction rule: handler_run.induct)
  case start
  then show ?case by simp
next
  case (own k c1 q b s t' w' c2)
  then obtain m1 where "k + m1 = m" "still_runs c1 i r a m1" by blast
  with still_runs_own [OF _ own.hyps(2)] show ?case by fastforce
next
  case (other k c1 c2)
  with still_runs_other show ?case by blast
qed



end
