(* ===== verification/Live_Runs.thy ===== *)
theory Live_Runs
  imports Live_Termination System_Runs
begin

text \<open>
  A scheduler that can be evaluated, and a concrete run of two handlers that take turns, an upload and a download.
\<close>

section \<open>An executable scheduler\<close>

definition outer :: "system \<Rightarrow> live \<Rightarrow> live" where
  "outer sys' c = \<lparr>live_sys = sys', marks = new_marks (live_sys c) sys' (marks c)\<rparr>"

definition phase_to :: "nat \<Rightarrow> phase \<Rightarrow> socket \<Rightarrow> file_lock_list \<times> node_heap \<Rightarrow> live \<Rightarrow> live" where
  "phase_to i p s locks c =
     outer ((live_sys c)\<lparr>sys_locks := locks, threads := (threads (live_sys c))[i := (p, s)]\<rparr>) c"

definition turn :: "nat \<Rightarrow> nat \<Rightarrow> live \<Rightarrow> live option" where
  \<comment> \<open>thread \<open>i\<close> makes its next step, if it can\<close>
  "turn n i c =
     (let sys = live_sys c; h = snd (sys_locks sys)
      in if i < length (threads sys) then
           (case threads sys ! i of
              (Receiving, s) \<Rightarrow>
                (case receiveRequest s of Inr (Some r, s') \<Rightarrow> Some (phase_to i (Got r) s' (sys_locks sys) c) | _ \<Rightarrow> None)
            | (Got r, s) \<Rightarrow>
                (case get_lock (remote_path r) (sys_locks sys) of
                   Inr (a, locks') \<Rightarrow> Some (phase_to i (Waiting r a) s locks' c) | Inl _ \<Rightarrow> None)
            | (Waiting r a, s) \<Rightarrow>
                if \<not> clean r \<or> \<not> sends_whole s then None
                else if writes r then
                  (case rwlock_wrlock a h of
                     Inr h' \<Rightarrow> Some (phase_to i (Holding r a) s (fst (sys_locks sys), h') c) | Inl _ \<Rightarrow> None)
                else if command r = GET then
                  (case rwlock_rdlock a h of
                     Inr h' \<Rightarrow> Some (phase_to i (Holding r a) s (fst (sys_locks sys), h') c) | Inl _ \<Rightarrow> None)
                else None
            | (Holding r a, s) \<Rightarrow>
                (case task_step n r (snd (marks c ! i)) (sys_world sys s) of
                   Inr (t', w') \<Rightarrow> Some
                     \<lparr>live_sys = sys\<lparr>sys_files := files w',
                        threads := (threads sys)[i := (if t' = Finished then Ran r a else Holding r a, conn w')]\<rparr>,
                      marks = (marks c)[i := (fst (marks c ! i), t')]\<rparr>
                 | Inl _ \<Rightarrow> None)
            | (Ran r a, s) \<Rightarrow>
                (case rwlock_unlock a h of
                   Inr h' \<Rightarrow> Some (phase_to i Ended (close_socket s) (fst (sys_locks sys), h') c) | Inl _ \<Rightarrow> None)
            | (Ended, s) \<Rightarrow> None)
         else None)"

fun turns :: "nat \<Rightarrow> nat list \<Rightarrow> live \<Rightarrow> live option" where
  "turns n [] c = Some c"
| "turns n (i # is) c = (case turn n i c of None \<Rightarrow> None | Some c' \<Rightarrow> turns n is c')"

lemma outer_step:
  assumes "step n (live_sys c) ((live_sys c)\<lparr>sys_locks := locks, threads := (threads (live_sys c))[i := (p, s)]\<rparr>)"
    and "i < length (threads (live_sys c))" and "\<And>r a s. threads (live_sys c) ! i \<noteq> (Holding r a, s)" and "\<And>r a. p = Holding r a \<Longrightarrow> clean r \<and> sends_whole s"
  shows "live_step n c (phase_to i p s locks c)"
  unfolding phase_to_def outer_def
  by (rule outside [OF assms(1)])
    (use assms(2-4) in \<open>auto simp: no_handler_moves_def plain_clients_def nth_list_update split: if_splits\<close>)

lemma turn_step:
  assumes "turn n i c = Some c'"
  shows "live_step n c c'"
proof -
  let ?sys = "live_sys c"
  have i: "i < length (threads ?sys)" using assms by (auto simp: turn_def Let_def split: if_splits)
  obtain p s where at: "threads ?sys ! i = (p, s)" by force
  note turn = assms [unfolded turn_def Let_def, simplified, simplified i at, simplified]
  show ?thesis
  proof (cases p)
    case Receiving
    with turn obtain r s' where rcv: "receiveRequest s = Inr (Some r, s')" and "c' = phase_to i (Got r) s' (sys_locks ?sys) c"
      by (auto split: sum.splits option.splits)
    with receive [OF i at [unfolded Receiving] rcv] outer_step [where p = "Got r" and s = s' and locks = "sys_locks ?sys", OF _ i, of n] at Receiving
    show ?thesis by simp
  next
    case (Got r)
    with turn obtain a locks' where get: "get_lock (remote_path r) (sys_locks ?sys) = Inr (a, locks')"
      and "c' = phase_to i (Waiting r a) s locks' c"
      by (auto split: sum.splits)
    with find_lock [OF i at [unfolded Got] get] outer_step [where p = "Waiting r a" and s = s and locks = locks', OF _ i, of n] at Got
    show ?thesis by simp
  next
    case (Waiting r a)
    from turn Waiting have ok: "clean r" "sends_whole s" by (auto split: if_splits)
    from turn Waiting obtain h' where c': "c' = phase_to i (Holding r a) s (fst (sys_locks ?sys), h') c"
      and "writes r \<and> rwlock_wrlock a (snd (sys_locks ?sys)) = Inr h' \<or>
        command r = GET \<and> rwlock_rdlock a (snd (sys_locks ?sys)) = Inr h'"
      by (auto split: if_splits sum.splits)
    then have "step n ?sys (?sys\<lparr>sys_locks := (fst (sys_locks ?sys), h'), threads := (threads ?sys)[i := (Holding r a, s)]\<rparr>)"
      using write_lock [OF i at [unfolded Waiting]] read_lock [OF i at [unfolded Waiting]] by blast
    from outer_step [OF this i] c' ok at Waiting show ?thesis by simp
  next
    case (Holding r a)
    with turn obtain t' w' where "task_step n r (snd (marks c ! i)) (sys_world ?sys s) = Inr (t', w')"
      and "c' = \<lparr>live_sys = ?sys\<lparr>sys_files := files w',
          threads := (threads ?sys)[i := (if t' = Finished then Ran r a else Holding r a, conn w')]\<rparr>,
        marks = (marks c)[i := (fst (marks c ! i), t')]\<rparr>"
      by (auto split: sum.splits)
    with inside [OF i at [unfolded Holding]] show ?thesis by simp
  next
    case (Ran r a)
    with turn obtain h' where un: "rwlock_unlock a (snd (sys_locks ?sys)) = Inr h'"
      and "c' = phase_to i Ended (close_socket s) (fst (sys_locks ?sys), h') c"
      by (auto split: sum.splits)
    with unlock [OF i at [unfolded Ran] un] at Ran
      outer_step [where p = Ended and s = "close_socket s" and locks = "(fst (sys_locks ?sys), h')", OF _ i, of n]
    show ?thesis by simp
  qed (use turn in simp_all)
qed

lemma turns_steps: "turns n is c = Some c' \<Longrightarrow> (live_step n)\<^sup>*\<^sup>* c c'"
  by (induction "is" arbitrary: c) (auto split: option.splits intro: converse_rtranclp_into_rtranclp turn_step)

definition fresh :: "system \<Rightarrow> live" where
  \<comment> \<open>no thread has entered its handler\<close>
  "fresh sys = \<lparr>live_sys = sys, marks = map (\<lambda>t. (snd t, Begin)) (threads sys)\<rparr>"

lemma fresh_step:
  assumes "step n sys sys'" and "\<forall>t \<in> set (threads sys) \<union> set (threads sys'). \<not> handling (fst t)"
  shows "live_step n (fresh sys) (fresh sys')"
proof -
  have "fresh sys' = \<lparr>live_sys = sys', marks = new_marks sys sys' (marks (fresh sys))\<rparr>"
    using assms(2) by (auto simp: fresh_def new_marks_def intro!: nth_equalityI)
  moreover have "no_handler_moves sys sys'" "plain_clients sys sys'"
    using assms(2) nth_mem by (force simp: no_handler_moves_def plain_clients_def)+
  ultimately show ?thesis using outside [of n "fresh sys" sys'] assms(1) by (simp add: fresh_def)
qed

definition live_demo :: live where
  "live_demo = fresh (demo_system (createFileLockList, [])
     [(Got (demo_request WRITE ''data/a'' 6), demo_socket [Arrive ''sec'', Arrive ''ond'']),
      (Got (demo_request GET ''data/ab'' 0), demo_socket [])])"

lemma live_received:
  "receiveRequest (demo_socket [Arrive ''WRITE,6,data/a'', Arrive ''sec'', Arrive ''ond'']) =
     Inr (Some (demo_request WRITE ''data/a'' 6), demo_socket [Arrive ''sec'', Arrive ''ond''])"
  "receiveRequest (demo_socket [Arrive ''GET,0,data/ab'']) = Inr (Some (demo_request GET ''data/ab'' 0), demo_socket [])"
proof -
  have "deSerializeRequest (Some ''WRITE,6,data/a'') = Inr (Some (demo_request WRITE ''data/a'' 6))"
    "deSerializeRequest (Some ''GET,0,data/ab'') = Inr (Some (demo_request GET ''data/ab'' 0))" by code_simp+
  then show "receiveRequest (demo_socket [Arrive ''WRITE,6,data/a'', Arrive ''sec'', Arrive ''ond'']) =
      Inr (Some (demo_request WRITE ''data/a'' 6), demo_socket [Arrive ''sec'', Arrive ''ond''])"
    "receiveRequest (demo_socket [Arrive ''GET,0,data/ab'']) = Inr (Some (demo_request GET ''data/ab'' 0), demo_socket [])"
    using receive_piece [of "demo_socket [Arrive ''WRITE,6,data/a'', Arrive ''sec'', Arrive ''ond'']" "''WRITE,6,data/a''"
        "[Arrive ''sec'', Arrive ''ond'']"]
      receive_piece [of "demo_socket [Arrive ''GET,0,data/ab'']" "''GET,0,data/ab''" "[]"]
    by (simp_all add: demo_socket_def cstr_def MAX_BUFF_SIZE_def)
qed

lemma fresh_logged:
  assumes "logged n fs (fresh sys) []" and "step n sys sys'"
    and "\<forall>t \<in> set (threads sys) \<union> set (threads sys'). \<not> handling (fst t)"
  shows "logged n fs (fresh sys') []"
proof -
  have "answered (fresh sys) (fresh sys') = []"
    using assms(3) nth_mem by (force simp: answered_def fresh_def split: prod.splits phase.splits)
  with logged.go [OF assms(1) fresh_step [OF assms(2,3)]] show ?thesis by simp
qed

lemma two_requests:
  assumes a: "receiveRequest sa = Inr (Some ra, sa')" and b: "receiveRequest sb = Inr (Some rb, sb')"
  shows "logged n (demo_files 50 []) (fresh (demo_system (createFileLockList, []) [(Got ra, sa'), (Got rb, sb')])) []"
proof -
  let ?s = "demo_system (createFileLockList, [])"
  have "live_boot (demo_files 50 []) (7, 8) = fresh (?s [])"
    by (simp add: live_boot_def fresh_def boot_def demo_system_def)
  with logged.boot [OF demo_wf] have s0: "logged n (demo_files 50 []) (fresh (?s [])) []" by metis
  have s1: "logged n (demo_files 50 []) (fresh (?s [(Receiving, sa)])) []"
    using accept [of n "?s []" sa] by (intro fresh_logged [OF s0]) (simp_all add: demo_system_def)
  have s2: "logged n (demo_files 50 []) (fresh (?s [(Receiving, sa), (Receiving, sb)])) []"
    using accept [of n "?s [(Receiving, sa)]" sb] by (intro fresh_logged [OF s1]) (simp_all add: demo_system_def)
  have s3: "logged n (demo_files 50 []) (fresh (?s [(Got ra, sa'), (Receiving, sb)])) []"
    using receive [of 0 "?s [(Receiving, sa), (Receiving, sb)]", OF _ _ a]
    by (intro fresh_logged [OF s2]) (simp_all add: demo_system_def)
  show ?thesis
    using receive [of 1 "?s [(Got ra, sa'), (Receiving, sb)]", OF _ _ b]
    by (intro fresh_logged [OF s3]) (simp_all add: demo_system_def)
qed

lemma live_demo_logged: "logged n (demo_files 50 []) live_demo []"
  unfolding live_demo_def by (rule two_requests [OF live_received])

definition live_order :: "nat list" where
  \<comment> \<open>the two threads get their locks; then their handlers take turns\<close>
  "live_order = [0, 1, 0, 1, 0, 1, 0, 0, 1, 0, 0, 1, 0, 0]"

definition live_result :: "live \<Rightarrow> bool" where
  "live_result c \<longleftrightarrow>
     length (threads (live_sys c)) = 2 \<and>
     fst (threads (live_sys c) ! 0) = Ran (demo_request WRITE ''data/a'' 6) 0 \<and>
     fst (threads (live_sys c) ! 1) = Ran (demo_request GET ''data/ab'' 0) 1 \<and>
     outbox (snd (threads (live_sys c) ! 0)) = ''1,0,NULL'' \<and>
     outbox (snd (threads (live_sys c) ! 1)) = ''1,5,OKother'' \<and>
     fst (marks c ! 0) = demo_socket [Arrive ''sec'', Arrive ''ond''] \<and> fst (marks c ! 1) = demo_socket [] \<and>
     cwd (sys_files (live_sys c)) = [''srv'']"

lemma live_demo_run: "\<exists>c. turns 1 live_order live_demo = Some c \<and> live_result c"
proof -
  have "case turns 1 live_order live_demo of None \<Rightarrow> False | Some c \<Rightarrow> live_result c" by code_simp
  then show ?thesis by (auto split: option.splits)
qed

lemma reachable_turns: "live_reachable n c \<Longrightarrow> turns n is c = Some c' \<Longrightarrow> live_reachable n c'"
  unfolding live_reachable_def using turns_steps by (meson rtranclp_trans)

lemma live_run_reachable:
  "turns n is live_demo = Some c \<Longrightarrow> live_reachable n c"
  using live_demo_logged [of n] logged_reachable reachable_turns by blast


theorem live_get_witness:
  "\<exists>c bs. turns 1 live_order live_demo = Some c \<and> live_result c \<and>
     node_at (sys_files (live_sys c)) [''srv'', ''data'', ''ab''] = Some (File bs) \<and>
     ''1,5,OKother'' = ''1,'' @ show_int (int (length bs)) @ '',OK'' @ bs"
proof -
  from live_demo_run obtain c where run: "turns 1 live_order live_demo = Some c" and res: "live_result c" by blast
  let ?t = "threads (live_sys c) ! 1"
  have "outbox (snd ?t) = outbox (fst (marks c ! 1)) @ ''0,0,unable to open and/or get size of the requested file'' \<or>
    (\<exists>bs. node_at (sys_files (live_sys c)) (rkey (sys_files (live_sys c)) (demo_request GET ''data/ab'' 0)) = Some (File bs) \<and>
       outbox (snd ?t) = outbox (fst (marks c ! 1)) @ ''1,'' @ show_int (int (length bs)) @ '',OK'' @ bs)"
    by (rule live_get [OF live_run_reachable [OF run], of 1 _ 1 _ _ "snd (marks c ! 1)"])
      (use res in \<open>simp_all add: live_result_def prod_eq_iff\<close>)
  with run res show ?thesis by (auto simp: live_result_def demo_socket_def rkey_def)
qed

lemma plain_run:
  "step n a b \<and> plain_clients a b \<Longrightarrow> (\<lambda>a b. step n a b \<and> plain_clients a b)\<^sup>*\<^sup>* b c \<Longrightarrow>
   (\<lambda>a b. step n a b \<and> plain_clients a b)\<^sup>*\<^sup>* a c"
  by (rule converse_rtranclp_into_rtranclp [of "\<lambda>a b. step n a b \<and> plain_clients a b"])


section \<open>A write and a read of one file\<close>

fun log_turns :: "nat \<Rightarrow> nat list \<Rightarrow> live \<Rightarrow> answer list \<Rightarrow> (live \<times> answer list) option" where
  "log_turns n [] c h = Some (c, h)"
| "log_turns n (i # is) c h =
     (case turn n i c of None \<Rightarrow> None | Some c' \<Rightarrow> log_turns n is c' (h @ answered c c'))"

lemma log_turns_logged: "logged n fs c h \<Longrightarrow> log_turns n is c h = Some (c', h') \<Longrightarrow> logged n fs c' h'"
  by (induction "is" arbitrary: c h) (auto split: option.splits intro: logged.go turn_step)

definition reads_demo :: live where
  "reads_demo = fresh (demo_system (createFileLockList, [])
     [(Got (demo_request WRITE ''data/a'' 6), demo_socket [Arrive ''sec'', Arrive ''ond'']),
      (Got demo_get, demo_socket [])])"

lemma reads_demo_logged: "logged n (demo_files 50 []) reads_demo []"
  unfolding reads_demo_def by (rule two_requests [OF live_received(1) demo_received])

definition reads_order :: "nat list" where
  \<comment> \<open>the reader waits until the writer has given the lock back\<close>
  "reads_order = [0, 1, 0, 0, 0, 0, 0, 0, 0, 0, 0, 1, 1, 1, 1]"

definition reads_result :: "live \<times> answer list \<Rightarrow> bool" where
  "reads_result ch \<longleftrightarrow>
     map a_request (snd ch) = [demo_request WRITE ''data/a'' 6, demo_get] \<and>
     latest (demo_files 50 []) ''data/a'' (take 1 (snd ch)) = Some (Holds ''second'') \<and>
     map (outbox \<circ> a_start) (snd ch) = ['''', '''']"

lemma reads_demo_run: "\<exists>ch. log_turns 1 reads_order reads_demo [] = Some ch \<and> reads_result ch"
proof -
  have "case log_turns 1 reads_order reads_demo [] of None \<Rightarrow> False | Some ch \<Rightarrow> reads_result ch" by code_simp
  then show ?thesis by (auto split: option.splits)
qed


section \<open>A removal and a read of one file\<close>

definition gone_demo :: live where
  "gone_demo = fresh (demo_system (createFileLockList, [])
     [(Got (demo_request RM ''data/a'' 0), demo_socket []), (Got demo_get, demo_socket [])])"

lemma gone_demo_logged: "logged n (demo_files 50 []) gone_demo []"
proof -
  have "deSerializeRequest (Some ''RM,0,data/a'') = Inr (Some (demo_request RM ''data/a'' 0))" by code_simp
  then have "receiveRequest (demo_socket [Arrive ''RM,0,data/a'']) = Inr (Some (demo_request RM ''data/a'' 0), demo_socket [])"
    using receive_piece [of "demo_socket [Arrive ''RM,0,data/a'']" "''RM,0,data/a''" "[]"]
    by (simp add: demo_socket_def cstr_def MAX_BUFF_SIZE_def)
  from two_requests [OF this demo_received] show ?thesis unfolding gone_demo_def .
qed

definition gone_result :: "live \<times> answer list \<Rightarrow> bool" where
  "gone_result ch \<longleftrightarrow>
     map (outbox \<circ> a_end) (snd ch) = [''1,0,OK'', get_answer Gone] \<and>
     latest (demo_files 50 []) ''data/a'' (snd ch) = Some Gone \<and>
     (\<forall>t \<in> set (threads (live_sys (fst ch))). (case fst t of Holding r a \<Rightarrow> False | _ \<Rightarrow> True)) \<and>
     cwd (sys_files (live_sys (fst ch))) = [''srv'']"

lemma gone_demo_run: "\<exists>ch. log_turns 1 [0, 1, 0, 0, 0, 1, 1] gone_demo [] = Some ch \<and> gone_result ch"
proof -
  have "case log_turns 1 [0, 1, 0, 0, 0, 1, 1] gone_demo [] of None \<Rightarrow> False | Some ch \<Rightarrow> gone_result ch" by code_simp
  then show ?thesis by (auto split: option.splits)
qed


section \<open>A client that does not send its whole file\<close>

definition wait_demo :: live where
  "wait_demo = fresh (demo_system (createFileLockList, [])
     [(Got (demo_request WRITE ''data/a'' 6), demo_socket [Arrive ''sec'']), (Got demo_get, demo_socket [])])"

lemma wait_demo_logged: "logged n (demo_files 50 []) wait_demo []"
proof -
  have "deSerializeRequest (Some ''WRITE,6,data/a'') = Inr (Some (demo_request WRITE ''data/a'' 6))" by code_simp
  then have "receiveRequest (demo_socket [Arrive ''WRITE,6,data/a'', Arrive ''sec'']) =
      Inr (Some (demo_request WRITE ''data/a'' 6), demo_socket [Arrive ''sec''])"
    using receive_piece [of "demo_socket [Arrive ''WRITE,6,data/a'', Arrive ''sec'']" "''WRITE,6,data/a''" "[Arrive ''sec'']"]
    by (simp add: demo_socket_def cstr_def MAX_BUFF_SIZE_def)
  from two_requests [OF this demo_received] show ?thesis unfolding wait_demo_def .
qed

definition wait_result :: "live \<Rightarrow> bool" where
  "wait_result c \<longleftrightarrow>
     length (threads (live_sys c)) = 2 \<and> fst (threads (live_sys c) ! 0) = Holding (demo_request WRITE ''data/a'' 6) 0 \<and>
     snd (marks c ! 0) = Taking [''srv'', ''data'', ''a''] 3 True \<and>
     (case task_step 1 (demo_request WRITE ''data/a'' 6) (snd (marks c ! 0)) (sys_world (live_sys c) (snd (threads (live_sys c) ! 0)))
      of Inl e \<Rightarrow> e = Blocked | Inr _ \<Rightarrow> False) \<and>
     short_path (demo_request WRITE ''data/a'' 6) (sys_clock (live_sys c))"

lemma wait_demo_run: "\<exists>c. turns 1 [0, 0, 0, 0, 0, 0] wait_demo = Some c \<and> wait_result c"
proof -
  have "case turns 1 [0, 0, 0, 0, 0, 0] wait_demo of None \<Rightarrow> False | Some c \<Rightarrow> wait_result c" by code_simp
  then show ?thesis by (auto split: option.splits)
qed


section \<open>A handler from its beginning to its end\<close>

fun own_run :: "nat \<Rightarrow> nat \<Rightarrow> nat \<Rightarrow> live \<Rightarrow> live option" where
  \<comment> \<open>\<open>k\<close> steps of the handler of thread \<open>i\<close>\<close>
  "own_run n i 0 c = Some c"
| "own_run n i (Suc k) c =
     (if i < length (threads (live_sys c)) then
        (case fst (threads (live_sys c) ! i) of
           Holding r a \<Rightarrow> (case turn n i c of None \<Rightarrow> None | Some c' \<Rightarrow> own_run n i k c')
         | _ \<Rightarrow> None)
      else None)"

lemma turn_own:
  assumes "turn n i c = Some c'" and "i < length (threads (live_sys c))" and "threads (live_sys c) ! i = (Holding r a, s)"
  shows "\<exists>t' w'. inside_move n c i r a s t' w' c'"
  using assms by (auto simp: turn_def inside_move_def Let_def split: sum.splits)

lemma own_run_handler: "own_run n i k c = Some c' \<Longrightarrow> handler_run n i c k c'"
proof (induction k arbitrary: c)
  case (Suc k)
  then have i: "i < length (threads (live_sys c))" by (simp split: if_splits)
  obtain p s where at: "threads (live_sys c) ! i = (p, s)" by force
  with Suc.prems i obtain r a c1 where p: "p = Holding r a" and turn: "turn n i c = Some c1" and rest: "own_run n i k c1 = Some c'"
    by (auto split: phase.splits option.splits)
  from turn_own [OF turn i at [unfolded p]] handler_run_first [OF Suc.IH [OF rest]] show ?case by blast
qed (simp add: handler_run.start)

definition ready_demo :: "live \<Rightarrow> bool" where
  "ready_demo c \<longleftrightarrow>
     length (threads (live_sys c)) = 2 \<and>
     threads (live_sys c) ! 0 = (Holding (demo_request WRITE ''data/a'' 6) 0, demo_socket [Arrive ''sec'', Arrive ''ond'']) \<and>
     marks c ! 0 = (demo_socket [Arrive ''sec'', Arrive ''ond''], Begin) \<and>
     short_path (demo_request WRITE ''data/a'' 6) (sys_clock (live_sys c)) \<and>
     (case own_run 1 0 7 c of None \<Rightarrow> False | Some c' \<Rightarrow> fst (threads (live_sys c') ! 0) = Ran (demo_request WRITE ''data/a'' 6) 0)"

lemma ready_demo_run: "\<exists>c. turns 1 [0, 1, 0, 1] live_demo = Some c \<and> ready_demo c"
proof -
  have "case turns 1 [0, 1, 0, 1] live_demo of None \<Rightarrow> False | Some c \<Rightarrow> ready_demo c" by code_simp
  then show ?thesis by (auto split: option.splits)
qed

lemma ready_demo_left:
  "will_end fs (demo_request WRITE ''data/a'' 6) (demo_socket [Arrive ''sec'', Arrive ''ond''])"
  "steps_left fs (demo_request WRITE ''data/a'' 6) Begin (demo_socket [Arrive ''sec'', Arrive ''ond'']) = 13"
  by (simp_all add: will_end_def steps_left_def demo_request_def demo_socket_def)



end
