(* ===== verification/Strtok_Race.thy ===== *)
theory Strtok_Race
  imports Protocol
begin

text \<open>
  \<open>deSerializeRequest\<close> is called by all worker threads without a lock, and \<open>strtok\<close> keeps
  the position in its string in one variable for the whole process. Here each call of
  \<open>strtok\<close> is a step of its own, and the steps of two threads may come in any order.
\<close>

section \<open>deSerializeRequest, one call of strtok at a time\<close>

record reader =
  buffer_cpy :: "string option"  \<comment> \<open>what the next call passes: the copy first, then \<open>NULL\<close>\<close>
  count :: nat
  type_var :: "command_type option"
  len_var :: "int option"
  path_var :: "string option"
  stopped :: bool

definition start_reader :: "string \<Rightarrow> reader" where
  "start_reader b =
     \<lparr>buffer_cpy = Some b, count = 0, type_var = None, len_var = None, path_var = None, stopped = False\<rparr>"

definition consume :: "string \<Rightarrow> reader \<Rightarrow> reader" where
  \<comment> \<open>the body of the loop\<close>
  "consume token r =
     (if count r = 0 then r\<lparr>type_var := Some (strToCommandType (Some token)), count := count r + 1\<rparr>
      else if count r = 1 then r\<lparr>len_var := Some (strtol token), count := count r + 1\<rparr>
      else if count r = 2 then r\<lparr>path_var := Some token, count := count r + 1\<rparr>
      else r\<lparr>stopped := True\<rparr>)"

definition call_strtok :: "reader \<Rightarrow> string \<Rightarrow> reader \<times> string" where
  \<comment> \<open>the next call of \<open>strtok\<close> of a thread; the string is what the process has saved\<close>
  "call_strtok r saved =
     (if stopped r then (r, saved)
      else
        (case strtok (CHR '','') (case buffer_cpy r of Some b \<Rightarrow> b | None \<Rightarrow> saved) of
           None \<Rightarrow> (r\<lparr>buffer_cpy := None, stopped := True\<rparr>, '''')
         | Some (token, rest) \<Rightarrow> ((consume token r)\<lparr>buffer_cpy := None\<rparr>, rest)))"

definition finish_reader :: "reader \<Rightarrow> stop + request_t option" where
  "finish_reader r =
     (if 3 \<le> count r then
        (case (path_var r, type_var r, len_var r) of
           (Some p, Some t, Some l) \<Rightarrow> Inr (createRequestFromParts t (Some p) l)
         | _ \<Rightarrow> Inl Indeterminate)
      else Inr None)"

fun run_readers :: "bool list \<Rightarrow> reader \<times> reader \<times> string \<Rightarrow> reader \<times> reader \<times> string" where
  \<comment> \<open>\<open>True\<close> in the schedule is a step of the first thread, \<open>False\<close> one of the second\<close>
  "run_readers [] s = s"
| "run_readers (True # sched) (r1, r2, saved) =
     (let (r1', saved') = call_strtok r1 saved in run_readers sched (r1', r2, saved'))"
| "run_readers (False # sched) (r1, r2, saved) =
     (let (r2', saved') = call_strtok r2 saved in run_readers sched (r1, r2', saved'))"

section \<open>Without interference\<close>

lemma four_calls:
  "finish_reader (fst (run_readers (replicate 4 True) (start_reader b, r2, saved))) = deSerializeRequest (Some b)"
  by (simp add: deSerializeRequest_tokens numeral_eq_Suc start_reader_def call_strtok_def consume_def
      finish_reader_def split: option.split)

lemma stopped_after:
  "stopped (fst (run_readers (replicate 4 True) (start_reader b, r2, saved)))"
  by (simp add: numeral_eq_Suc start_reader_def call_strtok_def consume_def split: option.split)

text \<open>
  A thread whose calls of \<open>strtok\<close> are not interrupted by those of another one reads its
  request as \<open>deSerializeRequest\<close> says, whatever other threads have left behind, and is
  finished after four calls.
\<close>

theorem reader_alone:
  "finish_reader (fst (run_readers (replicate 4 True) (start_reader b, other, saved))) =
     deSerializeRequest (Some b) \<and>
   stopped (fst (run_readers (replicate 4 True) (start_reader b, other, saved)))"
  by (simp add: four_calls stopped_after)

section \<open>With interference\<close>

text \<open>
  C26. Two clients can be mixed up: when the calls of \<open>strtok\<close> of two threads overlap, the first
  thread can end up with the command of its own client and the path of the other one. So one
  client's \<open>RM\<close> removes the file that the other one wanted to read.
\<close>

theorem readers_race:
  assumes "command_string t = Inr ct" and "command_string u = Inr cu"
    and "0 \<le> l" and "l \<le> LONG_MAX" and "p \<noteq> ''''" and "q \<noteq> ''''"
    and "CHR '','' \<notin> set p" and "CHR '','' \<notin> set q"
  shows "\<exists>sched r1 r2 saved'.
    run_readers sched
      (start_reader (ct @ '','' @ show_int l @ '','' @ p), start_reader (cu @ '','' @ show_int m @ '','' @ q), saved) =
      (r1, r2, saved') \<and>
    stopped r1 \<and> stopped r2 \<and>
    finish_reader r1 = Inr (Some \<lparr>command = t, remote_path = q, data_len = l\<rparr>)"
proof -
  have ct: "ct \<noteq> ''''" "CHR '','' \<notin> set ct" "t \<noteq> UNKNOWN" and cu: "cu \<noteq> ''''" "CHR '','' \<notin> set cu"
    using assms(1,2) command_string_plain command_string_defined by blast+
  let ?sched = "[True, True, False, False, True, True, False]"
  have "strToCommandType (Some ct) = t" by (rule strToCommandType_command_string [OF assms(1)])
  then show ?thesis
    using assms ct cu
    by (intro exI [of _ ?sched])
      (simp add: start_reader_def call_strtok_def consume_def finish_reader_def
        createRequestFromParts_eq)
qed

theorem readers_race_witness:
  "\<exists>sched r1 r2 saved'.
    run_readers sched (start_reader ''RM,0,data/old'', start_reader ''GET,0,data/precious'', '''') =
      (r1, r2, saved') \<and>
    stopped r1 \<and> stopped r2 \<and>
    finish_reader r1 = Inr (Some \<lparr>command = RM, remote_path = ''data/precious'', data_len = 0\<rparr>)"
  using readers_race [of RM "''RM''" GET "''GET''" 0 "''data/old''" "''data/precious''" 0 "''''"]
  by (simp add: LONG_MAX_def)

end
