(* ===== verification/Console.thy ===== *)
theory Console
  imports Client
begin

text \<open>
  Printing: a function that prints is a pair of its text and its result; dropping the text gives the function of the
  other theories. The help and the messages of the argument parser, a line of the log, and the address of the server; what the
  programs print as a whole is in theory \<open>Console_Programs\<close>.
\<close>

section \<open>Functions that print\<close>

type_synonym 'a printed = "string \<times> (stop + 'a)"

definition say :: "string \<Rightarrow> unit printed" where
  "say text = (text, Inr ())"

definition quietly :: "stop + 'a \<Rightarrow> 'a printed" where
  \<comment> \<open>a call that prints nothing\<close>
  "quietly m = ('''', m)"

definition andSay :: "'a printed \<Rightarrow> ('a \<Rightarrow> 'b printed) \<Rightarrow> 'b printed" where
  "andSay m f =
     (case snd m of
        Inl e \<Rightarrow> (fst m, Inl e)
      | Inr x \<Rightarrow> (fst m @ fst (f x), snd (f x)))"

lemma snd_printed [simp]:
  "snd (say t) = Inr ()" "snd (quietly q) = q" "snd (andSay m f) = andThen (snd m) (\<lambda>x. snd (f x))"
  by (simp_all add: say_def quietly_def andSay_def andThen_def split: sum.splits)

lemma fst_printed [simp]:
  "fst (say t) = t" "fst (quietly q) = ''''"
  "snd m = Inl e \<Longrightarrow> fst (andSay m f) = fst m"
  "snd m = Inr x \<Longrightarrow> fst (andSay m f) = fst m @ fst (f x)"
  by (simp_all add: say_def quietly_def andSay_def)

definition tab :: string where
  "tab = [CHR 0x09]"

section \<open>The command line\<close>

definition printHelp :: string where
  "printHelp =
     ''Usage:'' @ newline @
     ''  rfs <COMMAND> [ARGUMENTS]'' @ newline @ newline @
     ''Commands:'' @ newline @
     ''  WRITE    Upload a local file to the remote file system'' @ newline @
     ''  GET      Download a file from the remote file system'' @ newline @
     ''  RM       Remove a file from the remote file system'' @ newline @
     ''  LS       List version history for a file in the remote file system'' @ newline @ newline @
     ''Arguments:'' @ newline @
     ''  --server IP     optional IP address of the remote server (default: localhost)'' @ newline @
     ''  --local PATH    Path to a local file (required for WRITE, optional for GET)'' @ newline @
     ''  --remote PATH   Path to a remote file (required for GET/RM/LS, optional for WRITE)'' @ newline @ newline @
     ''Examples:'' @ newline @
     ''  rfs WRITE --local PATH '' @ newline @
     ''  rfs GET --remote PATH'' @ newline @
     ''  rfs RM --remote PATH'' @ newline @
     ''  rfs LS --remote PATH'' @ newline"

definition fail_with :: "string \<Rightarrow> 'a printed" where
  \<comment> \<open>a message and \<open>exit(1)\<close>\<close>
  "fail_with text = (text, Inl (ExitWith 1))"

lemma fail_with_simps [simp]: "fst (fail_with t) = t" "snd (fail_with t) = Inl (ExitWith 1)"
  by (simp_all add: fail_with_def)

fun getPathArg_out :: "string \<Rightarrow> string list \<Rightarrow> string option printed" where
  \<comment> \<open>the loop of \<open>getPathArg\<close> over the arguments, with its messages\<close>
  "getPathArg_out flag [] = quietly (Inr None)"
| "getPathArg_out flag (curr_arg # rest) =
     (if equals (Some curr_arg) (Some flag) then
        (case rest of
           [] \<Rightarrow> fail_with (''ERROR: not enough arguments after the '' @ flag @ '' flag!'' @ newline)
         | path # _ \<Rightarrow>
             if is_flag path
             then fail_with (''ERROR: the '' @ flag @ '' flag cannot have another flag immediately after it!'' @ newline)
             else quietly (Inr (Some path)))
      else getPathArg_out flag rest)"

definition argParser_out :: "string list \<Rightarrow> command_t option printed" where
  "argParser_out argv =
     (let commandType = getCommandType argv in
      if commandType = UNKNOWN
      then fail_with (''ERROR: unable to find a valid command in the args'' @ newline @ printHelp)
      else
        andSay (getPathArg_out SERVER_FLAG (drop 1 argv)) (\<lambda>ip_arg.
        andSay (getPathArg_out LOCAL_FLAG (drop 1 argv)) (\<lambda>local_arg.
        andSay (getPathArg_out REMOTE_FLAG (drop 1 argv)) (\<lambda>remote_arg.
        let ip_address = (if ip_arg = None then Some DEFAULT_IP else ip_arg) in
        if commandType = WRITE then
          (if local_arg = None
           then fail_with (''ERROR: unable to find local file path in args'' @ newline @ printHelp)
           else quietly (createCommandStruct commandType ip_address local_arg
                  (if remote_arg = None then local_arg else remote_arg)))
        else if remote_arg = None
        then fail_with (''ERROR: unable to find remote file path in args'' @ newline @ printHelp)
        else if commandType = GET then
          quietly (createCommandStruct commandType ip_address
            (if local_arg = None then remote_arg else local_arg) remote_arg)
        else quietly (createCommandStruct commandType ip_address (Some '''') remote_arg)))))"

definition test_args_main :: "string list \<Rightarrow> unit printed" where
  \<comment> \<open>the \<open>main\<close> of \<open>arg_parser.c\<close> under \<open>TEST_ARGS\<close>, which ends in \<open>exit(0)\<close>\<close>
  "test_args_main argv =
     andSay (argParser_out argv) (\<lambda>cmd.
       (case cmd of
          None \<Rightarrow> quietly (Inl NullPointer)
        | Some c \<Rightarrow>
            andSay (quietly (command_string (c_type c))) (\<lambda>name.
            andSay (say (''COMMAND = '' @ name @ newline @ ''LOCAL_PATH = '' @ local_path c @ newline @
                         ''REMOTE_PATH = '' @ cmd_remote_path c @ newline)) (\<lambda>_.
            quietly (Inl (ExitWith 0))))))"

lemma snd_if: "snd (if c then a else b) = (if c then snd a else snd b)"
  by simp

lemma snd_getPathArg_out: "snd (getPathArg_out flag args) = scan_args flag args"
  by (induction args) (auto split: list.splits)

lemma argParser_out_snd: "snd (argParser_out argv) = argParser argv"
  by (simp add: argParser_out_def argParser_def getPathArg_def snd_getPathArg_out snd_if Let_def cong: if_cong)

definition speaks :: "'a printed \<Rightarrow> bool" where
  \<comment> \<open>a message if and only if the program exits\<close>
  "speaks m \<longleftrightarrow>
     fst m = '''' \<and> (\<exists>x. snd m = Inr x) \<or> prefix ''ERROR: '' (fst m) \<and> snd m = Inl (ExitWith 1)"

lemma speaks_simps [simp]:
  "speaks (quietly (Inr x))"
  "speaks (fail_with (CHR ''E'' # CHR ''R'' # CHR ''R'' # CHR ''O'' # CHR ''R'' # CHR '':'' # CHR '' '' # text))"
  by (simp_all add: speaks_def)

lemma speaks_andSay:
  assumes "speaks m" and "\<And>x. snd m = Inr x \<Longrightarrow> speaks (f x)"
  shows "speaks (andSay m f)"
proof (cases "snd m")
  case (Inl e)
  with assms(1) show ?thesis by (simp add: speaks_def)
next
  case (Inr x)
  with assms(1) have "fst m = ''''" by (simp add: speaks_def)
  with assms(2) [OF Inr] Inr show ?thesis by (simp add: speaks_def)
qed

lemma speaks_getPathArg: "speaks (getPathArg_out flag args)"
proof (induction args)
  case (Cons a args)
  then show ?case by (cases args) simp_all
qed simp

lemma argParser_prints:
  "snd (argParser_out argv) = argParser argv \<and>
   (fst (argParser_out argv) = '''' \<and> (\<exists>cmd. snd (argParser_out argv) = Inr (Some cmd)) \<or>
   prefix ''ERROR: '' (fst (argParser_out argv)) \<and> snd (argParser_out argv) = Inl (ExitWith 1))"
proof -
  have "speaks (argParser_out argv)"
  proof (cases "getCommandType argv = UNKNOWN")
    case True
    then show ?thesis by (simp add: argParser_out_def)
  next
    case False
    show ?thesis
      unfolding argParser_out_def Let_def if_not_P [OF False]
      apply (intro speaks_andSay speaks_getPathArg)
      subgoal for ip loc rem by (cases ip; cases loc; cases rem) simp_all
      done
  qed
  moreover have "snd (argParser_out argv) = Inr r \<Longrightarrow> r \<noteq> None" for r
    by (auto simp: argParser_out_snd argParser_Inr_iff)
  ultimately show ?thesis by (auto simp: speaks_def argParser_out_snd)
qed

text \<open>
  The messages do not change what the argument parser returns, and it either returns a command and prints nothing, or
  prints a message and exits with status 1.
\<close>

theorem argParser_out_text:
  "snd (argParser_out argv) = argParser argv \<and>
   (fst (argParser_out argv) = '''' \<and> (\<exists>cmd. snd (argParser_out argv) = Inr (Some cmd)) \<or>
   prefix ''ERROR: '' (fst (argParser_out argv)) \<and> snd (argParser_out argv) = Inl (ExitWith 1))"
  by (rule argParser_prints)

section \<open>The log of a thread\<close>

definition logThread :: "int \<Rightarrow> string \<Rightarrow> string option \<Rightarrow> string" where
  "logThread tid action details =
     (case details of
        Some d \<Rightarrow> tab @ ''[Thread '' @ show_int tid @ ''] '' @ action @ '': '' @ d @ newline
      | None \<Rightarrow> tab @ ''[Thread '' @ show_int tid @ ''] '' @ action @ newline)"

section \<open>The address of the server\<close>

definition fgets :: "nat \<Rightarrow> string \<Rightarrow> string option" where
  \<comment> \<open>a line with its newline, or as much of it as fits beside the zero byte; \<open>None\<close> at the end of the stream\<close>
  "fgets n input =
     (if input = '''' then None
      else (let t = take (n - 1) input; line = takeWhile (\<lambda>c. c \<noteq> CHR 0x0A) t
            in Some (if line = t then t else line @ newline)))"

definition printServerAddress :: "string option \<Rightarrow> unit printed" where
  \<comment> \<open>what the shell command writes; \<open>None\<close> is a failing \<open>popen\<close>. The result of \<open>fgets\<close> is not tested, so \<open>buffer\<close> may
     be printed without ever having been written\<close>
  "printServerAddress output =
     (case output of
        None \<Rightarrow> quietly (Inl NullPointer)
      | Some text \<Rightarrow>
          (case fgets 100 text of
             None \<Rightarrow> quietly (Inl Indeterminate)
           | Some buffer \<Rightarrow>
               andSay (quietly (cstring_in (buffer @ [NUL]))) (\<lambda>s. say (''SERVER IP = '' @ s @ newline))))"

lemma printServerAddress_undefined:
  "printServerAddress None = ('''', Inl NullPointer)"
  "printServerAddress (Some '''') = ('''', Inl Indeterminate)"
  by (simp_all add: printServerAddress_def fgets_def quietly_def)

text \<open>
  The address that the server prints is the first line that the shell command writes, cut off after 99 characters.
\<close>

lemma printServerAddress_line:
  assumes "cstr text" and "CHR 0x0A \<notin> set text" and "text \<noteq> ''''"
  shows "printServerAddress (Some (text @ newline @ rest)) =
    (''SERVER IP = '' @ take 99 text @ (if length text < 99 then newline else '''') @ newline, Inr ())"
proof -
  let ?line = "take 99 text @ (if length text < 99 then newline else '''')"
  have all: "takeWhile (\<lambda>c. c \<noteq> CHR 0x0A) (take k text) = take k text" for k
    using assms(2) by (auto simp: takeWhile_eq_all_conv dest: in_set_takeD)
  have "takeWhile (\<lambda>c. c \<noteq> CHR 0x0A) (text @ CHR 0x0A # x) = text" for x
    using assms(2) by (simp add: takeWhile_append)
  with all [of 99] assms(3) have "fgets 100 (text @ newline @ rest) = Some ?line"
    by (cases "length text < 99") (auto simp: fgets_def Let_def take_Cons')
  moreover have "cstr ?line" using assms(1) by (auto simp: cstr_def dest: in_set_takeD)
  then have "cstring_in (?line @ [NUL]) = Inr ?line" using cstring_in_padded [of ?line 1] by simp
  ultimately show ?thesis by (simp add: printServerAddress_def andSay_def quietly_def say_def)
qed

end
