(* ===== verification/Console_Threads.thy ===== *)
theory Console_Threads
  imports Console Server Thread_Runs Workers
begin

text \<open>
  What a worker thread prints: the dashes for each buffer of a file, the warnings and the log. \<open>stderr\<close> is not modelled, and the macro
  \<open>debug\<close> prints nothing unless \<open>DEBUG_MODE\<close> is defined. The output of the two programs is in theory \<open>Console_Programs\<close>.
\<close>

section \<open>Transfers\<close>

fun sendFile_loop_out :: "nat \<Rightarrow> rstream \<Rightarrow> socket \<Rightarrow> (bool \<times> socket) printed" where
  "sendFile_loop_out 0 file s = quietly (Inl OutOfFuel)"
| "sendFile_loop_out (Suc n) file s =
     andSay (say ''-'') (\<lambda>_.
       (let (buffer, file') = fread MAX_BUFF_SIZE file;
            (sent, s') = sendALL buffer s;
            status = (if sent then 1 else 0 :: int)
        in if status < 0 then quietly (Inr (False, s'))
           else if rs_eof file' then quietly (Inr (True, s'))
           else sendFile_loop_out n file' s'))"

definition sendFileContents_out :: "nat \<Rightarrow> string \<Rightarrow> int \<Rightarrow> world \<Rightarrow> (bool \<times> world) printed" where
  "sendFileContents_out n source_file file_size w =
     (case fopen_rb (files w) source_file of
        None \<Rightarrow> quietly (Inr (False, w))
      | Some file \<Rightarrow>
          andSay (say ''sending file contents '') (\<lambda>_.
          andSay (sendFile_loop_out n file (conn w)) (\<lambda>(r, s').
          andSay (say (if r then newline else '''')) (\<lambda>_. quietly (Inr (r, w\<lparr>conn := s'\<rparr>))))))"

fun receive_loop_out ::
  "nat \<Rightarrow> int \<Rightarrow> bool \<Rightarrow> key \<Rightarrow> filesys \<Rightarrow> socket \<Rightarrow> (bool \<times> filesys \<times> socket) printed" where
  "receive_loop_out n remaining success file fs s =
     (if 0 < remaining then
        andSay (say ''-'') (\<lambda>_.
        (case n of
           0 \<Rightarrow> quietly (Inl OutOfFuel)
         | Suc m \<Rightarrow>
             andSay (quietly (recv MAX_BUFF_SIZE s)) (\<lambda>(bytes_received, buffer, s').
               if bytes_received < 0 then quietly (Inr (success, fs, s'))
               else
                 (let (bytes_written, fs') = fwrite file buffer fs
                  in receive_loop_out m (remaining - bytes_received)
                       (success \<and> int bytes_written = bytes_received) file fs' s'))))
      else quietly (Inr (success, fs, s)))"

declare receive_loop_out.simps [simp del]

definition receiveFileContents_out :: "nat \<Rightarrow> string \<Rightarrow> int \<Rightarrow> world \<Rightarrow> (bool \<times> world) printed" where
  "receiveFileContents_out n destination_path file_size w =
     (case fopen_wb (files w) destination_path of
        None \<Rightarrow> quietly (Inr (False, w))
      | Some (file, fs1) \<Rightarrow>
          andSay (say ''receiving file contents '') (\<lambda>_.
          andSay (receive_loop_out n file_size True file fs1 (conn w)) (\<lambda>(success, fs2, s').
          andSay (say newline) (\<lambda>_. quietly (Inr (success, w\<lparr>files := fs2, conn := s'\<rparr>))))))"

definition dashes :: "string \<Rightarrow> bool" where
  \<comment> \<open>one dash for each round of a loop\<close>
  "dashes t \<longleftrightarrow> set t \<subseteq> {CHR ''-''}"

lemma dashes_simps [simp]: "dashes ''''" "dashes (c # t) \<longleftrightarrow> c = CHR ''-'' \<and> dashes t"
  by (auto simp: dashes_def)

definition progress :: "string \<Rightarrow> string \<Rightarrow> bool" where
  "progress head t \<longleftrightarrow> (\<exists>d. dashes d \<and> t = head @ d @ newline)"

lemma send_loop_out:
  "snd (sendFile_loop_out n fh s) = sendFile_loop n fh s \<and> dashes (fst (sendFile_loop_out n fh s))"
proof (induction n fh s rule: sendFile_loop_out.induct)
  case (2 n fh s)
  obtain b f t s1 where got: "fread MAX_BUFF_SIZE fh = (b, f)" "sendALL b s = (t, s1)" by fastforce
  show ?case
  proof (cases "rs_eof f")
    case False
    with "2.IH" [OF refl got [symmetric] refl] got show ?thesis by (simp add: Let_def)
  qed (simp add: got Let_def)
qed simp

lemma send_loop_true: "sendFile_loop n fh s = Inr (r, s') \<Longrightarrow> r"
  by (induction n fh s rule: sendFile_loop.induct) (auto simp: Let_def split: prod.splits if_splits)

definition upload_text :: "int \<Rightarrow> string" where
  \<comment> \<open>the progress of a file of this length: one dash for each buffer, and one more for the end of the file if it fills them\<close>
  "upload_text len = ''sending file contents '' @ replicate (Suc (nat len div MAX_BUFF_SIZE)) (CHR ''-'') @ newline"

lemma send_dashes:
  assumes "rs_data f = Some c" and "\<not> rs_eof f" and "sendFile_loop n f s = Inr q"
  shows "fst (sendFile_loop_out n f s) = replicate (Suc ((length c - rs_pos f) div MAX_BUFF_SIZE)) (CHR ''-'')"
  using assms
proof (induction n arbitrary: f s)
  case (Suc n)
  let ?left = "length c - rs_pos f"
  obtain ok s1 where sent: "sendALL (take MAX_BUFF_SIZE (drop (rs_pos f) c)) s = (ok, s1)" by fastforce
  show ?case
  proof (cases "?left < MAX_BUFF_SIZE")
    case True
    with Suc.prems sent show ?thesis by (simp add: fread_def Let_def)
  next
    case False
    let ?f = "f\<lparr>rs_pos := rs_pos f + MAX_BUFF_SIZE, rs_eof := False\<rparr>"
    from False have "fread MAX_BUFF_SIZE f = (take MAX_BUFF_SIZE (drop (rs_pos f) c), ?f)"
      using Suc.prems(1,2) by (simp add: fread_def Let_def min_absorb2)
    moreover from this sent Suc.prems(3) have "sendFile_loop n ?f s1 = Inr q" by (simp split: if_splits)
    moreover have "?left div MAX_BUFF_SIZE = Suc ((length c - (rs_pos f + MAX_BUFF_SIZE)) div MAX_BUFF_SIZE)"
      using False by (simp add: le_div_geq MAX_BUFF_SIZE_def)
    ultimately show ?thesis using Suc.IH [of ?f s1] Suc.prems(1) sent by simp
  qed
qed simp

lemma sendFileContents_dashes:
  assumes "sendFileContents n src len w = Inr (ok, w')" and "0 \<le> getFileSize (files w) src"
  shows "fst (sendFileContents_out n src len w) = upload_text (getFileSize (files w) src)"
proof -
  from assms(2) obtain f where f: "fopen_rb (files w) src = Some f" by (auto simp: getFileSize_def split: option.splits)
  then have start: "rs_pos f = 0" "\<not> rs_eof f" by (auto simp: fopen_rb_def split: option.splits node.splits)
  from assms(1) f obtain q where run: "sendFile_loop n f (conn w) = Inr q"
    by (auto simp: sendFileContents_def andThen_eq_Inr_conv)
  with sendFile_loop_directory start obtain c where c: "rs_data f = Some c" by (cases "rs_data f") auto
  obtain r s' where q: "q = (r, s')" by force
  have "r" using send_loop_true [OF run [unfolded q]] .
  have "snd (sendFile_loop_out n f (conn w)) = Inr (True, s')" using send_loop_out run q \<open>r\<close> by simp
  with send_dashes [OF c start(2) run] f c start show ?thesis
    by (simp add: sendFileContents_out_def upload_text_def getFileSize_def seek_end_tell_def)
qed

lemma snd_sendFileContents_out: "snd (sendFileContents_out n src len w) = sendFileContents n src len w"
  using send_loop_out
  by (auto simp: sendFileContents_out_def sendFileContents_def case_prod_beta' split: option.splits)

lemma receive_loop_out:
  "snd (receive_loop_out n remaining ok fh fs s) = receive_loop n remaining ok fh fs s \<and>
   dashes (fst (receive_loop_out n remaining ok fh fs s))"
proof (induction n arbitrary: remaining ok fs s)
  case 0
  show ?case by (simp add: receive_loop_out.simps [of 0] receive_loop.simps [of 0])
next
  case (Suc n)
  show ?case
  proof (cases "0 < remaining \<and> (\<exists>q. recv MAX_BUFF_SIZE s = Inr q)")
    case False
    then show ?thesis
      by (cases "recv MAX_BUFF_SIZE s") (auto simp: receive_loop_out.simps [of "Suc n"] receive_loop.simps [of "Suc n"])
  next
    case True
    then obtain b bytes s1 where recv: "recv MAX_BUFF_SIZE s = Inr (b, bytes, s1)" by (metis surj_pair)
    obtain k fs1 where "fwrite fh bytes fs = (k, fs1)" by force
    with Suc [of "remaining - b" "ok \<and> int k = b" fs1 s1] True recv show ?thesis
      by (simp add: receive_loop_out.simps [of "Suc n"] receive_loop.simps [of "Suc n"])
  qed
qed

lemma snd_receiveFileContents_out: "snd (receiveFileContents_out n dst len w) = receiveFileContents n dst len w"
  using receive_loop_out
  by (auto simp: receiveFileContents_out_def receiveFileContents_def case_prod_beta' split: option.splits)

lemma sendFileContents_progress:
  assumes "sendFileContents n src len w = Inr (ok, w')"
  shows "fst (sendFileContents_out n src len w) = '''' \<and> fopen_rb (files w) src = None \<or>
    progress ''sending file contents '' (fst (sendFileContents_out n src len w))"
proof (cases "fopen_rb (files w) src")
  case None
  then show ?thesis by (simp add: sendFileContents_out_def)
next
  case (Some fh)
  with assms obtain r s' where loop: "sendFile_loop n fh (conn w) = Inr (r, s')"
    by (auto simp: sendFileContents_def andThen_eq_Inr_conv)
  with send_loop_out [of n fh "conn w"] send_loop_true [OF loop] have
    "snd (sendFile_loop_out n fh (conn w)) = Inr (True, s')" "dashes (fst (sendFile_loop_out n fh (conn w)))"
    by auto
  with Some show ?thesis by (simp add: sendFileContents_out_def progress_def)
qed

lemma receiveFileContents_progress:
  assumes "receiveFileContents n dst len w = Inr (ok, w')"
  shows "fst (receiveFileContents_out n dst len w) = '''' \<and> fopen_wb (files w) dst = None \<or>
    progress ''receiving file contents '' (fst (receiveFileContents_out n dst len w))"
proof (cases "fopen_wb (files w) dst")
  case None
  then show ?thesis by (simp add: receiveFileContents_out_def)
next
  case (Some q)
  obtain fh fs1 where q: "q = (fh, fs1)" by force
  with Some assms obtain r fs2 s' where "receive_loop n len True fh fs1 (conn w) = Inr (r, fs2, s')"
    by (auto simp: receiveFileContents_def andThen_eq_Inr_conv)
  with receive_loop_out [of n len True fh fs1 "conn w"] have
    "snd (receive_loop_out n len True fh fs1 (conn w)) = Inr (r, fs2, s')"
    "dashes (fst (receive_loop_out n len True fh fs1 (conn w)))"
    by auto
  with Some q show ?thesis by (simp add: receiveFileContents_out_def progress_def)
qed

section \<open>A thread of the server\<close>

definition handleWriteRequest_out :: "nat \<Rightarrow> request_t \<Rightarrow> world \<Rightarrow> world printed" where
  "handleWriteRequest_out n write_request w =
     andSay (quietly (createNestedDirectories (remote_path write_request) (files w))) (\<lambda>(_, fs1).
     andSay (quietly (saveCurrentVersion n (remote_path write_request) (w\<lparr>files := fs1\<rparr>))) (\<lambda>(status1, w2).
     andSay (if status1 then
               receiveFileContents_out n (remote_path write_request) (data_len write_request) w2
             else quietly (Inr (False, w2))) (\<lambda>(status2, w3).
     andSay (quietly (buildAndSendResponse status2 0 (Some '''') (conn w3))) (\<lambda>(_, s4).
       quietly (Inr (w3\<lparr>conn := s4\<rparr>))))))"

definition handleGetRequest_out :: "nat \<Rightarrow> request_t \<Rightarrow> world \<Rightarrow> world printed" where
  "handleGetRequest_out n get_request w =
     (let source_path = remote_path get_request;
          source_length = getFileSize (files w) source_path
      in if source_length < 0 then
           andSay (quietly (buildAndSendResponse False 0
                     (Some ''unable to open and/or get size of the requested file'') (conn w)))
             (\<lambda>(_, s1). quietly (Inr (w\<lparr>conn := s1\<rparr>)))
         else
           andSay (quietly (buildAndSendResponse True source_length (Some ''OK'') (conn w))) (\<lambda>(_, s1).
           andSay (sendFileContents_out n source_path source_length (w\<lparr>conn := s1\<rparr>)) (\<lambda>(_, w2).
             quietly (Inr w2))))"

lemma snd_handlers_out:
  "snd (handleWriteRequest_out n r w) = handleWriteRequest n r w"
  "snd (handleGetRequest_out n r w) = handleGetRequest n r w"
  by (simp_all add: handleWriteRequest_out_def handleWriteRequest_def handleGetRequest_out_def handleGetRequest_def
      Let_def case_prod_beta' snd_if snd_receiveFileContents_out snd_sendFileContents_out cong: if_cong)

definition receiveRequest_out :: "socket \<Rightarrow> (request_t option \<times> socket) printed" where
  "receiveRequest_out s =
     andSay (quietly (recv MAX_BUFF_SIZE s)) (\<lambda>(receiveStatus, bytes, s').
       if receiveStatus < 0 then
         andSay (say (''WARNING: couldn't receive data from the client'' @ newline)) (\<lambda>_. quietly (Inr (None, s')))
       else
         (let buffer = bytes @ replicate (MAX_BUFF_SIZE - length bytes) NUL in
          andSay (quietly (cstring_in buffer)) (\<lambda>text.
          andSay (quietly (deSerializeRequest (Some text))) (\<lambda>req.
            (case req of
               None \<Rightarrow>
                 andSay (say (''WARNING: unable to de-serialize '' @ [CHR 0x27] @ text @ [CHR 0x27] @
                              '' into a valid request object'' @ newline))
                   (\<lambda>_. quietly (Inr (None, s')))
             | Some _ \<Rightarrow> quietly (Inr (req, s')))))))"

definition locked_out :: "int \<Rightarrow> string \<Rightarrow> string \<Rightarrow> stop + node_heap \<Rightarrow> (node_heap \<Rightarrow> stop + node_heap) \<Rightarrow>
    world printed \<Rightarrow> (world \<times> node_heap) printed" where
  \<comment> \<open>one branch of the \<open>switch\<close>: the lock, its line, the handler, the unlock, its line\<close>
  "locked_out tid action path take_lock give_back handler =
     andSay (quietly take_lock) (\<lambda>h1.
     andSay (say (logThread tid action (Some path))) (\<lambda>_.
     andSay handler (\<lambda>w'.
     andSay (quietly (give_back h1)) (\<lambda>h2.
     andSay (say (logThread tid ''unlock'' (Some path))) (\<lambda>_. quietly (Inr (w', h2)))))))"

definition switch_out :: "nat \<Rightarrow> int \<Rightarrow> request_t \<Rightarrow> nat \<Rightarrow> node_heap \<Rightarrow> world \<Rightarrow> (world \<times> node_heap) printed" where
  \<comment> \<open>the \<open>switch\<close> over the command\<close>
  "switch_out n tid request a h w =
     (case command request of
        WRITE \<Rightarrow>
          locked_out tid ''write lock'' (remote_path request) (rwlock_wrlock a h) (rwlock_unlock a)
            (handleWriteRequest_out n request w)
      | RM \<Rightarrow>
          locked_out tid ''write lock'' (remote_path request) (rwlock_wrlock a h) (rwlock_unlock a)
            (quietly (handleRemoveRequest request w))
      | GET \<Rightarrow>
          locked_out tid ''read lock'' (remote_path request) (rwlock_rdlock a h) (rwlock_unlock a)
            (handleGetRequest_out n request w)
      | LS \<Rightarrow>
          andSay (quietly (respond False ''optional command isn't implemented yet'' w)) (\<lambda>w'. quietly (Inr (w', h)))
      | UNKNOWN \<Rightarrow>
          andSay (quietly (respond False ''didn't receive valid command'' w)) (\<lambda>w'. quietly (Inr (w', h))))"

definition threadClientHandler_out :: "nat \<Rightarrow> int \<Rightarrow> server_t \<Rightarrow> server_t printed" where
  "threadClientHandler_out n tid srv =
     andSay (receiveRequest_out (conn (server_world srv))) (\<lambda>(req, s1).
       (let w = (server_world srv)\<lparr>conn := s1\<rparr> in
        case req of
          None \<Rightarrow>
            andSay (quietly (respond False ''unable to receive request'' w)) (\<lambda>w'.
              quietly (Inr (srv\<lparr>server_world := finish w'\<rparr>)))
        | Some request \<Rightarrow>
            andSay (quietly (command_string (command request))) (\<lambda>name.
            andSay (say (logThread tid ''received request'' (Some name))) (\<lambda>_.
            andSay (quietly (getLockFor (Some (remote_path request)) (file_lock_manager srv) (lock_heap srv)))
              (\<lambda>(lockNode, mgr, h).
                (case lockNode of
                   None \<Rightarrow>
                     andSay (quietly (respond False ''failed to get file lock'' w)) (\<lambda>w'.
                     andSay (say (logThread tid ''unable to find read/write lock for'' (Some (remote_path request)))) (\<lambda>_.
                     quietly (Inr \<lparr>server_world = finish w', file_lock_manager = mgr, lock_heap = h\<rparr>)))
                 | Some a \<Rightarrow>
                     andSay (switch_out n tid request a h w) (\<lambda>(w', h').
                       quietly (Inr \<lparr>server_world = finish w', file_lock_manager = mgr, lock_heap = h'\<rparr>))))))))"

lemma snd_receiveRequest_out: "snd (receiveRequest_out s) = receiveRequest s"
proof (cases "recv MAX_BUFF_SIZE s")
  case (Inr q)
  obtain b bytes s1 where q: "q = (b, bytes, s1)" by (cases q) auto
  show ?thesis
  proof (cases "b < 0")
    case False
    let ?t = "cstring_in (bytes @ replicate (MAX_BUFF_SIZE - length bytes) NUL)"
    from Inr q False show ?thesis
      by (auto simp: receiveRequest_out_def receiveRequest_def andThen_def split: sum.splits option.splits)
  qed (simp add: Inr q receiveRequest_out_def receiveRequest_def)
qed (simp add: receiveRequest_out_def receiveRequest_def)

lemma snd_locked_out:
  "snd (locked_out tid action path take_lock give_back handler) =
   andThen take_lock (\<lambda>h1. andThen (snd handler) (\<lambda>w'. andThen (give_back h1) (\<lambda>h2. Inr (w', h2))))"
  by (simp add: locked_out_def)

lemma snd_thread_out: "snd (threadClientHandler_out n tid srv) = threadClientHandler n srv"
proof (cases "receiveRequest (conn (server_world srv))")
  case (Inl e)
  then show ?thesis by (simp add: threadClientHandler_out_def threadClientHandler_def snd_receiveRequest_out)
next
  case (Inr got)
  obtain req s1 where got: "got = (req, s1)" by force
  note run = Inr [unfolded got]
  show ?thesis
  proof (cases req)
    case None
    with run show ?thesis by (simp add: threadClientHandler_out_def threadClientHandler_def Let_def snd_receiveRequest_out)
  next
    case (Some r)
    with run receiveRequest_path(2) obtain name where name: "command_string (command r) = Inr name"
      using command_string_defined by blast
    show ?thesis
    proof (cases "getLockFor (Some (remote_path r)) (file_lock_manager srv) (lock_heap srv)")
      case (Inl e)
      with run Some name show ?thesis
        by (simp add: threadClientHandler_out_def threadClientHandler_def Let_def snd_receiveRequest_out)
    next
      case found: (Inr l)
      obtain node mgr h where "l = (node, mgr, h)" by (cases l) auto
      with run Some name found show ?thesis
        by (cases node; cases "command r")
          (simp_all add: threadClientHandler_out_def threadClientHandler_def switch_out_def snd_locked_out snd_handlers_out
            snd_receiveRequest_out Let_def case_prod_beta')
    qed
  qed
qed

definition work_text :: "command_type \<Rightarrow> string \<Rightarrow> bool" where
  \<comment> \<open>what a handler prints for a command\<close>
  "work_text t shown \<longleftrightarrow>
     shown = '''' \<or> t = WRITE \<and> progress ''receiving file contents '' shown \<or> t = GET \<and> progress ''sending file contents '' shown"

lemma write_text:
  assumes "handleWriteRequest n r w = Inr w'"
  shows "\<exists>t. handleWriteRequest_out n r w = (t, Inr w') \<and> work_text WRITE t"
proof -
  from assms obtain b fs1 ok w2 ok' w3 sent s4 where
    mk: "createNestedDirectories (remote_path r) (files w) = Inr (b, fs1)"
    and save: "saveCurrentVersion n (remote_path r) (w\<lparr>files := fs1\<rparr>) = Inr (ok, w2)"
    and recv: "(if ok then receiveFileContents n (remote_path r) (data_len r) w2 else Inr (False, w2)) = Inr (ok', w3)"
    and reply: "buildAndSendResponse ok' 0 (Some '''') (conn w3) = Inr (sent, s4)"
    by (auto simp: handleWriteRequest_def andThen_eq_Inr_conv)
  let ?out = "if ok then receiveFileContents_out n (remote_path r) (data_len r) w2 else quietly (Inr (False, w2))"
  have "snd ?out = Inr (ok', w3)" using recv by (simp add: snd_receiveFileContents_out split: if_splits)
  with mk save reply have "fst (handleWriteRequest_out n r w) = fst ?out"
    by (auto simp: handleWriteRequest_out_def snd_receiveFileContents_out)
  moreover have "work_text WRITE (fst ?out)"
    using recv receiveFileContents_progress [of n "remote_path r" "data_len r" w2] by (auto simp: work_text_def)
  ultimately show ?thesis using snd_handlers_out(1) [of n r w] assms by (simp add: prod_eq_iff)
qed

lemma get_text:
  assumes "handleGetRequest n r w = Inr w'"
  shows "\<exists>t. handleGetRequest_out n r w = (t, Inr w') \<and> work_text GET t"
proof (cases "getFileSize (files w) (remote_path r) < 0")
  case True
  with assms have "fst (handleGetRequest_out n r w) = ''''"
    by (auto simp: handleGetRequest_def handleGetRequest_out_def andThen_eq_Inr_conv)
  then show ?thesis using snd_handlers_out(2) [of n r w] assms by (simp add: prod_eq_iff work_text_def)
next
  case False
  let ?len = "getFileSize (files w) (remote_path r)"
  from False assms obtain sent s1 b w2 where "buildAndSendResponse True ?len (Some ''OK'') (conn w) = Inr (sent, s1)"
    and send: "sendFileContents n (remote_path r) ?len (w\<lparr>conn := s1\<rparr>) = Inr (b, w2)"
    by (auto simp: handleGetRequest_def andThen_eq_Inr_conv Let_def)
  with False have "fst (handleGetRequest_out n r w) = fst (sendFileContents_out n (remote_path r) ?len (w\<lparr>conn := s1\<rparr>))"
    by (simp add: handleGetRequest_out_def snd_sendFileContents_out Let_def)
  moreover from sendFileContents_progress [OF send]
  have "work_text GET (fst (sendFileContents_out n (remote_path r) ?len (w\<lparr>conn := s1\<rparr>)))" by (auto simp: work_text_def)
  ultimately show ?thesis using snd_handlers_out(2) [of n r w] assms by (simp add: prod_eq_iff)
qed

lemma locked_text:
  assumes "andThen take_lock (\<lambda>h1. andThen handler (\<lambda>w'. andThen (give_back h1) (\<lambda>h2. Inr (w', h2)))) = Inr (w', h')"
    and "\<And>w1. handler = Inr w1 \<Longrightarrow> \<exists>t. out = (t, Inr w1) \<and> P t"
  shows "\<exists>t. locked_out tid action path take_lock give_back out =
    (logThread tid action (Some path) @ t @ logThread tid ''unlock'' (Some path), Inr (w', h')) \<and> P t"
proof -
  from assms(1) obtain h1 w1 where "take_lock = Inr h1" and run: "handler = Inr w1" and "give_back h1 = Inr h'" "w1 = w'"
    by (auto simp: andThen_eq_Inr_conv)
  moreover from assms(2) [OF run] obtain t where "out = (t, Inr w1)" "P t" by blast
  ultimately show ?thesis by (intro exI [of _ t]) (simp add: locked_out_def andSay_def say_def quietly_def)
qed

lemma receive_silent: "receiveRequest s = Inr (Some r, s') \<Longrightarrow> receiveRequest_out s = ('''', Inr (Some r, s'))"
  by (auto simp: receiveRequest_out_def receiveRequest_def Let_def andThen_eq_Inr_conv andSay_def quietly_def
      split: if_splits)

lemma receive_warns:
  assumes "receiveRequest s = Inr (None, s')"
  shows "\<exists>t. receiveRequest_out s = (''WARNING: '' @ t, Inr (None, s'))"
  using assms
  by (auto simp: receiveRequest_out_def receiveRequest_def Let_def andThen_eq_Inr_conv andSay_def quietly_def say_def
      split: if_splits)

lemma switch_text:
  assumes "snd (switch_out n tid r a h w) = Inr (w', h')" and "writes r \<or> command r = GET"
  shows "\<exists>t. switch_out n tid r a h w =
    (logThread tid (if writes r then ''write lock'' else ''read lock'') (Some (remote_path r)) @ t @
     logThread tid ''unlock'' (Some (remote_path r)), Inr (w', h')) \<and> work_text (command r) t"
proof (cases "command r")
  case WRITE
  with assms(1) locked_text [OF _ write_text] show ?thesis
    by (simp add: switch_out_def snd_locked_out snd_handlers_out writes_def)
next
  case GET
  with assms(1) locked_text [OF _ get_text] show ?thesis
    by (simp add: switch_out_def snd_locked_out snd_handlers_out writes_def)
next
  case RM
  have "handleRemoveRequest r w = Inr w1 \<Longrightarrow> \<exists>t. quietly (handleRemoveRequest r w) = (t, Inr w1) \<and> work_text RM t" for w1
    by (simp add: quietly_def work_text_def)
  with assms(1) RM locked_text [of _ "handleRemoveRequest r w"] show ?thesis
    by (simp add: switch_out_def snd_locked_out writes_def)
qed (use assms(2) in \<open>simp_all add: writes_def\<close>)

lemma thread_lines:
  assumes run: "threadClientHandler n srv = Inr srv'"
    and req: "receiveRequest (conn (server_world srv)) = Inr (Some r, s1)" and name: "command_string (command r) = Inr name"
    and node: "getLockFor (Some (remote_path r)) (file_lock_manager srv) (lock_heap srv) = Inr (Some a, mgr, h)"
    and locks: "writes r \<or> command r = GET"
  shows "\<exists>t. threadClientHandler_out n tid srv =
    (logThread tid ''received request'' (Some name) @
     logThread tid (if writes r then ''write lock'' else ''read lock'') (Some (remote_path r)) @ t @
     logThread tid ''unlock'' (Some (remote_path r)), Inr srv') \<and> work_text (command r) t"
proof -
  have "snd (threadClientHandler_out n tid srv) = Inr srv'" by (simp add: snd_thread_out run)
  with receive_silent [OF req] name node obtain w' h' where
    sw: "snd (switch_out n tid r a h ((server_world srv)\<lparr>conn := s1\<rparr>)) = Inr (w', h')"
    by (auto simp: threadClientHandler_out_def Let_def andThen_eq_Inr_conv)
  from switch_text [OF sw locks] obtain t where t: "work_text (command r) t" and
    "switch_out n tid r a h ((server_world srv)\<lparr>conn := s1\<rparr>) =
      (logThread tid (if writes r then ''write lock'' else ''read lock'') (Some (remote_path r)) @ t @
       logThread tid ''unlock'' (Some (remote_path r)), Inr (w', h'))" by blast
  with receive_silent [OF req] name node have "fst (threadClientHandler_out n tid srv) =
     logThread tid ''received request'' (Some name) @
     logThread tid (if writes r then ''write lock'' else ''read lock'') (Some (remote_path r)) @ t @
     logThread tid ''unlock'' (Some (remote_path r))"
    by (simp add: threadClientHandler_out_def Let_def)
  with t show ?thesis by (intro exI [of _ t]) (simp add: prod_eq_iff snd_thread_out run)
qed

text \<open>
  The log of a thread: printing does not change what the thread does, and a thread that ends after a request that needs a lock has written
  the request, the lock that it took, the progress of its handler and that it gave the lock back; no line says so before it has happened.
\<close>

theorem thread_log:
  assumes "threadClientHandler n srv = Inr srv'"
    and "receiveRequest (conn (server_world srv)) = Inr (Some r, s1)" and "command_string (command r) = Inr name"
    and "getLockFor (Some (remote_path r)) (file_lock_manager srv) (lock_heap srv) = Inr (Some a, mgr, h)"
    and "writes r \<or> command r = GET"
  shows "\<exists>t. threadClientHandler_out n tid srv =
    (logThread tid ''received request'' (Some name) @
     logThread tid (if writes r then ''write lock'' else ''read lock'') (Some (remote_path r)) @ t @
     logThread tid ''unlock'' (Some (remote_path r)), Inr srv') \<and> work_text (command r) t"
  using thread_lines [OF assms] .

theorem thread_log_witness:
  "\<exists>srv'. threadClientHandler_out 9 5 (demo_server [] createFileLockList [Arrive ''RM,0,data/b'']) =
     (tab @ ''[Thread 5] received request: RM'' @ newline @ tab @ ''[Thread 5] write lock: data/b'' @ newline @
      tab @ ''[Thread 5] unlock: data/b'' @ newline, Inr srv')"
proof -
  let ?srv = "demo_server [] createFileLockList [Arrive ''RM,0,data/b'']"
  have "(case threadClientHandler 9 ?srv of Inl _ \<Rightarrow> False | Inr _ \<Rightarrow> True) \<and>
    (case getLockFor (Some ''data/b'') (Some createFileLockList) [] of Inr (Some a, _, _) \<Rightarrow> True | _ \<Rightarrow> False)"
    and "deSerializeRequest (Some ''RM,0,data/b'') = Inr (Some (demo_request RM ''data/b'' 0))"
    by code_simp+
  moreover from this(2) have "\<exists>s1. receiveRequest (conn (server_world ?srv)) = Inr (Some (demo_request RM ''data/b'' 0), s1)"
    using receive_piece [of "conn (server_world ?srv)" "''RM,0,data/b''" "[]"]
    by (simp add: demo_server_def cstr_def MAX_BUFF_SIZE_def)
  ultimately obtain srv' s1 a mgr h where "threadClientHandler 9 ?srv = Inr srv'"
    and "receiveRequest (conn (server_world ?srv)) = Inr (Some (demo_request RM ''data/b'' 0), s1)"
    and "getLockFor (Some ''data/b'') (Some createFileLockList) [] = Inr (Some a, mgr, h)"
    by (auto split: sum.splits option.splits prod.splits)
  moreover have "show_int 5 = ''5''" by code_simp
  ultimately show ?thesis
    using thread_log [of 9 ?srv srv' "demo_request RM ''data/b'' 0" s1 "''RM''" a mgr h 5]
    by (auto simp: demo_server_def writes_def logThread_def work_text_def)
qed

end
