(* ===== verification/Console_Programs.thy ===== *)
theory Console_Programs
  imports Console_Threads Client_Runs
begin

text \<open>
  Everything that the two programs print on \<open>stdout\<close>, from their first line to the last one, and what it says about their results.
\<close>

section \<open>The server\<close>

definition PORT :: int where "PORT = 8080"

definition thread_number :: "int \<Rightarrow> int \<Rightarrow> arg_event list \<Rightarrow> int \<Rightarrow> int" where
  \<comment> \<open>the number that the thread reads from its arguments; \<open>junk\<close> when it is read before it is written\<close>
  "thread_number junk tid sched sd =
     (case run_args tid sched (Some \<lparr>socket_descriptor = sd, thread_id = None\<rparr>) None of
        Inr (Some t) \<Rightarrow> t
      | _ \<Rightarrow> junk)"

definition connected_line :: "string \<Rightarrow> int \<Rightarrow> string" where
  "connected_line ip port =
     newline @ ''Client connected at IP: '' @ ip @ '' and port: '' @ show_int port @ newline"

fun accept_loop_out ::
  "nat \<Rightarrow> int \<Rightarrow> (accept_result \<times> string \<times> int) list \<Rightarrow> server_run \<Rightarrow> (int option \<times> server_run) printed" where
  \<comment> \<open>each connection with the address and the port of its client\<close>
  "accept_loop_out n junk [] run = quietly (Inr (None, run))"
| "accept_loop_out n junk ((AcceptFails, ip, port) # evs) run = quietly (Inr (Some (- 1), run))"
| "accept_loop_out n junk ((Accepted s time sd create_status tid sched, ip, port) # evs) run =
     andSay (say (connected_line ip port)) (\<lambda>_.
     andSay (quietly (createAndDetachThread create_status tid sched sd)) (\<lambda>status.
     andSay
       (if status then
          threadClientHandler_out n (thread_number junk tid sched sd)
            ((run_state run)\<lparr>server_world := (server_world (run_state run))\<lparr>conn := s, clock := time\<rparr>\<rparr>)
        else
          andSay (quietly (respond False ''unable to spawn worker thread for this request''
                     ((server_world (run_state run))\<lparr>conn := s, clock := time\<rparr>)))
            (\<lambda>w. quietly (Inr ((run_state run)\<lparr>server_world := finish w\<rparr>))))
       (\<lambda>srv. accept_loop_out n junk evs
                \<lparr>run_state = srv, served = served run @ [conn (server_world srv)]\<rparr>)))"

definition main_server_out ::
  "nat \<Rightarrow> int \<Rightarrow> int \<Rightarrow> int \<Rightarrow> string option \<Rightarrow> int \<Rightarrow> (accept_result \<times> string \<times> int) list \<Rightarrow> world \<Rightarrow>
   (int option \<times> server_run) printed" where
  \<comment> \<open>\<open>host\<close> is what the shell command in \<open>printServerAddress\<close> writes\<close>
  "main_server_out n junk socket_status binding_status host listen_status evs w =
     (let run0 = \<lparr>run_state = \<lparr>server_world = w, file_lock_manager = None, lock_heap = []\<rparr>, served = []\<rparr> in
      if socket_status < 0 then
        andSay (say (''Error while creating socket'' @ newline)) (\<lambda>_. quietly (Inr (Some (- 1), run0)))
      else
        andSay (say (''Socket created successfully'' @ newline)) (\<lambda>_.
        if binding_status < 0 then
          andSay (say (''Couldn't bind to the port'' @ newline)) (\<lambda>_. quietly (Inr (Some (- 1), run0)))
        else
          andSay (say (''Done with binding'' @ newline)) (\<lambda>_.
          andSay (printServerAddress host) (\<lambda>_.
          if listen_status < 0 then quietly (Inr (Some (- 1), run0))
          else
            andSay (say (newline @ ''Listening for incoming connections.....'' @ newline)) (\<lambda>_.
            accept_loop_out n junk evs
             (run0\<lparr>run_state := (run_state run0)\<lparr>file_lock_manager := Some createFileLockList\<rparr>\<rparr>))))))"

definition thread_text :: "int \<Rightarrow> string \<Rightarrow> bool" where
  \<comment> \<open>the output of one thread: a warning, or the request and, when it needs a lock, the lock, the progress and the unlock\<close>
  "thread_text tid t \<longleftrightarrow>
     prefix ''WARNING: '' t \<or>
     (\<exists>cmd. t = logThread tid ''received request'' (Some cmd)) \<or>
     (\<exists>cmd path. t = logThread tid ''received request'' (Some cmd) @
                    logThread tid ''unable to find read/write lock for'' (Some path)) \<or>
     (\<exists>cmd kind path shown c. t = logThread tid ''received request'' (Some cmd) @ logThread tid kind (Some path) @ shown @
        logThread tid ''unlock'' (Some path) \<and> kind \<in> {''write lock'', ''read lock''} \<and> work_text c shown)"

lemma snd_accept_loop_out: "snd (accept_loop_out n junk evs run) = accept_loop n (map fst evs) run"
proof (induction n junk evs run rule: accept_loop_out.induct)
  case (3 n junk s time sd create_status tid sched ip port evs run)
  show ?case
  proof (cases "createAndDetachThread create_status tid sched sd")
    case (Inr status)
    with 3 show ?thesis by (auto simp: snd_thread_out intro!: andThen_cong)
  qed simp
qed simp_all

lemma thread_output:
  assumes run: "threadClientHandler n srv = Inr srv'"
  shows "\<exists>t. threadClientHandler_out n tid srv = (t, Inr srv') \<and> thread_text tid t"
proof -
  let ?m = "threadClientHandler_out n tid srv"
  have res: "snd ?m = Inr srv'" by (simp add: snd_thread_out run)
  from run obtain req s1 where recv: "receiveRequest (conn (server_world srv)) = Inr (req, s1)"
    by (auto simp: threadClientHandler_def andThen_eq_Inr_conv)
  have "thread_text tid (fst ?m)"
  proof (cases req)
    case None
    with recv receive_warns obtain t where t: "receiveRequest_out (conn (server_world srv)) = (''WARNING: '' @ t, Inr (None, s1))"
      by blast
    with res obtain w' where "respond False ''unable to receive request'' ((server_world srv)\<lparr>conn := s1\<rparr>) = Inr w'"
      by (auto simp: threadClientHandler_out_def Let_def andThen_eq_Inr_conv)
    with t have "fst ?m = ''WARNING: '' @ t" by (simp add: threadClientHandler_out_def Let_def)
    then show ?thesis by (simp add: thread_text_def)
  next
    case (Some r)
    note req = recv [unfolded Some]
    obtain name where name: "command_string (command r) = Inr name"
      using command_string_defined receiveRequest_path(2) [OF req] by blast
    from run req obtain node mgr h where
      node: "getLockFor (Some (remote_path r)) (file_lock_manager srv) (lock_heap srv) = Inr (node, mgr, h)"
      by (auto simp: threadClientHandler_def Let_def andThen_eq_Inr_conv)
    show ?thesis
    proof (cases "node = None \<or> command r = LS")
      case True
      with res receive_silent [OF req] name node
      have "fst ?m = logThread tid ''received request'' (Some name) \<or> fst ?m = logThread tid ''received request'' (Some name) @
          logThread tid ''unable to find read/write lock for'' (Some (remote_path r))"
        by (cases node) (auto simp: threadClientHandler_out_def switch_out_def Let_def andThen_eq_Inr_conv)
      then show ?thesis unfolding thread_text_def by blast
    next
      case False
      then obtain a where "node = Some a" and locks: "writes r \<or> command r = GET"
        using receiveRequest_path(2) [OF req] by (cases "command r") (auto simp: writes_def)
      with thread_lines [OF run req name _ locks, of a mgr h tid] node obtain t where
        "fst ?m = logThread tid ''received request'' (Some name) @
          logThread tid (if writes r then ''write lock'' else ''read lock'') (Some (remote_path r)) @ t @
          logThread tid ''unlock'' (Some (remote_path r))" and "work_text (command r) t"
        by auto
      then show ?thesis
        unfolding thread_text_def
        by (intro disjI2 exI [of _ name] exI [of _ "if writes r then ''write lock'' else ''read lock''"]
            exI [of _ "remote_path r"] exI [of _ t] exI [of _ "command r"]) simp
    qed
  qed
  with res show ?thesis by (intro exI [of _ "fst ?m"]) (simp add: prod_eq_iff)
qed

fun heard :: "(accept_result \<times> string \<times> int) list \<Rightarrow> (accept_result \<times> string \<times> int) list" where
  \<comment> \<open>the connections before \<open>accept\<close> fails\<close>
  "heard [] = []"
| "heard (e # evs) = (if fst e = AcceptFails then [] else e # heard evs)"

definition number_of :: "int \<Rightarrow> accept_result \<Rightarrow> int" where
  "number_of junk e = (case e of Accepted s time sd create_status tid sched \<Rightarrow> thread_number junk tid sched sd | AcceptFails \<Rightarrow> junk)"

definition visit_text :: "int \<Rightarrow> accept_result \<times> string \<times> int \<Rightarrow> string \<Rightarrow> bool" where
  \<comment> \<open>the output for one connection\<close>
  "visit_text junk e t \<longleftrightarrow>
     (\<exists>log. t = connected_line (fst (snd e)) (snd (snd e)) @ log \<and> thread_text (number_of junk (fst e)) log)"

lemma accept_output:
  assumes "accept_loop n (map fst evs) run = Inr (code, run')"
  shows "\<exists>ts. accept_loop_out n junk evs run = (concat ts, Inr (code, run')) \<and> list_all2 (visit_text junk) (heard evs) ts"
  using assms
proof (induction n junk evs run rule: accept_loop_out.induct)
  case (3 n junk s time sd create_status tid sched ip port evs run)
  let ?srv = "(run_state run)\<lparr>server_world := (server_world (run_state run))\<lparr>conn := s, clock := time\<rparr>\<rparr>"
  from "3.prems" obtain srv where create: "createAndDetachThread create_status tid sched sd = Inr True"
    and srv: "threadClientHandler n ?srv = Inr srv"
    and rest: "accept_loop n (map fst evs) \<lparr>run_state = srv, served = served run @ [conn (server_world srv)]\<rparr> = Inr (code, run')"
    by (auto simp: andThen_eq_Inr_conv createAndDetachThread_def split: if_splits)
  from "3.IH" [OF rest] obtain ts where ts: "list_all2 (visit_text junk) (heard evs) ts"
    "accept_loop_out n junk evs \<lparr>run_state = srv, served = served run @ [conn (server_world srv)]\<rparr> = (concat ts, Inr (code, run'))"
    by blast
  from thread_output [OF srv] obtain t where t: "thread_text (thread_number junk tid sched sd) t"
    "threadClientHandler_out n (thread_number junk tid sched sd) ?srv = (t, Inr srv)" by blast
  let ?e = "(Accepted s time sd create_status tid sched, ip, port)"
  have "accept_loop_out n junk (?e # evs) run = (concat ((connected_line ip port @ t) # ts), Inr (code, run'))"
    using create t(2) ts(2) by (simp add: andSay_def say_def quietly_def)
  moreover have "visit_text junk ?e (connected_line ip port @ t)"
    using t(1) by (auto simp: visit_text_def number_of_def)
  ultimately show ?case using ts(1) by (intro exI [of _ "(connected_line ip port @ t) # ts"]) simp
qed (auto simp: quietly_def)


section \<open>The client\<close>

definition sendRequest_out :: "nat \<Rightarrow> command_t \<Rightarrow> world \<Rightarrow> world printed" where
  "sendRequest_out n cmd w =
     (case createRequest (Some cmd) (files w) of
        None \<Rightarrow> quietly (Inl (ExitWith (- 1)))
      | Some req \<Rightarrow>
          andSay (quietly (serializeRequest (Some req))) (\<lambda>buffer.
            (case buffer of
               None \<Rightarrow> quietly (Inl (ExitWith (- 1)))
             | Some text \<Rightarrow>
                 (let (status, s1) = send text (conn w) in
                  if status < 0 then quietly (Inl (ExitWith (- 1)))
                  else if c_type cmd = WRITE then
                    andSay (sendFileContents_out n (local_path cmd) (data_len req) (w\<lparr>conn := s1\<rparr>))
                      (\<lambda>(_, w'). quietly (Inr w'))
                  else quietly (Inr (w\<lparr>conn := s1\<rparr>))))))"

definition handleGetResponse_out :: "nat \<Rightarrow> string \<Rightarrow> response_t \<Rightarrow> world \<Rightarrow> world printed" where
  "handleGetResponse_out n filepath response w =
     (let source_length = res_data_len response in
      if source_length \<le> 0 then andSay (say (displayServerResponse response)) (\<lambda>_. quietly (Inr w))
      else andSay (receiveFileContents_out n filepath source_length w) (\<lambda>(_, w'). quietly (Inr w')))"

definition receiveResponse_out :: "socket \<Rightarrow> (response_t option \<times> socket) printed" where
  "receiveResponse_out s =
     andSay (quietly (recv MAX_BUFF_SIZE s)) (\<lambda>(status, bytes, s').
       if status < 0 then quietly (Inr (None, s'))
       else
         (let buffer = bytes @ replicate (MAX_BUFF_SIZE - length bytes) NUL in
          andSay (quietly (cstring_in buffer)) (\<lambda>text.
          andSay (quietly (deSerializeResponse (Some text))) (\<lambda>res.
            (case res of
               None \<Rightarrow>
                 andSay (say (''raw server response = '' @ text @ newline)) (\<lambda>_. quietly (Inr (None, s')))
             | Some _ \<Rightarrow> quietly (Inr (res, s')))))))"

definition connected_to :: "command_t \<Rightarrow> string" where
  "connected_to cmd = ''successfully connected to '' @ server_ip cmd @ '' at port '' @ show_int PORT @ newline"

definition main_client_out :: "nat \<Rightarrow> string list \<Rightarrow> int \<Rightarrow> int \<Rightarrow> world \<Rightarrow> (int \<times> world) printed" where
  "main_client_out n argv sock connect_status w =
     andSay (argParser_out argv) (\<lambda>parsed.
       (case parsed of
          None \<Rightarrow> quietly (Inr (- 1, w))
        | Some cmd \<Rightarrow>
            if sock < 0 then quietly (Inr (- 1, w))
            else if connect_status < 0 then
              andSay (say (''EARLY EXIT: unable to connect to server'' @ newline)) (\<lambda>_. quietly (Inr (- 1, close_conn w)))
            else
              andSay (say (connected_to cmd)) (\<lambda>_.
              andSay (sendRequest_out n cmd w) (\<lambda>w1.
              andSay (receiveResponse_out (conn w1)) (\<lambda>(response, s2).
                (let w2 = w1\<lparr>conn := s2\<rparr> in
                 case response of
                   None \<Rightarrow> quietly (Inr (- 1, close_conn w2))
                 | Some res \<Rightarrow>
                     (case c_type cmd of
                        WRITE \<Rightarrow> andSay (say (displayServerResponse res)) (\<lambda>_. quietly (Inr (0, close_conn w2)))
                      | RM \<Rightarrow> andSay (say (displayServerResponse res)) (\<lambda>_. quietly (Inr (0, close_conn w2)))
                      | GET \<Rightarrow>
                          andSay (handleGetResponse_out n (local_path cmd) res w2) (\<lambda>w3.
                            quietly (Inr (0, close_conn w3)))
                      | LS \<Rightarrow> quietly (Inr (0, close_conn w2))
                      | UNKNOWN \<Rightarrow> quietly (Inr (0, close_conn w2)))))))))"

lemma snd_sendRequest_out: "snd (sendRequest_out n cmd w) = sendRequest n cmd w"
  by (auto simp: sendRequest_out_def sendRequest_def snd_if snd_sendFileContents_out case_prod_beta' Let_def
      split: option.splits intro!: andThen_cong)

lemma send_text:
  assumes "sendRequest n cmd w = Inr w'"
  shows "\<exists>t. sendRequest_out n cmd w = (t, Inr w') \<and>
    (t = (if c_type cmd = WRITE then upload_text (getFileSize (files w) (local_path cmd)) else ''''))"
proof -
  let ?m = "sendRequest_out n cmd w"
  have res: "snd ?m = Inr w'" by (simp add: snd_sendRequest_out assms)
  from assms obtain req where req: "createRequest (Some cmd) (files w) = Some req"
    by (auto simp: sendRequest_def split: option.splits)
  with assms obtain msg where ser: "serializeRequest (Some req) = Inr (Some msg)"
    by (auto simp: sendRequest_def andThen_eq_Inr_conv split: option.splits)
  obtain k s1 where sent: "send msg (conn w) = (k, s1)" by force
  with assms req ser have ok: "\<not> k < 0" by (auto simp: sendRequest_def)
  have "fst ?m = (if c_type cmd = WRITE then upload_text (getFileSize (files w) (local_path cmd)) else '''')"
  proof (cases "c_type cmd = WRITE")
    case True
    with assms req ser sent ok obtain b where
      up: "sendFileContents n (local_path cmd) (data_len req) (w\<lparr>conn := s1\<rparr>) = Inr (b, w')"
      by (auto simp: sendRequest_def andThen_eq_Inr_conv)
    have "0 \<le> getFileSize (files w) (local_path cmd)"
      using req True by (auto simp: createRequest_def Let_def split: if_splits)
    with sendFileContents_dashes [OF up] True req ser sent ok up show ?thesis
      by (simp add: sendRequest_out_def snd_sendFileContents_out)
  next
    case False
    with req ser sent ok show ?thesis by (simp add: sendRequest_out_def)
  qed
  with res show ?thesis by (intro exI [of _ "fst ?m"]) (simp add: prod_eq_iff)
qed

lemma response_silent: "receiveResponse s = Inr (Some r, s') \<Longrightarrow> receiveResponse_out s = ('''', Inr (Some r, s'))"
  by (auto simp: receiveResponse_out_def receiveResponse_def Let_def andThen_eq_Inr_conv andSay_def quietly_def
      split: if_splits)

lemma get_response_text:
  assumes "handleGetResponse n path res w = Inr (shown, w')"
  shows "\<exists>t. handleGetResponse_out n path res w = (t @ shown, Inr w') \<and>
    (t = '''' \<or> shown = '''' \<and> progress ''receiving file contents '' t)"
proof (cases "res_data_len res \<le> 0")
  case True
  with assms show ?thesis by (auto simp: handleGetResponse_def handleGetResponse_out_def andSay_def say_def quietly_def)
next
  case False
  with assms obtain ok where recv: "receiveFileContents n path (res_data_len res) w = Inr (ok, w')" and "shown = ''''"
    by (auto simp: handleGetResponse_def Let_def andThen_eq_Inr_conv)
  with False have "handleGetResponse_out n path res w = (fst (receiveFileContents_out n path (res_data_len res) w), Inr w')"
    by (intro prod_eqI) (simp_all add: handleGetResponse_out_def snd_receiveFileContents_out)
  with receiveFileContents_progress [OF recv] \<open>shown = ''''\<close> show ?thesis by auto
qed

lemma snd_receiveResponse_out: "snd (receiveResponse_out s) = receiveResponse s"
proof (cases "recv MAX_BUFF_SIZE s")
  case (Inr q)
  obtain b bytes s1 where q: "q = (b, bytes, s1)" by (cases q) auto
  show ?thesis
  proof (cases "b < 0")
    case False
    with Inr q show ?thesis
      by (auto simp: receiveResponse_out_def receiveResponse_def andThen_def split: sum.splits option.splits)
  qed (simp add: Inr q receiveResponse_out_def receiveResponse_def)
qed (simp add: receiveResponse_out_def receiveResponse_def)

lemma snd_handleGetResponse_out:
  "snd (handleGetResponse_out n path res w) = andThen (handleGetResponse n path res w) (\<lambda>(shown, w'). Inr w')"
  by (auto simp: handleGetResponse_out_def handleGetResponse_def snd_receiveFileContents_out Let_def andThen_def
      split: sum.splits prod.splits)

lemma snd_main_client_out:
  "snd (main_client_out n argv sd cs w) = andThen (main_client n argv sd cs w) (\<lambda>(code, shown, w'). Inr (code, w'))"
proof (cases "argParser argv")
  case (Inl e)
  then show ?thesis by (simp add: main_client_out_def main_client_def argParser_out_snd)
next
  case (Inr p)
  show ?thesis
  proof (cases p)
    case None
    with Inr show ?thesis by (simp add: main_client_out_def main_client_def argParser_out_snd)
  next
    case (Some cmd)
    show ?thesis
    proof (cases "sd < 0 \<or> cs < 0")
      case True
      with Inr Some show ?thesis by (auto simp: main_client_out_def main_client_def argParser_out_snd)
    next
      case False
      note start = Inr Some False
      show ?thesis
      proof (cases "sendRequest n cmd w")
        case (Inl e)
        with start show ?thesis
          by (simp add: main_client_out_def main_client_def argParser_out_snd snd_sendRequest_out)
      next
        case sent: (Inr w1)
        show ?thesis
        proof (cases "receiveResponse (conn w1)")
          case (Inl e)
          with start sent show ?thesis
            by (simp add: main_client_out_def main_client_def argParser_out_snd snd_sendRequest_out snd_receiveResponse_out)
        next
          case got: (Inr q)
          obtain res s2 where "q = (res, s2)" by force
          with start sent got show ?thesis
            by (cases res; cases "c_type cmd")
              (simp_all add: main_client_out_def main_client_def argParser_out_snd snd_sendRequest_out
                snd_receiveResponse_out snd_handleGetResponse_out case_prod_beta' andThen_assoc)
        qed
      qed
    qed
  qed
qed


end
