(* ===== verification/Console_Runs.thy ===== *)
theory Console_Runs
  imports Console_Programs System_Runs
begin



end
