(* ===== verification/Formats.thy ===== *)
theory Formats
  imports Request_Handler
begin

text \<open>
  The format strings of the program: a reading of \<open>printf\<close> formats with the conversions that the program uses, and the constants
  \<open>requestFormat\<close>, \<open>responseFormat\<close>, \<open>PATH_FORMAT\<close> and \<open>SIMPLE_VERSION_FORMAT\<close>. The other theories write the
  texts out; here they are what \<open>sprintf\<close> makes of the formats.
\<close>

section \<open>Reading a format\<close>

datatype fmt_arg = Str string | Num int

definition conversion :: "string \<Rightarrow> fmt_arg \<Rightarrow> stop + nat \<times> string" where
  \<comment> \<open>what follows the percent sign: its length and the text of the argument; an argument of another type is undefined\<close>
  "conversion spec arg =
     (case arg of
        Str s \<Rightarrow> if prefix ''s'' spec then Inr (1, s) else Inl Indeterminate
      | Num i \<Rightarrow>
          if prefix ''ld'' spec \<or> prefix ''lu'' spec then Inr (2, show_int i)
          else if prefix ''d'' spec \<or> prefix ''i'' spec then Inr (1, show_int i)
          else Inl Indeterminate)"

function format_text :: "string \<Rightarrow> fmt_arg list \<Rightarrow> stop + string" where
  \<comment> \<open>too few arguments are undefined, more than the format needs are ignored\<close>
  "format_text [] args = Inr []"
| "format_text (c # cs) args =
     (if c \<noteq> CHR ''%'' then andThen (format_text cs args) (\<lambda>t. Inr (c # t))
      else
        (case args of
           [] \<Rightarrow> Inl Indeterminate
         | arg # rest \<Rightarrow>
             andThen (conversion cs arg) (\<lambda>(k, shown).
             andThen (format_text (drop k cs) rest) (\<lambda>t. Inr (shown @ t)))))"
  by pat_completeness auto
termination by (relation "measure (\<lambda>(f, args). length f)") (auto simp: less_Suc_eq_le)

definition sprintf :: "nat \<Rightarrow> string \<Rightarrow> fmt_arg list \<Rightarrow> stop + string" where
  \<comment> \<open>into a buffer of the given size\<close>
  "sprintf cap f args = andThen (format_text f args) (store_string cap)"

section \<open>The formats\<close>

definition requestFormat :: string where "requestFormat = ''%s,%ld,%s''"
definition responseFormat :: string where "responseFormat = ''%d,%ld,%s''"
definition SIMPLE_VERSION_FORMAT :: string where "SIMPLE_VERSION_FORMAT = ''%s.%ld_%ld''"
definition SERIALIZE_FORMAT :: string where "SERIALIZE_FORMAT = ''%d,%s,%s''"

lemmas format_defs = requestFormat_def responseFormat_def SIMPLE_VERSION_FORMAT_def SERIALIZE_FORMAT_def PATH_FORMAT_def

lemma formats:
  "format_text requestFormat [Str a, Num l, Str p] = Inr (a @ '','' @ show_int l @ '','' @ p)"
  "format_text responseFormat [Num b, Num l, Str m] = Inr (show_int b @ '','' @ show_int l @ '','' @ m)"
  "format_text SIMPLE_VERSION_FORMAT [Str a, Num s, Num u] = Inr (a @ ''.'' @ show_int s @ ''_'' @ show_int u)"
  "format_text PATH_FORMAT [Str p] = Inr (''data/'' @ p)"
  by (simp_all add: format_defs conversion_def)

text \<open>
  The texts that the program makes are what \<open>sprintf\<close> makes of its format strings, in a buffer of the size that the code
  computes: the encoding of requests and of responses, the prefix of paths and the names of versions.
\<close>

theorem texts_from_formats:
  "serializeRequest (Some req) =
     andThen (command_string (command req)) (\<lambda>command_type.
     andThen (num_digits (data_len req)) (\<lambda>digits.
     andThen (sprintf (length command_type + length (remote_path req) + digits + 3) requestFormat
                [Str command_type, Num (data_len req), Str (remote_path req)]) (\<lambda>reqString. Inr (Some reqString)))) \<and>
   serializeResponse (Some res) =
     andThen (num_digits (res_data_len res)) (\<lambda>digits.
     andThen (sprintf (length (message res) + digits + 4) responseFormat
                [Num (if status res then 1 else 0), Num (res_data_len res), Str (message res)])
       (\<lambda>resString. Inr (Some resString))) \<and>
   formatPath (Some path) = sprintf (length PATH_FORMAT + length path) PATH_FORMAT [Str path] \<and>
   makeVersionName base time = sprintf MAX_PATH_LEN SIMPLE_VERSION_FORMAT [Str base, Num (fst time), Num (snd time)]"
  by (simp add: serializeRequest_def serializeResponse_def makeVersionName_def version_name_def formatPath_def sprintf_def formats)

text \<open>
  A second use of a format: in any text between two places of a format, a string argument comes out as it is, so a comma or a
  percent sign in an argument is not read as a part of the format.
\<close>

lemma argument_verbatim:
  assumes "CHR ''%'' \<notin> set before"
  shows "format_text (before @ ''%s'' @ rest) (Str s # args) = andThen (format_text rest args) (\<lambda>t. Inr (before @ s @ t))"
  using assms by (induction before) (simp_all add: conversion_def andThen_def split: sum.splits)

end
