(* ===== verification/Protocol_Tests.thy ===== *)
theory Protocol_Tests
  imports Protocol
begin

text \<open>
  The unit tests \<open>tests/protocol_test.c\<close> of the repository, run on the model of \<open>protocol.c\<close>. A test yields the list
  of its \<open>PASS\<close> and \<open>FAIL\<close> lines; the redirection of \<open>stderr\<close> is left out.
\<close>

section \<open>The code of the tests\<close>

definition responseEquals :: "response_t option \<Rightarrow> response_t option \<Rightarrow> bool" where
  "responseEquals a b =
     (case (a, b) of
        (None, None) \<Rightarrow> True
      | (Some x, Some y) \<Rightarrow>
          if status x \<noteq> status y then False
          else if res_data_len x \<noteq> res_data_len y then False
          else equals (Some (message x)) (Some (message y))
      | _ \<Rightarrow> False)"

definition requestEquals :: "request_t option \<Rightarrow> request_t option \<Rightarrow> bool" where
  "requestEquals a b =
     (case (a, b) of
        (None, None) \<Rightarrow> True
      | (Some x, Some y) \<Rightarrow>
          if command x \<noteq> command y then False
          else if data_len x \<noteq> data_len y then False
          else equals (Some (remote_path x)) (Some (remote_path y))
      | _ \<Rightarrow> False)"

definition testRequestStruct :: "request_t option \<Rightarrow> string option \<Rightarrow> stop + bool list" where
  \<comment> \<open>the lines \<open>PASS\<close> and \<open>FAIL\<close>\<close>
  "testRequestStruct original_obj expected_str =
     andThen (serializeRequest original_obj) (\<lambda>actual_str.
       if \<not> equals actual_str expected_str then Inr [False]
       else andThen (deSerializeRequest actual_str) (\<lambda>actual_obj.
              Inr [True, requestEquals original_obj actual_obj]))"

definition testResponseStruct :: "response_t option \<Rightarrow> string option \<Rightarrow> stop + bool list" where
  "testResponseStruct original_obj expected_str =
     andThen (serializeResponse original_obj) (\<lambda>actual_str.
       if \<not> equals actual_str expected_str then Inr [False]
       else andThen (deSerializeResponse actual_str) (\<lambda>actual_obj.
              if responseEquals original_obj actual_obj then Inr [True, True]
              else andThen (serializeResponse actual_obj) (\<lambda>_.
                   andThen (serializeResponse original_obj) (\<lambda>_. Inr [True, False]))))"

definition asserting :: "bool \<Rightarrow> stop + bool list \<Rightarrow> stop + bool list" where
  \<comment> \<open>\<open>assert\<close>: a program that fails it is aborted, with exit status 134\<close>
  "asserting b m = (if b then m else Inl (ExitWith 134))"

fun in_order :: "(stop + bool list) list \<Rightarrow> stop + bool list" where
  "in_order [] = Inr []"
| "in_order (m # ms) = andThen m (\<lambda>xs. andThen (in_order ms) (\<lambda>ys. Inr (xs @ ys)))"

definition requestTest :: "filesys \<Rightarrow> stop + bool list" where
  \<comment> \<open>the invalid command type 5 is rejected by the same test as \<open>UNKNOWN\<close>\<close>
  "requestTest fs =
     (let test1 = createRequest None fs;
          test2 = createRequestFromParts UNKNOWN (Some ''remote.txt'') 0;
          test3 = createRequestFromParts GET None 0;
          request2 = createRequestFromParts GET (Some ''data/remote2.txt'') 0
      in in_order
         [asserting (test1 = None) (testRequestStruct test1 None),
          asserting (test2 = None) (testRequestStruct test2 None),
          asserting (test3 = None) (testRequestStruct test3 None),
          andThen (createCommandStruct GET (Some ''localhost'') (Some ''local1.txt'') (Some ''remote1.txt'')) (\<lambda>cmd1.
            let request1 = createRequest cmd1 fs
            in asserting (request1 \<noteq> None) (testRequestStruct request1 (Some ''GET,0,data/remote1.txt''))),
          asserting (request2 \<noteq> None) (testRequestStruct request2 (Some ''GET,0,data/remote2.txt''))])"

definition responseTest :: "stop + bool list" where
  "responseTest =
     (let test2 = createResponse True (Some ''testing negative data length'') (- 1);
          test1 = createResponse True None 0;
          response1 = createResponse True (Some '''') 0;
          response2 = createResponse False (Some ''unable to open remote file'') 0
      in in_order
         [asserting (test2 = None) (testResponseStruct test2 None),
          asserting (test1 \<noteq> None) (testResponseStruct test1 (Some ''1,0,NULL'')),
          asserting (response1 \<noteq> None) (testResponseStruct response1 (Some ''1,0,NULL'')),
          asserting (response2 \<noteq> None) (testResponseStruct response2 (Some ''0,0,unable to open remote file''))])"

definition protocol_test_main :: "filesys \<Rightarrow> stop + bool list" where
  "protocol_test_main fs = in_order [requestTest fs, responseTest]"

section \<open>The tests pass\<close>

text \<open>The tests of the repository hold in the model: no assertion fails and each of the 18 lines is \<open>PASS\<close>.\<close>

lemma protocol_tests_pass: "protocol_test_main fs = Inr (replicate 18 True)"
  by code_simp

text \<open>They pass for every valid request and response, too, not only for those in the tests.\<close>

lemma tests_pass_valid:
  "valid_request r \<Longrightarrow> serializeRequest (Some r) = Inr (Some s) \<Longrightarrow> testRequestStruct (Some r) (Some s) = Inr [True, True]"
  "valid_response q \<Longrightarrow> serializeResponse (Some q) = Inr (Some t) \<Longrightarrow> testResponseStruct (Some q) (Some t) = Inr [True, True]"
  using request.decode_encode [of r s] response.decode_encode [of q t]
  by (simp_all add: testRequestStruct_def testResponseStruct_def requestEquals_def responseEquals_def)

end
