(* ===== verification/Test_Utils.thy ===== *)
theory Test_Utils
  imports Console
begin

text \<open>
  \<open>tests/test_utils.c\<close>: the headers that the unit tests print, and the redirection of \<open>stderr\<close> over a table of
  file descriptors. A descriptor is a position in the table, which holds the name of the open file; a new descriptor is the lowest free
  one, and a call that fails returns -1 and changes nothing.
\<close>

section \<open>File descriptors\<close>

type_synonym fd_table = "string option list"

definition open_at :: "fd_table \<Rightarrow> nat \<Rightarrow> string option" where
  "open_at fds k = (if k < length fds then fds ! k else None)"

definition set_fd :: "nat \<Rightarrow> string option \<Rightarrow> fd_table \<Rightarrow> fd_table" where
  "set_fd k f fds = (fds @ replicate (Suc k - length fds) None)[k := f]"

definition lowest_free :: "fd_table \<Rightarrow> nat" where
  "lowest_free fds = length (takeWhile (\<lambda>f. f \<noteq> None) fds)"

definition lookup_fd :: "int \<Rightarrow> fd_table \<Rightarrow> string option" where
  "lookup_fd fd fds = (if fd < 0 then None else open_at fds (nat fd))"

definition open_fd :: "string \<Rightarrow> fd_table \<Rightarrow> int \<times> fd_table" where
  \<comment> \<open>\<open>open\<close> of a file that exists\<close>
  "open_fd name fds = (int (lowest_free fds), set_fd (lowest_free fds) (Some name) fds)"

definition dup :: "int \<Rightarrow> fd_table \<Rightarrow> int \<times> fd_table" where
  "dup fd fds =
     (case lookup_fd fd fds of
        None \<Rightarrow> (- 1, fds)
      | Some f \<Rightarrow> open_fd f fds)"

definition dup2 :: "int \<Rightarrow> nat \<Rightarrow> fd_table \<Rightarrow> fd_table" where
  "dup2 fd target fds =
     (case lookup_fd fd fds of
        None \<Rightarrow> fds
      | Some f \<Rightarrow> set_fd target (Some f) fds)"

definition close_fd :: "int \<Rightarrow> fd_table \<Rightarrow> fd_table" where
  "close_fd fd fds = (if lookup_fd fd fds = None then fds else set_fd (nat fd) None fds)"

section \<open>The code\<close>

definition disable_stderr :: "fd_table \<Rightarrow> int \<times> fd_table" where
  \<comment> \<open>\<open>fileno(stderr)\<close> is 2\<close>
  "disable_stderr fds =
     (let (stderr_fd, fds1) = dup 2 fds;
          (devnull_fd, fds2) = open_fd ''/dev/null'' fds1;
          fds3 = dup2 devnull_fd 2 fds2;
          fds4 = close_fd devnull_fd fds3
      in (stderr_fd, fds4))"

definition restore_stderr :: "int \<Rightarrow> fd_table \<Rightarrow> fd_table" where
  "restore_stderr fd fds = close_fd fd (dup2 fd 2 fds)"

definition PRINT_COMPARISON :: "string \<Rightarrow> string \<Rightarrow> string" where
  "PRINT_COMPARISON expected actual = tab @ ''expected: '' @ expected @ newline @ tab @ ''  actual: '' @ actual @ newline"

definition ruler :: string where
  "ruler = newline @ replicate 58 (CHR ''~'') @ newline"

definition PRINT_HEADER :: "string \<Rightarrow> string" where
  "PRINT_HEADER str = ruler @ ''TEST - '' @ str @ ruler"

definition PRINT_SUBHEADER :: "string \<Rightarrow> string" where
  "PRINT_SUBHEADER str = newline @ ''~~ '' @ str @ newline"

section \<open>Redirecting and restoring\<close>

lemma open_at_set [simp]: "open_at (set_fd k f fds) j = (if j = k then f else open_at fds j)"
  by (auto simp: open_at_def set_fd_def nth_append)

lemma open_at_lowest [simp]: "open_at fds (lowest_free fds) = None"
proof (cases "lowest_free fds < length fds")
  case True
  then show ?thesis
    using nth_length_takeWhile [of "\<lambda>f. f \<noteq> None" fds] by (simp add: open_at_def lowest_free_def)
qed (simp add: open_at_def)

lemma lowest_free_set: "open_at fds k \<noteq> None \<Longrightarrow> lowest_free fds \<noteq> k"
  using open_at_lowest [of fds] by auto

text \<open>
  While the tests run with \<open>stderr\<close> disabled it is the null device, one more descriptor keeps the old file, and all other descriptors
  are as they were; \<open>restore_stderr\<close> gives back exactly the table from before, provided that \<open>stderr\<close> was open.
\<close>

theorem stderr_restored:
  assumes "open_at fds 2 = Some f" and "disable_stderr fds = (fd, fds')"
  shows "open_at fds' 2 = Some ''/dev/null'' \<and> 0 \<le> fd \<and> open_at fds (nat fd) = None \<and> open_at fds' (nat fd) = Some f \<and>
    (\<forall>k. k \<noteq> 2 \<longrightarrow> k \<noteq> nat fd \<longrightarrow> open_at fds' k = open_at fds k) \<and>
    (\<forall>k. open_at (restore_stderr fd fds') k = open_at fds k)"
proof -
  let ?a = "lowest_free fds"
  let ?t = "set_fd ?a (Some f) fds"
  let ?b = "lowest_free ?t"
  have a: "?a \<noteq> 2" using assms(1) lowest_free_set [of fds 2] by simp
  have b: "?b \<noteq> 2" "?b \<noteq> ?a" using assms(1) lowest_free_set [of ?t 2] lowest_free_set [of ?t ?a] a by simp_all
  then have free: "open_at fds ?b = None" using open_at_lowest [of ?t] by (simp del: open_at_lowest)
  have "fd = int ?a" "fds' = set_fd ?b None (set_fd 2 (Some ''/dev/null'') (set_fd ?b (Some ''/dev/null'') ?t))"
    using assms b by (auto simp: disable_stderr_def dup_def dup2_def close_fd_def open_fd_def lookup_fd_def)
  with assms(1) a b free show ?thesis
    by (auto simp: restore_stderr_def dup2_def close_fd_def lookup_fd_def)
qed

theorem stderr_restored_witness:
  "disable_stderr [Some ''in'', Some ''out'', Some ''err''] = (3, [Some ''in'', Some ''out'', Some ''/dev/null'', Some ''err'', None]) \<and>
   open_at (restore_stderr 3 [Some ''in'', Some ''out'', Some ''/dev/null'', Some ''err'', None]) 2 = Some ''err''"
proof -
  have run: "disable_stderr [Some ''in'', Some ''out'', Some ''err''] = (3, [Some ''in'', Some ''out'', Some ''/dev/null'', Some ''err'', None])"
    by code_simp
  have "open_at [Some ''in'', Some ''out'', Some ''err''] 2 = Some ''err''" by code_simp
  from stderr_restored [OF this run] run show ?thesis by (simp add: open_at_def)
qed

end
