(* ===== verification/Spec2Isabelle.thy ===== *)
theory Spec2Isabelle
  imports Memory_Runs Live_Runs Strtok_Race Console_Runs Formats Protocol_Tests Test_Utils
begin

text \<open>
  The Remote-File-System: a TCP server that stores files below its working directory and keeps
  a version of every file that is overwritten, and a command line client for it. This is the
  root of a model of both programs in HOL, with theorems about what they do, where they do
  what they should and where they do not.

  \<^bold>\<open>The program.\<close> The client (\<open>client/client.c\<close>) parses its command line (\<open>client/arg_parser.c\<close>)
  into a command (\<open>command.c\<close>), makes a request from it and sends the request as the text
  \<open>command,length,path\<close> (\<open>protocol.c\<close>); after a \<open>WRITE\<close> the bytes of the local file follow
  (\<open>utils.c\<close>). The server (\<open>server/server.c\<close>) starts a thread for every connection. The thread
  (\<open>server/thread_manager.c\<close>) receives and decodes the request, looks its path up in a list of
  read/write locks, takes the lock, runs the handler for the command
  (\<open>server/request_handler.c\<close>) and gives the lock back. The handlers answer with a response
  \<open>status,length,message\<close>; for a \<open>GET\<close> the bytes of the file follow.

  \<^bold>\<open>How C is modelled.\<close> A function is a HOL function with the same name into \<open>stop + 'a\<close>: a
  normal return, or a \<open>stop\<close>, which is an \<open>exit\<close>, a call that blocks for ever, an exhausted fuel or
  undefined behaviour of a certain kind (theory \<open>Prelude\<close>). Structs are records, enums
  datatypes, a pointer that may be null is an option. A \<open>char*\<close> is a list of characters
  without its zero byte (theory \<open>C_Strings\<close>, which also has the functions of \<open>string.h\<close> and
  \<open>stdlib.h\<close> that the code calls). Every copy into an array goes through \<open>store_string\<close> with the
  size of the array, so a string that does not fit is \<open>BufferOverflow\<close>. \<open>long\<close> is \<open>int\<close>:
  the only values that come from outside go through \<open>strtol\<close>, which clamps to the range of
  \<open>long\<close>, and no later operation on them can leave the range. A loop that surely ends is
  recursion with a measure (\<open>sendALL\<close>, the \<open>strtok\<close> loops); a loop over a file or a socket takes fuel. Theorems that a
  run returns name the fuel: for reading a file of \<open>k\<close> bytes any \<open>n\<close> with
  \<open>k < n * MAX_BUFF_SIZE\<close>, for receiving \<open>k\<close> bytes any \<open>n \<ge> k\<close>, as every \<open>recv\<close> takes at least one
  byte. That a loop never returns is \<open>OutOfFuel\<close> for every fuel.

  \<^bold>\<open>The environment.\<close> \<open>File_System\<close> is the tree of files, with read-only entries and a limited
  space, and the calls of POSIX on it; \<open>Sockets\<close> is a connection whose incoming events (pieces of the
  stream, close, error) and partial or failing sends are given in advance. Both follow
  the documented behaviour of the calls; what POSIX leaves open is a field of the state. Results of
  \<open>socket\<close>, \<open>bind\<close>, \<open>listen\<close>, \<open>connect\<close>, \<open>accept\<close> and \<open>pthread_create\<close> are arguments of the two \<open>main\<close> functions.

  \<^bold>\<open>The theories.\<close>
  \<^item> \<open>Prelude\<close>: \<open>stop\<close>, \<open>andThen\<close>, collections of rewrite rules, the locale \<open>keyed_store\<close>.
  \<^item> \<open>C_Strings\<close>, \<open>File_System\<close>, \<open>Sockets\<close>: the standard library and the environment.
  \<^item> \<open>Command\<close> (\<open>command.c\<close>), \<open>Arg_Parser\<close> (\<open>client/arg_parser.c\<close>): the parser does what the table of its
    usage says and is total.
  \<^item> \<open>Utils\<close> (\<open>utils.c\<close>): paths, directories, copying, sending and receiving of files; what each loop does
    for every division of the stream into pieces.
  \<^item> \<open>Protocol\<close> (\<open>protocol.c\<close>): both formats are instances of one contract (locale \<open>codec\<close>); which lengths
    overflow the buffers, which paths do not survive, and that decoding is safe.
  \<^item> \<open>Strtok_Race\<close>: \<open>deSerializeRequest\<close> in two threads at once.
  \<^item> \<open>Request_Handler\<close> (\<open>server/request_handler.c\<close>): each handler on every branch.
  \<^item> \<open>Version_History\<close>: any number of uploads against the contract of a versioned store (locale \<open>version_store\<close>).
  \<^item> \<open>Lock_List\<close> (\<open>server/thread_manager.c\<close>): the linked list of locks over a heap of nodes implements a
    map from names to locks (locale \<open>lock_table\<close>).
  \<^item> \<open>Thread_Manager\<close>: one thread from its request to its end. \<open>Workers\<close>: any number of threads
    as an interleaving of steps, an invariant by rule induction, mutual exclusion, absence of deadlock,
    and the refinement between a thread alone and its steps.
  \<^item> \<open>Server\<close> (\<open>server/server.c\<close>), \<open>Client\<close> (\<open>client/client.c\<close>): the two \<open>main\<close> functions.
  \<^item> \<open>Stored_Files\<close>: what the server promises, as an abstract store of files with versions (\<open>spec\<close>), and the
    refinement (locale \<open>simulation\<close>): for every sequence of requests that the store has room for, \<open>main_server\<close>
    gives the answers of \<open>spec\<close> and leaves its files; requests for different names commute.
  \<^item> \<open>Overlap\<close>: \<open>WRITE\<close> and \<open>GET\<close> cut at the calls that touch the files or the socket, with an invariant for each
    point. A task alone does what its handler does. \<open>Frames\<close> has the lemmas on what the file operations leave alone.
  \<^item> \<open>Live_Server\<close>: the threads of \<open>Workers\<close> whose handlers run in the steps of \<open>Overlap\<close>. For every interleaving an
    upload that is answered with success is stored whole, and a download is one state of its file; the runs
    of \<open>Workers\<close> are among its runs. \<open>Live_History\<close>: the log of the answered requests, against an atomic register
    for every file: a download is what the requests answered before it have left, the bytes of the last upload, those
    from before the start of the server, or nothing after a removal. \<open>Live_Progress\<close>: for which reasons a handler
    may be unable to go on.
  \<^item> \<open>Live_Termination\<close>: how many steps a handler can make, whatever the other threads do, and that it can be run to its
    return or to one of those reasons.
  \<^item> \<open>Ownership\<close>: the functions that allocate and free requests, responses and commands over a heap of blocks;
    which blocks are freed and which are lost. \<open>Server_Memory\<close>, \<open>Client_Memory\<close>: whole runs of the two programs over this heap, which
    do the same as without it, never use a freed block, and how many blocks they leave.
  \<^item> \<open>Console\<close>: functions that print, the argument parser, the lines of the log and the address of the server.
    \<open>Console_Threads\<close>: the progress of the transfers and the log of a thread. \<open>Console_Programs\<close>: the whole output of
    the two \<open>main\<close> functions. Printing never changes a result.
  \<^item> \<open>Formats\<close>: a reading of \<open>printf\<close> formats; the encodings, paths and version names are what \<open>sprintf\<close> makes of the
    format strings of the code.
  \<^item> \<open>Protocol_Tests\<close> (\<open>tests/protocol_test.c\<close>): the unit tests of the repository, which pass in the model; \<open>Test_Utils\<close>
    (\<open>tests/test_utils.c\<close>): redirecting \<open>stderr\<close> and restoring it, over a table of file descriptors.
  \<^item> \<open>Handler_Runs\<close>, \<open>Thread_Runs\<close>, \<open>System_Runs\<close>, \<open>Live_Runs\<close>, \<open>Client_Runs\<close>, \<open>Memory_Runs\<close>, \<open>Console_Runs\<close>: concrete runs on
    which the theorems apply.
  \<^item> This theory: the client, the network and the server together.

  \<^bold>\<open>Bounds.\<close> \<open>MAX_BUFF_SIZE\<close> is 2000 and \<open>MAX_PATH_LEN\<close> 260, as in \<open>config.h\<close>. Theorems on success ask for what
  the code needs: texts shorter than the buffer, lengths that are not a power of ten, paths without commas
  whose versions fit in 260 characters, and enough space. That these are needed is shown by the theorems on overflow,
  truncation and loss.

  \<^bold>\<open>Not modelled.\<close> The messages on \<open>stderr\<close> and those of the \<open>debug\<close> macro, which is empty unless \<open>DEBUG_MODE\<close> is defined: no
  code depends on them. The output of the server is that of threads that run one after the other. \<open>malloc\<close>
  and \<open>strdup\<close> are taken to succeed. Memory is explicit for lock nodes (\<open>Lock_List\<close>), thread arguments (\<open>Server\<close>) and,
  in \<open>Ownership\<close>, \<open>Server_Memory\<close> and \<open>Client_Memory\<close>, for requests, responses, commands and thread arguments; elsewhere these are values. \<open>SIGPIPE\<close> is not modelled. \<open>log10\<close> is taken to be exact on powers
  of ten. The length of the lock list is not bounded by \<open>int\<close>. A handler is one step of the
  interleaving in \<open>Workers\<close>. In \<open>Live_Server\<close>, where it is many, an open file is known by its path, saving a version and \<open>RM\<close>
  are one step each, and the clients name files in plain spelling, not in version folders, as the locks go by the text of the path. The shell scripts and the Makefile are not part of the program.
\<close>

section \<open>Client, network and server together\<close>

lemma thread_write:
  assumes "server_ready srv" and "wf_fs (files (server_world srv))"
    and "can_receive n ds f ps (server_world srv)"
    and "node_at (files (server_world srv)) (cwd (files (server_world srv)) @ ds @ [f]) = None"
    and "length (concat ps) \<le> space (files (server_world srv))"
    and "\<not> power_of_ten (length (concat ps))" and "int (length (concat ps)) \<le> LONG_MAX"
    and "r = \<lparr>command = WRITE, remote_path = join (ds @ [f]), data_len = int (length (concat ps))\<rparr>"
    and "CHR '','' \<notin> set (join (ds @ [f]))"
    and "length (request_text r) < MAX_BUFF_SIZE"
    and "inbox (conn (server_world srv)) = Arrive (request_text r) # map Arrive ps @ evs"
  shows "\<exists>srv' fs'. threadClientHandler n srv = Inr srv' \<and> server_ready srv' \<and>
    files (server_world srv') = fs' \<and> wf_fs fs' \<and> same_env (files (server_world srv)) fs' \<and>
    node_at fs' (cwd fs' @ ds @ [f]) = Some (File (concat ps)) \<and>
    outbox (conn (server_world srv')) = outbox (conn (server_world srv)) @ ''1,0,NULL'' \<and>
    is_closed (conn (server_world srv'))"
proof -
  let ?w = "server_world srv"
  let ?w1 = "?w\<lparr>conn := (conn ?w)\<lparr>inbox := map Arrive ps @ evs\<rparr>\<rparr>"
  have pl: "\<forall>c \<in> set (ds @ [f]). plain c" using assms(3) by (simp add: can_receive_def)
  have path: "join (ds @ [f]) \<noteq> ''''" using pl by (intro rel_path_join_nonempty) (simp add: rel_path_def)
  have recv: "receiveRequest (conn ?w) = Inr (Some r, (conn ?w)\<lparr>inbox := map Arrive ps @ evs\<rparr>)"
    using receive_request [OF assms(11)] assms(7-10) path cstr_join [OF pl] by simp
  have can: "can_receive n ds f ps ?w1" using assms(3) by (simp add: can_receive_def)
  from write_new [of ?w1, OF _ can, of evs r] assms(2,4,5,8) obtain fs' ps' where
    "handleWriteRequest n r ?w1 = Inr (?w1\<lparr>files := fs', conn := (conn ?w1)\<lparr>inbox := map Arrive ps' @ evs,
        outbox := outbox (conn ?w1) @ ''1,0,NULL''\<rparr>\<rparr>)"
    and fs': "wf_fs fs'" "same_env (files ?w) fs'"
      "node_at fs' (cwd (files ?w) @ ds @ [f]) = Some (File (concat ps))"
    by auto
  then have "run_handler n r ?w1 = Inr (?w1\<lparr>files := fs', conn := (conn ?w1)\<lparr>inbox := map Arrive ps' @ evs,
        outbox := outbox (conn ?w1) @ ''1,0,NULL''\<rparr>\<rparr>)"
    using assms(8) by (simp add: run_handler_def)
  from thread_run [OF assms(1) recv this] fs' show ?thesis
    by (auto simp: finish_def close_socket_def same_env_def)
qed

lemma thread_get:
  assumes "server_ready srv" and "wf_fs (files (server_world srv))" and "rel_path path"
    and "node_at (files (server_world srv)) (cwd (files (server_world srv)) @ path) = Some (File c)"
    and "sends_whole (conn (server_world srv))"
    and "\<not> power_of_ten (length c)" and "length c < n * MAX_BUFF_SIZE"
    and "r = \<lparr>command = GET, remote_path = join path, data_len = 0\<rparr>"
    and "CHR '','' \<notin> set (join path)" and "length (request_text r) < MAX_BUFF_SIZE"
    and "inbox (conn (server_world srv)) = Arrive (request_text r) # evs"
  shows "\<exists>srv'. threadClientHandler n srv = Inr srv' \<and> server_ready srv' \<and>
    files (server_world srv') = files (server_world srv) \<and>
    outbox (conn (server_world srv')) =
      outbox (conn (server_world srv)) @ ''1,'' @ show_int (int (length c)) @ '',OK'' @ c \<and>
    is_closed (conn (server_world srv'))"
proof -
  let ?w = "server_world srv"
  let ?w1 = "?w\<lparr>conn := (conn ?w)\<lparr>inbox := evs\<rparr>\<rparr>"
  have path: "join path \<noteq> ''''" and pl: "\<forall>c \<in> set path. plain c"
    using rel_path_join_nonempty [OF assms(3)] assms(3) by (simp_all add: rel_path_def)
  have recv: "receiveRequest (conn ?w) = Inr (Some r, (conn ?w)\<lparr>inbox := evs\<rparr>)"
    using receive_request [OF assms(11)] assms(8-10) path cstr_join [OF pl] by (simp add: LONG_MAX_def)
  obtain s' where "handleGetRequest n r ?w1 = Inr (?w1\<lparr>conn := s'\<rparr>)"
    and out: "outbox s' = outbox (conn ?w) @ ''1,'' @ show_int (int (length c)) @ '',OK'' @ c"
    using get_file [of ?w1 path r c n] assms(2-8) by auto
  then have "run_handler n r ?w1 = Inr (?w1\<lparr>conn := s'\<rparr>)"
    using assms(8) by (simp add: run_handler_def)
  from thread_run [OF assms(1) recv this] out show ?thesis
    by (auto simp: finish_def close_socket_def)
qed







end
